(* ===== verification/Prelude.thy ===== *)
theory Prelude
  imports Main "HOL-Library.Word" "HOL-Library.Monad_Syntax"
begin

text \<open>
  Shared vocabulary of the development: machine integers, byte buffers with checked access,
  C strings, little-endian fields, and the generic lemmas the components use.

  A C object of \<open>n\<close> bytes is a list of \<open>n\<close> bytes. Every access that the source performs through
  a pointer is written with one of the checked operations below; they return \<^term>\<open>None\<close> when the
  access would leave the object, which is undefined behaviour in C. A theorem that such a
  definition returns \<^term>\<open>Some r\<close> therefore says, besides the value, that no access left its
  object.
\<close>

unbundle bit_operations_syntax

named_theorems mem_simps "rewrite rules for checked buffer access"
named_theorems wire_simps "rewrite rules for little-endian fields"

type_synonym byte = "8 word"
type_synonym u16 = "16 word"
type_synonym u32 = "32 word"
type_synonym u64 = "64 word"
type_synonym bytes = "byte list"

section \<open>Error numbers\<close>

text \<open>The Linux error numbers the sources name. Functions return the negated number.\<close>

abbreviation (input) EPERM :: int where "EPERM \<equiv> 1"
abbreviation (input) ENOENT :: int where "ENOENT \<equiv> 2"
abbreviation (input) EINTR :: int where "EINTR \<equiv> 4"
abbreviation (input) EIO :: int where "EIO \<equiv> 5"
abbreviation (input) E2BIG :: int where "E2BIG \<equiv> 7"
abbreviation (input) EAGAIN :: int where "EAGAIN \<equiv> 11"
abbreviation (input) ENOMEM :: int where "ENOMEM \<equiv> 12"
abbreviation (input) EEXIST :: int where "EEXIST \<equiv> 17"
abbreviation (input) ENODEV :: int where "ENODEV \<equiv> 19"
abbreviation (input) EINVAL :: int where "EINVAL \<equiv> 22"
abbreviation (input) EFBIG :: int where "EFBIG \<equiv> 27"
abbreviation (input) ERANGE :: int where "ERANGE \<equiv> 34"
abbreviation (input) ENODATA :: int where "ENODATA \<equiv> 61"
abbreviation (input) EPROTO :: int where "EPROTO \<equiv> 71"
abbreviation (input) EBADMSG :: int where "EBADMSG \<equiv> 74"
abbreviation (input) EMSGSIZE :: int where "EMSGSIZE \<equiv> 90"
abbreviation (input) EPROTONOSUPPORT :: int where "EPROTONOSUPPORT \<equiv> 93"
abbreviation (input) EOPNOTSUPP :: int where "EOPNOTSUPP \<equiv> 95"
abbreviation (input) ETIMEDOUT :: int where "ETIMEDOUT \<equiv> 110"
abbreviation (input) ESTALE :: int where "ESTALE \<equiv> 116"
abbreviation (input) ECANCELED :: int where "ECANCELED \<equiv> 125"

section \<open>Checked buffer access\<close>

definition rd :: "'a list \<Rightarrow> nat \<Rightarrow> 'a option" where
  "rd b i = (if i < length b then Some (b ! i) else None)"

definition wr :: "'a list \<Rightarrow> nat \<Rightarrow> 'a \<Rightarrow> 'a list option" where
  "wr b i v = (if i < length b then Some (b[i := v]) else None)"

text \<open>A signed index into an array: a negative one is outside it.\<close>

definition array_index :: "int \<Rightarrow> nat option" where
  "array_index i = (if i < 0 then None else Some (nat i))"

text \<open>The source side and the destination side of a \<open>memcpy\<close>.\<close>

definition slice :: "'a list \<Rightarrow> nat \<Rightarrow> nat \<Rightarrow> 'a list option" where
  "slice b off n = (if off + n \<le> length b then Some (take n (drop off b)) else None)"

definition blit :: "'a list \<Rightarrow> nat \<Rightarrow> 'a list \<Rightarrow> 'a list option" where
  "blit b off src =
     (if off + length src \<le> length b
      then Some (take off b @ src @ drop (off + length src) b) else None)"

lemma array_index_in [simp]: "0 \<le> i \<Longrightarrow> array_index i = Some (nat i)"
  by (simp add: array_index_def)

lemma rd_in [simp]: "i < length b \<Longrightarrow> rd b i = Some (b ! i)"
  by (simp add: rd_def)

lemma wr_in [simp]: "i < length b \<Longrightarrow> wr b i v = Some (b[i := v])"
  by (simp add: wr_def)

lemma slice_in [simp]: "off + n \<le> length b \<Longrightarrow> slice b off n = Some (take n (drop off b))"
  by (simp add: slice_def)

lemma blit_in:
  "off + length src \<le> length b \<Longrightarrow>
     blit b off src = Some (take off b @ src @ drop (off + length src) b)"
  by (simp add: blit_def)

lemma blit_length: "blit b off src = Some b' \<Longrightarrow> length b' = length b"
  by (auto simp: blit_def split: if_splits)

lemma slice_length: "slice b off n = Some s \<Longrightarrow> length s = n"
  by (auto simp: slice_def split: if_splits)

text \<open>Writing at the end of an already written prefix extends the prefix.\<close>

lemma blit_append [mem_simps]:
  assumes "length pre = off" "length src \<le> length rest"
  shows "blit (pre @ rest) off src = Some ((pre @ src) @ drop (length src) rest)"
  using assms by (simp add: blit_def)

lemma split_at:
  assumes "off + n \<le> length b"
  obtains p m r where "b = p @ m @ r" "length p = off" "length m = n"
proof
  show "b = take off b @ take n (drop off b) @ drop n (drop off b)"
    by (simp only: append_take_drop_id)
qed (use assms in auto)

lemma slice_append_iff:
  assumes "length x = n" "length y = m"
  shows "slice b off (n + m) = Some (x @ y) \<longleftrightarrow>
    slice b off n = Some x \<and> slice b (off + n) m = Some y"
  using assms by (auto simp: slice_def take_add add.commute [of n off])

lemma blit_blit:
  assumes "length x = n"
  shows "(blit b off x \<bind> (\<lambda>b. blit b (off + n) y)) = blit b off (x @ y)"
  using assms by (auto simp: blit_def bind_eq_Some_conv min_def add.assoc add.commute [of "length y"])

section \<open>C strings\<close>

text \<open>
  A C string is the buffer a pointer points to; its value ends at the first zero byte. Scanning
  past the end of a buffer that holds no zero byte is \<^term>\<open>None\<close>.
\<close>

definition ascii :: "string \<Rightarrow> bytes" where
  "ascii s = map of_char s"

definition cstr :: "string \<Rightarrow> bytes" where
  "cstr s = ascii s @ [0]"

fun strnlen :: "bytes \<Rightarrow> nat \<Rightarrow> nat option" where
  "strnlen b 0 = Some 0"
| "strnlen [] (Suc n) = None"
| "strnlen (x # xs) (Suc n) = (if x = 0 then Some 0 else map_option Suc (strnlen xs n))"

fun strlen :: "bytes \<Rightarrow> nat option" where
  "strlen [] = None"
| "strlen (x # xs) = (if x = 0 then Some 0 else map_option Suc (strlen xs))"

text \<open>The characters of a C string, without its terminator.\<close>

definition str_of :: "bytes \<Rightarrow> bytes" where
  "str_of b = takeWhile (\<lambda>x. x \<noteq> 0) b"

text \<open>\<open>memchr\<close>: the offset of the first \<open>c\<close> among the first \<open>n\<close> bytes.\<close>

fun memchr :: "bytes \<Rightarrow> byte \<Rightarrow> nat \<Rightarrow> nat option" where
  "memchr b c 0 = None"
| "memchr [] c (Suc n) = None"
| "memchr (x # xs) c (Suc n) = (if x = c then Some 0 else map_option Suc (memchr xs c n))"

lemma strnlen_Some_iff:
  "strnlen b n = Some k \<longleftrightarrow>
     k = min n (length (str_of b)) \<and> (n \<le> length b \<or> length (str_of b) < length b)"
  unfolding str_of_def
  by (induction b n arbitrary: k rule: strnlen.induct) (auto split: if_splits)

lemma strlen_Some_iff:
  "strlen b = Some k \<longleftrightarrow> k = length (str_of b) \<and> length (str_of b) < length b"
  unfolding str_of_def by (induction b arbitrary: k rule: strlen.induct) auto

lemma memchr_None_iff: "memchr b c n = None \<longleftrightarrow> c \<notin> set (take n b)"
  by (induction b c n rule: memchr.induct) auto

lemma memchr_Some_iff:
  "memchr b c n = Some k \<longleftrightarrow> k < n \<and> k < length b \<and> b ! k = c \<and> c \<notin> set (take k b)"
proof (induction b c n arbitrary: k rule: memchr.induct)
  case (3 x xs c n)
  then show ?case by (cases k) auto
qed auto

lemma length_str_of_le: "length (str_of b) \<le> length b"
  by (simp add: str_of_def length_takeWhile_le)

lemma str_of_less_iff: "length (str_of b) < length b \<longleftrightarrow> 0 \<in> set b"
  unfolding str_of_def by (induction b) (auto simp: length_takeWhile_le)

lemma str_of_nonzero [simp]: "0 \<notin> set (str_of b)"
  by (auto simp: str_of_def dest: set_takeWhileD)

lemma str_of_id: "0 \<notin> set b \<Longrightarrow> str_of b = b"
  unfolding str_of_def by (subst takeWhile_eq_all_conv) auto

lemma str_of_append_zero [simp]: "0 \<notin> set b \<Longrightarrow> str_of (b @ 0 # r) = b"
  unfolding str_of_def by (subst takeWhile_append2) auto

lemma str_of_take: "take (length (str_of b)) b = str_of b"
  unfolding str_of_def by (metis takeWhile_eq_take)

lemma nth_str_of: "length (str_of b) < length b \<Longrightarrow> b ! length (str_of b) = 0"
  using nth_length_takeWhile [of "\<lambda>x. x \<noteq> 0" b] by (simp add: str_of_def)

text \<open>Equality of two C strings, as \<open>!strcmp(a, b)\<close> decides it.\<close>

fun streq :: "bytes \<Rightarrow> bytes \<Rightarrow> bool option" where
  "streq (x # xs) (y # ys) =
     (if x \<noteq> y then Some False else if x = 0 then Some True else streq xs ys)"
| "streq _ _ = None"

lemma streq_iff:
  "0 \<in> set a \<Longrightarrow> 0 \<in> set b \<Longrightarrow> streq a b = Some (str_of a = str_of b)"
  unfolding str_of_def by (induction a b rule: streq.induct) auto

text \<open>\<open>strchr\<close>: the outer option is the access check, the inner one the search result.\<close>

fun strchr :: "bytes \<Rightarrow> byte \<Rightarrow> nat option option" where
  "strchr [] c = None"
| "strchr (x # xs) c =
     (if x = c then Some (Some 0) else if x = 0 then Some None
      else map_option (map_option Suc) (strchr xs c))"

lemma strchr_outcome:
  "0 \<in> set b \<Longrightarrow> c \<noteq> 0 \<Longrightarrow> \<exists>r. strchr b c = Some r \<and> (r = None \<longleftrightarrow> c \<notin> set (str_of b))"
proof (induction b)
  case (Cons x xs)
  then show ?case by (cases "x = 0") (auto simp: str_of_def)
qed simp

section \<open>Splitting and joining words\<close>

text \<open>\<open>!strncmp(a, b, n)\<close>.\<close>

fun strneq :: "bytes \<Rightarrow> bytes \<Rightarrow> nat \<Rightarrow> bool option" where
  "strneq a b 0 = Some True"
| "strneq (x # xs) (y # ys) (Suc n) =
     (if x \<noteq> y then Some False else if x = 0 then Some True else strneq xs ys n)"
| "strneq a b (Suc n) = None"

text \<open>With \<open>n\<close> the length of the terminated \<open>p\<close>, it tests that the other string starts with \<open>p\<close>.\<close>

lemma strneq_prefix:
  "0 \<in> set a \<Longrightarrow> 0 \<notin> set p \<Longrightarrow>
     strneq a (p @ [0]) (length p) = Some (take (length p) (str_of a) = p)"
proof (induction p arbitrary: a)
  case (Cons y ys)
  then show ?case by (cases a) (auto simp: str_of_def)
qed simp

text \<open>Occurrence of one byte sequence in another, and \<open>strstr(hay, needle) != NULL\<close>.\<close>

fun occurs :: "bytes \<Rightarrow> bytes \<Rightarrow> bool" where
  "occurs p [] = (p = [])"
| "occurs p (x # xs) = (take (length p) (x # xs) = p \<or> occurs p xs)"

definition strstr :: "bytes \<Rightarrow> bytes \<Rightarrow> bool option" where
  "strstr hay needle = do {
     n \<leftarrow> strlen hay; m \<leftarrow> strlen needle;
     Some (occurs (take m needle) (take n hay))
   }"

lemma strstr_total:
  "0 \<in> set hay \<Longrightarrow> 0 \<in> set needle \<Longrightarrow> strstr hay needle = Some (occurs (str_of needle) (str_of hay))"
  using iffD2 [OF strlen_Some_iff [of hay]] iffD2 [OF strlen_Some_iff [of needle]]
  by (simp add: strstr_def str_of_less_iff str_of_take)

lemma bit_byte_ge [simp]: "8 \<le> n \<Longrightarrow> \<not> bit (a::byte) n"
  using bit_imp_le_length [of a n] by auto

lemma join16 [wire_simps]:
  "(ucast (ucast (v::u16) :: byte) OR push_bit 8 (ucast (ucast (drop_bit 8 v) :: byte)) :: u16) = v"
  by (rule bit_word_eqI) (auto simp: bit_simps)

lemma split16 [wire_simps]:
  fixes a b :: byte
  defines "w \<equiv> (ucast a OR push_bit 8 (ucast b) :: u16)"
  shows "ucast w = a" "ucast (drop_bit 8 w) = b"
  unfolding w_def by (rule bit_word_eqI; auto simp: bit_simps)+

lemma join32 [wire_simps]:
  "(ucast (ucast (v::u32) :: byte) OR push_bit 8 (ucast (ucast (drop_bit 8 v) :: byte))
    OR push_bit 16 (ucast (ucast (drop_bit 16 v) :: byte))
    OR push_bit 24 (ucast (ucast (drop_bit 24 v) :: byte)) :: u32) = v"
  (is "?w = v")
proof (rule bit_word_eqI)
  fix n
  assume "n < LENGTH(32)"
  then consider "n < 8" | "8 \<le> n" "n < 16" | "16 \<le> n" "n < 24" | "24 \<le> n" "n < 32"
    by force
  then show "bit ?w n = bit v n"
    by cases (auto simp: bit_simps)
qed

lemma split32 [wire_simps]:
  fixes a b c d :: byte
  defines "w \<equiv> (ucast a OR push_bit 8 (ucast b) OR push_bit 16 (ucast c)
                  OR push_bit 24 (ucast d) :: u32)"
  shows "ucast w = a" "ucast (drop_bit 8 w) = b" "ucast (drop_bit 16 w) = c"
    "ucast (drop_bit 24 w) = d"
  unfolding w_def by (rule bit_word_eqI; auto simp: bit_simps)+

lemma join64 [wire_simps]:
  "(ucast (ucast (v::u64) :: u32) OR push_bit 32 (ucast (ucast (drop_bit 32 v) :: u32)) :: u64) = v"
  by (rule bit_word_eqI) (auto simp: bit_simps)

lemma split64 [wire_simps]:
  fixes a b :: u32
  defines "w \<equiv> (ucast a OR push_bit 32 (ucast b) :: u64)"
  shows "ucast w = a" "ucast (drop_bit 32 w) = b"
  unfolding w_def by (rule bit_word_eqI; auto simp: bit_simps dest: bit_imp_le_length)+

text \<open>Presence masks: testing and setting one bit of a 32-bit word.\<close>

lemma test_exp_bit:
  fixes seen :: u32
  assumes "n < 32"
  shows "seen AND 2 ^ n = 0 \<longleftrightarrow> \<not> bit seen n"
    and "bit (seen OR 2 ^ n) m \<longleftrightarrow> bit seen m \<or> m = n"
  using assms by (auto simp: and_exp_eq_0_iff_not_bit bit_simps)

lemma test_mask_bit:
  fixes seen :: u32
  assumes "n < 32"
  shows "seen AND push_bit n 1 = 0 \<longleftrightarrow> \<not> bit seen n"
    and "bit (seen OR push_bit n 1) m \<longleftrightarrow> bit seen m \<or> m = n"
proof -
  show "seen AND push_bit n 1 = 0 \<longleftrightarrow> \<not> bit seen n"
    by (simp add: push_bit_eq_mult and_exp_eq_0_iff_not_bit)
  show "bit (seen OR push_bit n 1) m \<longleftrightarrow> bit seen m \<or> m = n"
    using assms by (auto simp: bit_simps)
qed

section \<open>The contract of a fixed-width field\<close>

text \<open>
  What a pair of checked accessors for a field of \<open>width\<close> bytes promises: writing stores the
  encoding, reading succeeds exactly on stored encodings, and every run of \<open>width\<close> bytes is the
  encoding of some value. Frame layouts are then reasoned about by concatenation alone.
\<close>

locale field_codec =
  fixes width :: nat
    and enc :: "'v \<Rightarrow> bytes"
    and read :: "bytes \<Rightarrow> nat \<Rightarrow> 'v option"
    and "write" :: "bytes \<Rightarrow> nat \<Rightarrow> 'v \<Rightarrow> bytes option"
  assumes enc_length: "length (enc v) = width"
    and enc_surj: "length b = width \<Longrightarrow> \<exists>v. b = enc v"
    and read_iff: "read b off = Some v \<longleftrightarrow> slice b off width = Some (enc v)"
    and write_blit: "write b off v = blit b off (enc v)"
begin

lemma enc_inj: "enc v = enc w \<longleftrightarrow> v = w"
proof
  assume "enc v = enc w"
  then have "read (enc v) 0 = Some v" and "read (enc v) 0 = Some w"
    by (simp_all add: read_iff slice_def enc_length)
  then show "v = w" by simp
qed simp

lemma read_total: "off + width \<le> length b \<Longrightarrow> \<exists>v. read b off = Some v"
  using enc_surj [of "take width (drop off b)"] by (auto simp: read_iff)

lemma read_at: "length pre = off \<Longrightarrow> read (pre @ enc v @ post) off = Some v"
  by (simp add: read_iff slice_def enc_length)

lemma write_at:
  "length pre = off \<Longrightarrow> width \<le> length rest \<Longrightarrow>
     write (pre @ rest) off v = Some ((pre @ enc v) @ drop width rest)"
  using blit_append [of pre off "enc v" rest] by (simp add: write_blit enc_length)

lemma read_write: "write b off v = Some b' \<Longrightarrow> read b' off = Some v"
  by (auto simp: write_blit blit_def enc_length read_iff slice_def split: if_splits)

end

end
