(* ===== verification/Syscalls.thy ===== *)
theory Syscalls
  imports Prelude
begin

text \<open>
  Programs that call their environment: system calls, property access, reads of flags other
  threads write. The environment is a script of responses, one per call; a run consumes the script
  and logs every call with its response. All finite executions against every environment are the
  runs over all scripts. A run ends with a value, waits for a response the script does not have,
  leaves an object (undefined behaviour of C), or loops without calling the environment. The
  theory also gives the weakest-precondition calculus in which the components are verified.
\<close>

section \<open>Runs\<close>

record ('c, 'r) world =
  script :: "'r list"
  trace :: "('c \<times> 'r) list"

datatype ('c, 'r, 'a) outcome =
    Done 'a "('c, 'r) world"
  | Blocked "('c, 'r) world"
  | Fault "('c, 'r) world"
  | Spin "('c, 'r) world"

type_synonym ('c, 'r, 'a) sys = "('c, 'r) world \<Rightarrow> ('c, 'r, 'a) outcome"

definition ret :: "'a \<Rightarrow> ('c, 'r, 'a) sys" where
  "ret a = Done a"

definition sys :: "'c \<Rightarrow> ('c, 'r, 'r) sys" where
  "sys c w = (case script w of [] \<Rightarrow> Blocked w
     | r # rs \<Rightarrow> Done r (w\<lparr>script := rs, trace := trace w @ [(c, r)]\<rparr>))"

definition bind :: "('c, 'r, 'a) sys \<Rightarrow> ('a \<Rightarrow> ('c, 'r, 'b) sys) \<Rightarrow> ('c, 'r, 'b) sys" where
  "bind m f w = (case m w of Done a w' \<Rightarrow> f a w' | Blocked w' \<Rightarrow> Blocked w'
     | Fault w' \<Rightarrow> Fault w' | Spin w' \<Rightarrow> Spin w')"

text \<open>A computation on memory: leaving an object is a fault.\<close>

definition mem :: "'a option \<Rightarrow> ('c, 'r, 'a) sys" where
  "mem x = (case x of None \<Rightarrow> Fault | Some a \<Rightarrow> Done a)"

text \<open>
  A loop whose body goes on with \<open>Inl\<close> and leaves with \<open>Inr\<close>. An iteration that goes on without
  having called the environment is \<^const>\<open>Spin\<close>; otherwise the rest of the script gets shorter.
\<close>

function loop :: "('s \<Rightarrow> ('c, 'r, 's + 'a) sys) \<Rightarrow> 's \<Rightarrow> ('c, 'r, 'a) sys" where
  "loop body s w = (case body s w of
      Done x w' \<Rightarrow>
        (case x of Inr a \<Rightarrow> Done a w'
         | Inl s' \<Rightarrow> if length (script w') < length (script w) then loop body s' w' else Spin w')
    | Blocked w' \<Rightarrow> Blocked w' | Fault w' \<Rightarrow> Fault w' | Spin w' \<Rightarrow> Spin w')"
  by pat_completeness auto
termination
  by (relation "measure (\<lambda>(body, s, w). length (script w))") auto

declare loop.simps [simp del]

text \<open>The world a run ends in.\<close>

fun final :: "('c, 'r, 'a) outcome \<Rightarrow> ('c, 'r) world" where
  "final (Done a w) = w"
| "final (Blocked w) = w"
| "final (Fault w) = w"
| "final (Spin w) = w"

definition world0 :: "'r list \<Rightarrow> ('c, 'r) world" where
  "world0 rs = \<lparr>script = rs, trace = []\<rparr>"

section \<open>Weakest preconditions\<close>

text \<open>
  \<open>wp m Q B w\<close>: the run of \<open>m\<close> from \<open>w\<close> neither faults nor spins, ends with a value satisfying
  \<open>Q\<close> if it ends, and satisfies \<open>B\<close> where it waits.
\<close>

definition wp :: "('c, 'r, 'a) sys \<Rightarrow> ('a \<Rightarrow> ('c, 'r) world \<Rightarrow> bool) \<Rightarrow> (('c, 'r) world \<Rightarrow> bool)
    \<Rightarrow> ('c, 'r) world \<Rightarrow> bool" where
  "wp m Q B w = (case m w of Done a w' \<Rightarrow> Q a w' | Blocked w' \<Rightarrow> B w' | Fault w' \<Rightarrow> False | Spin w' \<Rightarrow> False)"

named_theorems wp_simps

lemma wp_ret [wp_simps]: "wp (ret a) Q B w = Q a w"
  by (simp add: wp_def ret_def)

lemma wp_sys [wp_simps]:
  "wp (sys c) Q B w = (case script w of [] \<Rightarrow> B w
     | r # rs \<Rightarrow> Q r (w\<lparr>script := rs, trace := trace w @ [(c, r)]\<rparr>))"
  by (simp add: wp_def sys_def split: list.split)

lemma wp_bind [wp_simps]: "wp (bind m f) Q B w = wp m (\<lambda>a. wp (f a) Q B) B w"
  by (simp add: wp_def bind_def split: outcome.split)

lemma wp_mem [wp_simps]: "wp (mem x) Q B w = (\<exists>a. x = Some a \<and> Q a w)"
  by (simp add: wp_def mem_def split: option.split)

lemma wp_mono:
  "wp m Q B w \<Longrightarrow> (\<And>a w'. Q a w' \<Longrightarrow> Q' a w') \<Longrightarrow> (\<And>w'. B w' \<Longrightarrow> B' w') \<Longrightarrow> wp m Q' B' w"
  by (auto simp: wp_def split: outcome.splits)

lemma wp_conj:
  "wp m Q B w \<Longrightarrow> wp m Q' B' w \<Longrightarrow> wp m (\<lambda>a w. Q a w \<and> Q' a w) (\<lambda>w. B w \<and> B' w) w"
  by (auto simp: wp_def split: outcome.splits)

lemma wp_loop_step:
  "wp (loop body s) Q B w = wp (body s) (\<lambda>x w'. case x of Inr a \<Rightarrow> Q a w'
     | Inl s' \<Rightarrow> length (script w') < length (script w) \<and> wp (loop body s') Q B w') B w"
  unfolding wp_def
  by (cases "body s w") (auto simp: loop.simps [of body s w] split: sum.split)

lemma wp_loop:
  assumes "I s w"
    and "\<And>s w. I s w \<Longrightarrow> wp (body s) (\<lambda>x w'. case x of Inr a \<Rightarrow> Q a w'
            | Inl s' \<Rightarrow> I s' w' \<and> length (script w') < length (script w)) B w"
  shows "wp (loop body s) Q B w"
  using assms(1)
proof (induction "length (script w)" arbitrary: s w rule: less_induct)
  case less
  show ?case
    unfolding wp_loop_step [of body s]
    by (rule wp_mono [OF assms(2) [OF less.prems]]) (auto split: sum.splits intro: less.hyps)
qed

lemma wp_DoneD: "wp m Q B w \<Longrightarrow> m w = Done a w' \<Longrightarrow> Q a w'"
  by (simp add: wp_def)

lemma wp_not_stuck: "wp m Q B w \<Longrightarrow> m w \<noteq> Fault w' \<and> m w \<noteq> Spin w'"
  by (auto simp: wp_def)

section \<open>Evaluating a run on a known script\<close>

lemma bind_Done: "m w = Done a w' \<Longrightarrow> bind m f w = f a w'"
  by (simp add: bind_def)

lemma bind_mem [simp]: "bind (mem (Some a)) f = f a"
  by (simp add: bind_def mem_def fun_eq_iff)

lemma bind_ret [simp]: "bind (ret a) f = f a"
  by (simp add: bind_def ret_def fun_eq_iff)

lemma bind_assoc: "bind (bind m f) g = bind m (\<lambda>a. bind (f a) g)"
  by (simp add: bind_def fun_eq_iff split: outcome.split)

lemma sys_Cons: "sys c \<lparr>script = r # rs, trace = t\<rparr> = Done r \<lparr>script = rs, trace = t @ [(c, r)]\<rparr>"
  by (simp add: sys_def)

lemma loop_again:
  "body s w = Done (Inl s') w' \<Longrightarrow> length (script w') < length (script w) \<Longrightarrow> loop body s w = loop body s' w'"
  by (subst loop.simps) simp

lemma loop_exit: "body s w = Done (Inr a) w' \<Longrightarrow> loop body s w = Done a w'"
  by (subst loop.simps) simp


section \<open>Which calls a program makes\<close>

text \<open>
  Between \<open>w\<close> and \<open>w'\<close> the calls \<open>t\<close> were made: they are appended to the log, and their responses
  are what the script lost.
\<close>

definition made :: "('c, 'r) world \<Rightarrow> ('c \<times> 'r) list \<Rightarrow> ('c, 'r) world \<Rightarrow> bool" where
  "made w t w' \<longleftrightarrow> trace w' = trace w @ t \<and> script w = map snd t @ script w'"

lemma made_refl [simp]: "made w [] w"
  by (simp add: made_def)

lemma made_trans: "made w t w' \<Longrightarrow> made w' u w'' \<Longrightarrow> made w (t @ u) w''"
  by (simp add: made_def)

text \<open>However a run of \<open>m\<close> ends, it has made only calls that satisfy \<open>P\<close>.\<close>

definition calls :: "('c \<Rightarrow> bool) \<Rightarrow> ('c, 'r, 'a) sys \<Rightarrow> bool" where
  "calls P m \<longleftrightarrow> (\<forall>w. \<exists>t. made w t (final (m w)) \<and> (\<forall>e\<in>set t. P (fst e)))"

named_theorems calls_intros

lemma calls_ret [calls_intros]: "calls P (ret a)"
  unfolding calls_def ret_def by (intro allI exI [of _ "[]"]) simp

lemma calls_mem [calls_intros]: "calls P (mem x)"
  unfolding calls_def mem_def by (intro allI exI [of _ "[]"]) (simp split: option.split)

lemma calls_sys [calls_intros]:
  assumes "P c"
  shows "calls P (sys c)"
  unfolding calls_def
proof
  fix w
  show "\<exists>t. made w t (final (sys c w)) \<and> (\<forall>e\<in>set t. P (fst e))"
  proof (cases "script w")
    case Nil
    then show ?thesis by (intro exI [of _ "[]"]) (simp add: sys_def)
  next
    case (Cons r rs)
    then show ?thesis using assms by (intro exI [of _ "[(c, r)]"]) (simp add: sys_def made_def)
  qed
qed

lemma calls_bind [calls_intros]:
  assumes "calls P m" "\<And>a. calls P (f a)"
  shows "calls P (bind m f)"
  unfolding calls_def
proof
  fix w
  obtain t where t: "made w t (final (m w))" "\<forall>e\<in>set t. P (fst e)"
    using assms(1) by (auto simp: calls_def)
  show "\<exists>t. made w t (final (bind m f w)) \<and> (\<forall>e\<in>set t. P (fst e))"
  proof (cases "m w")
    case (Done a w')
    obtain u where "made w' u (final (f a w'))" "\<forall>e\<in>set u. P (fst e)"
      using assms(2) [of a] by (auto simp: calls_def)
    then show ?thesis using Done t made_trans [of w t w' u]
      by (intro exI [of _ "t @ u"]) (auto simp: bind_def)
  qed (use t in \<open>auto simp: bind_def\<close>)
qed

lemma calls_if [calls_intros]: "calls P m \<Longrightarrow> calls P n \<Longrightarrow> calls P (if b then m else n)"
  by simp

lemma calls_prod [calls_intros]: "(\<And>a b. calls P (f a b)) \<Longrightarrow> calls P (case x of (a, b) \<Rightarrow> f a b)"
  by (cases x) simp

lemma calls_option [calls_intros]:
  "calls P m \<Longrightarrow> (\<And>a. calls P (f a)) \<Longrightarrow> calls P (case x of None \<Rightarrow> m | Some a \<Rightarrow> f a)"
  by (cases x) simp_all

lemma calls_sum [calls_intros]:
  "(\<And>a. calls P (f a)) \<Longrightarrow> (\<And>a. calls P (g a)) \<Longrightarrow> calls P (case x of Inl a \<Rightarrow> f a | Inr a \<Rightarrow> g a)"
  by (cases x) simp_all

lemma calls_loop [calls_intros]:
  assumes "\<And>s. calls P (body s)"
  shows "calls P (loop body s)"
  unfolding calls_def
proof
  fix w
  show "\<exists>t. made w t (final (loop body s w)) \<and> (\<forall>e\<in>set t. P (fst e))"
  proof (induction "length (script w)" arbitrary: s w rule: less_induct)
    case less
    obtain t where t: "made w t (final (body s w))" "\<forall>e\<in>set t. P (fst e)"
      using assms [of s] by (auto simp: calls_def)
    show ?case
    proof (cases "\<exists>s' w'. body s w = Done (Inl s') w' \<and> length (script w') < length (script w)")
      case True
      then obtain s' w' where b: "body s w = Done (Inl s') w'" "length (script w') < length (script w)"
        by blast
      obtain u where "made w' u (final (loop body s' w'))" "\<forall>e\<in>set u. P (fst e)"
        using less [OF b(2)] by blast
      then show ?thesis using b t loop_again [of body s w s' w'] made_trans [of w t w' u]
        by (intro exI [of _ "t @ u"]) auto
    next
      case False
      then have "final (loop body s w) = final (body s w)"
        by (subst loop.simps) (auto split: outcome.split sum.split)
      then show ?thesis using t by auto
    qed
  qed
qed

lemma calls_mono: "calls P m \<Longrightarrow> (\<And>c. P c \<Longrightarrow> Q c) \<Longrightarrow> calls Q m"
  unfolding calls_def by meson

lemma calls_made: "calls P m \<Longrightarrow> \<exists>t. made w t (final (m w)) \<and> (\<forall>e\<in>set t. P (fst e))"
  by (simp add: calls_def)

lemma calls_trace:
  "calls P m \<Longrightarrow> \<exists>t. trace (final (m w)) = trace w @ t \<and> (\<forall>e\<in>set t. P (fst e))"
  unfolding calls_def made_def by blast

text \<open>What a program ends with, together with the calls it made.\<close>

lemma wp_calls:
  "wp m Q B w \<Longrightarrow> calls P m \<Longrightarrow> wp m (\<lambda>a w'. Q a w' \<and> (\<exists>t. made w t w' \<and> (\<forall>e\<in>set t. P (fst e)))) B w"
  using calls_made [of P m w] by (auto simp: wp_def split: outcome.splits)

end
