(* ===== verification/Posix.thy ===== *)
theory Posix
  imports Syscalls "HOL-Library.Multiset"
begin

text \<open>
  The system calls of the native services and the values they return. A response carries the
  result, the error number of a failed call and the bytes or attributes a call delivers; a call
  reads the fields its documentation defines.
\<close>

section \<open>Calls and responses\<close>

text \<open>An ioctl request: direction, type and number of the \<open>_IOC\<close> macros.\<close>

datatype request = IOW nat nat | IOR nat nat | IOWR nat nat

datatype argument = Scalar int | Buffer bytes

datatype call =
    Opendir bytes | Readdir int | Closedir int
  | Openat int bytes | Open bytes | Fstat int | Close int
  | Read int nat | Write int bytes | Lseek int
  | Malloc nat | Free nat
  | Ioctl int request argument
  | Poll int int
  | Usleep int
  | Property_get string | Property_set string bytes
  | Load string | Store string int
  | Thread_create string | Thread_join string
  | Sigaction string
  | Getopt | Extra_arguments

record response =
  res :: int
  err :: int
  dat :: bytes
  regular :: bool
  fsize :: int
  revents :: int

type_synonym pworld = "(call, response) world"
type_synonym 'a posix = "(call, response, 'a) sys"

text \<open>\<open>errno\<close> of a failed call is positive and at most \<open>MAX_ERRNO\<close>.\<close>

definition errno_ok :: "pworld \<Rightarrow> bool" where
  "errno_ok w \<longleftrightarrow> (\<forall>r\<in>set (script w). 0 < err r \<and> err r \<le> 4095)"

text \<open>The bytes a \<open>read\<close> of at most \<open>n\<close> bytes delivers.\<close>

definition delivered :: "response \<Rightarrow> nat \<Rightarrow> bytes" where
  "delivered r n = take n (dat r)"

text \<open>\<open>property_get\<close> with an empty default: a terminated value of at most 91 characters.\<close>

definition PROPERTY_VALUE_MAX :: nat where "PROPERTY_VALUE_MAX = 92"

definition property_get :: "string \<Rightarrow> bytes posix" where
  "property_get key = bind (sys (Property_get key)) (\<lambda>r.
     ret (take (PROPERTY_VALUE_MAX - 1) (str_of (dat r))))"

text \<open>A flag that a signal handler or another thread writes.\<close>

definition load_flag :: "string \<Rightarrow> bool posix" where
  "load_flag name = bind (sys (Load name)) (\<lambda>r. ret (res r \<noteq> 0))"

section \<open>Resources\<close>

text \<open>What a call acquires and releases: descriptors, directory streams, heap blocks.\<close>

datatype handle = FD int | DIR int | HEAP nat

fun acquires :: "call \<times> response \<Rightarrow> handle multiset" where
  "acquires (Openat d n, r) = (if res r < 0 then {#} else {#FD (res r)#})"
| "acquires (Open n, r) = (if res r < 0 then {#} else {#FD (res r)#})"
| "acquires (Opendir n, r) = (if res r < 0 then {#} else {#DIR (res r)#})"
| "acquires (Malloc n, r) = (if res r < 0 then {#} else {#HEAP n#})"
| "acquires (c, r) = {#}"

fun releases :: "call \<times> response \<Rightarrow> handle multiset" where
  "releases (Close fd, r) = {#FD fd#}"
| "releases (Closedir d, r) = {#DIR d#}"
| "releases (Free n, r) = {#HEAP n#}"
| "releases (c, r) = {#}"

definition acquired :: "(call \<times> response) list \<Rightarrow> handle multiset" where
  "acquired t = \<Sum>\<^sub># (mset (map acquires t))"

definition released :: "(call \<times> response) list \<Rightarrow> handle multiset" where
  "released t = \<Sum>\<^sub># (mset (map releases t))"

text \<open>The log \<open>t\<close> leaves exactly the handles \<open>M\<close> held.\<close>

definition holding :: "(call \<times> response) list \<Rightarrow> handle multiset \<Rightarrow> bool" where
  "holding t M \<longleftrightarrow> acquired t = released t + M"

lemma holding_snoc:
  "holding t M \<Longrightarrow> M + acquires e = releases e + M' \<Longrightarrow> holding (t @ [e]) M'"
  by (simp add: holding_def acquired_def released_def) (metis add.commute)

lemma holding_Nil [simp]: "holding [] {#}"
  by (simp add: holding_def acquired_def released_def)


section \<open>Runs that give back what they take\<close>

text \<open>
  From \<open>w\<close> to \<open>w'\<close> the script only got shorter, and every handle acquired in between was
  released.
\<close>

definition frame :: "pworld \<Rightarrow> pworld \<Rightarrow> bool" where
  "frame w w' \<longleftrightarrow> set (script w') \<subseteq> set (script w) \<and> length (script w') \<le> length (script w)
     \<and> (\<forall>M. holding (trace w) M \<longrightarrow> holding (trace w') M)"

lemma frame_refl [simp]: "frame w w"
  by (simp add: frame_def)

lemma frame_trans: "frame w w' \<Longrightarrow> frame w' w'' \<Longrightarrow> frame w w''"
  by (fastforce simp: frame_def)

lemma frame_errno_ok: "frame w w' \<Longrightarrow> errno_ok w \<Longrightarrow> errno_ok w'"
  by (auto simp: frame_def errno_ok_def)

text \<open>Calls that neither acquire nor release leave what is held unchanged.\<close>

definition neutral :: "call \<Rightarrow> bool" where
  "neutral c \<longleftrightarrow> (\<forall>r. acquires (c, r) = {#} \<and> releases (c, r) = {#})"

lemma made_frame:
  assumes "made w t w'" "\<forall>e\<in>set t. neutral (fst e)"
  shows "frame w w'"
proof -
  have "acquires e = {#} \<and> releases e = {#}" if "e \<in> set t" for e
    using assms(2) that by (cases e) (auto simp: neutral_def)
  then have "acquired t = {#}" "released t = {#}"
    by (auto simp: acquired_def released_def)
  moreover have "acquired (a @ b) = acquired a + acquired b" "released (a @ b) = released a + released b" for a b
    by (simp_all add: acquired_def released_def)
  ultimately show ?thesis using assms(1) by (auto simp: made_def frame_def holding_def)
qed

text \<open>The world after a call: it answers with the head of the script.\<close>

definition after :: "pworld \<Rightarrow> call \<Rightarrow> response \<Rightarrow> pworld \<Rightarrow> bool" where
  "after w c r w' \<longleftrightarrow> script w = r # script w' \<and> trace w' = trace w @ [(c, r)]"

lemma wp_call: "(\<And>r w'. after w c r w' \<Longrightarrow> Q r w') \<Longrightarrow> wp (sys c) Q (\<lambda>_. True) w"
  by (auto simp: wp_sys after_def split: list.split)

lemma after_err: "after w c r w' \<Longrightarrow> errno_ok w \<Longrightarrow> 0 < err r \<and> err r \<le> 4095"
  by (simp add: after_def errno_ok_def)

lemma after_errno_ok: "after w c r w' \<Longrightarrow> errno_ok w \<Longrightarrow> errno_ok w'"
  by (simp add: after_def errno_ok_def)

lemma after_length: "after w c r w' \<Longrightarrow> length (script w') < length (script w)"
  by (simp add: after_def)

lemma after_holding:
  "after w c r w' \<Longrightarrow> holding (trace w) M \<Longrightarrow> M + acquires (c, r) = releases (c, r) + M'
     \<Longrightarrow> holding (trace w') M'"
  by (simp add: after_def holding_snoc)

lemma after_frame: "after w c r w' \<Longrightarrow> acquires (c, r) = {#} \<Longrightarrow> releases (c, r) = {#} \<Longrightarrow> frame w w'"
  by (auto simp: frame_def after_def holding_snoc)

lemma after_pair_frame:
  assumes "after w c r w1" "frame w1 w2" "after w2 c' r' w3"
    and "acquires (c, r) = releases (c', r')" "releases (c, r) = {#}" "acquires (c', r') = {#}"
  shows "frame w w3"
proof -
  have "holding (trace w3) M" if "holding (trace w) M" for M
  proof -
    have "holding (trace w1) (M + acquires (c, r))"
      using after_holding [OF assms(1) that] assms(5) by simp
    then have "holding (trace w2) (M + acquires (c, r))" using assms(2) by (simp add: frame_def)
    then show ?thesis using after_holding [OF assms(3)] assms(4,6) by (simp add: add.commute)
  qed
  then show ?thesis using assms(1-3) by (auto simp: frame_def after_def)
qed

lemma wp_bindI:
  "wp m Q' (\<lambda>_. True) w \<Longrightarrow> (\<And>a w'. Q' a w' \<Longrightarrow> wp (f a) Q (\<lambda>_. True) w')
     \<Longrightarrow> wp (bind m f) Q (\<lambda>_. True) w"
  unfolding wp_bind by (erule wp_mono) auto

lemma wp_call_bind:
  "(\<And>r w'. after w c r w' \<Longrightarrow> wp (f r) Q (\<lambda>_. True) w') \<Longrightarrow> wp (bind (sys c) f) Q (\<lambda>_. True) w"
  unfolding wp_bind by (rule wp_call)

text \<open>A call with all that is known after it.\<close>

lemma wp_call_ok:
  assumes "errno_ok w"
    and "\<And>r w'. after w c r w' \<Longrightarrow> errno_ok w' \<Longrightarrow> 0 < err r \<and> err r \<le> 4095 \<Longrightarrow> length (script w') < length (script w)
      \<Longrightarrow> (acquires (c, r) = {#} \<and> releases (c, r) = {#} \<longrightarrow> frame w w') \<Longrightarrow> wp (f r) Q (\<lambda>_. True) w'"
  shows "wp (bind (sys c) f) Q (\<lambda>_. True) w"
  using assms(1) by (intro wp_call_bind assms(2))
    (auto intro: after_errno_ok after_length after_frame dest: after_err)

text \<open>A call with a condition \<open>B\<close> on every world in which the program may be left waiting.\<close>

lemma wp_call_B:
  "B w \<Longrightarrow> (\<And>r w'. after w c r w' \<Longrightarrow> wp (f r) Q B w') \<Longrightarrow> wp (bind (sys c) f) Q B w"
  by (auto simp: wp_simps after_def split: list.split)

lemma wp_bind_B:
  "wp m Q' B w \<Longrightarrow> (\<And>a w'. Q' a w' \<Longrightarrow> wp (f a) Q B w') \<Longrightarrow> wp (bind m f) Q B w"
  unfolding wp_bind by (erule wp_mono) auto

text \<open>A call that returns because the script has a response for it.\<close>

lemma wp_call_more:
  "0 < length (script w) \<Longrightarrow>
   (\<And>r w'. after w c r w' \<Longrightarrow> length (script w) = Suc (length (script w')) \<Longrightarrow> wp (f r) Q B w')
     \<Longrightarrow> wp (bind (sys c) f) Q B w"
  by (auto simp: wp_simps after_def split: list.split)

end
