(* ===== verification/Wmt_Protocol.thy ===== *)
theory Wmt_Protocol
  imports Prelude
begin

text \<open>
  The WMT command framing of \<open>wmt-launcher/protocol.c\<close> and the wire constants of
  \<open>include/linux/mtk_wmt_cmd.h\<close>: decoding one command frame, encoding status replies and the
  patch and ROM metadata lists. Frames, command texts and record names are byte buffers with
  checked access; a NULL pointer argument is \<^term>\<open>None\<close>.
\<close>

section \<open>Constants and data\<close>

definition WMT_CMD2_MAGIC :: u32 where "WMT_CMD2_MAGIC = 0x32544d57"
definition WMT_CMD2_VERSION :: u16 where "WMT_CMD2_VERSION = 2"
definition WMT_CMD2_COMMAND_MAX :: nat where "WMT_CMD2_COMMAND_MAX = 255"
definition WMT_CMD2_PATCH_MAX :: nat where "WMT_CMD2_PATCH_MAX = 10"
definition WMT_CMD2_ROM_MAX :: nat where "WMT_CMD2_ROM_MAX = 5"
definition WMT_CMD2_FRAME_HEADER_SIZE :: nat where "WMT_CMD2_FRAME_HEADER_SIZE = 32"
definition WMT_CMD2_RECORD_SIZE :: nat where "WMT_CMD2_RECORD_SIZE = 264"
definition WMT_CMD2_READ_MAX :: nat where
  "WMT_CMD2_READ_MAX = 32 + WMT_CMD2_COMMAND_MAX"
definition WMT_CMD2_WRITE_MAX :: nat where
  "WMT_CMD2_WRITE_MAX = 32 + 8 + WMT_CMD2_PATCH_MAX * WMT_CMD2_RECORD_SIZE"

definition WMT_CMD2_COMMAND :: u32 where "WMT_CMD2_COMMAND = 1"
definition WMT_CMD2_STATUS :: u32 where "WMT_CMD2_STATUS = 2"
definition WMT_CMD2_PATCH_LIST :: u32 where "WMT_CMD2_PATCH_LIST = 3"
definition WMT_CMD2_ROM_LIST :: u32 where "WMT_CMD2_ROM_LIST = 4"

lemmas wmt_const_defs =
  WMT_CMD2_MAGIC_def WMT_CMD2_VERSION_def WMT_CMD2_COMMAND_MAX_def WMT_CMD2_PATCH_MAX_def
  WMT_CMD2_ROM_MAX_def WMT_CMD2_FRAME_HEADER_SIZE_def WMT_CMD2_RECORD_SIZE_def
  WMT_CMD2_READ_MAX_def WMT_CMD2_WRITE_MAX_def WMT_CMD2_COMMAND_def WMT_CMD2_STATUS_def
  WMT_CMD2_PATCH_LIST_def WMT_CMD2_ROM_LIST_def

record wmt_command =
  cmd_session :: u64
  cmd_transaction :: u64
  cmd_text :: bytes

record wmt_cmd2_record =
  rec_index :: u32
  rec_address :: bytes
  rec_name :: bytes

text \<open>The array sizes the C declarations fix.\<close>

definition wf_command :: "wmt_command \<Rightarrow> bool" where
  "wf_command c \<longleftrightarrow> length (cmd_text c) = WMT_CMD2_COMMAND_MAX + 1"

definition wf_record :: "wmt_cmd2_record \<Rightarrow> bool" where
  "wf_record r \<longleftrightarrow> length (rec_address r) = 4 \<and> length (rec_name r) = 256"

section \<open>Little-endian fields\<close>

definition read16 :: "bytes \<Rightarrow> nat \<Rightarrow> u16 option" where
  "read16 d off = do {
     a \<leftarrow> rd d off; b \<leftarrow> rd d (off + 1);
     Some (ucast a OR push_bit 8 (ucast b))
   }"

definition read32 :: "bytes \<Rightarrow> nat \<Rightarrow> u32 option" where
  "read32 d off = do {
     a \<leftarrow> rd d off; b \<leftarrow> rd d (off + 1); c \<leftarrow> rd d (off + 2); e \<leftarrow> rd d (off + 3);
     Some (ucast a OR push_bit 8 (ucast b) OR push_bit 16 (ucast c) OR push_bit 24 (ucast e))
   }"

definition read64 :: "bytes \<Rightarrow> nat \<Rightarrow> u64 option" where
  "read64 d off = do {
     lo \<leftarrow> read32 d off; hi \<leftarrow> read32 d (off + 4);
     Some (ucast lo OR push_bit 32 (ucast hi))
   }"

definition write16 :: "bytes \<Rightarrow> nat \<Rightarrow> u16 \<Rightarrow> bytes option" where
  "write16 d off v = do {
     d \<leftarrow> wr d off (ucast v);
     wr d (off + 1) (ucast (drop_bit 8 v))
   }"

text \<open>The loop of \<open>write32\<close>, for \<open>i\<close> from 0 to 3.\<close>

definition write32 :: "bytes \<Rightarrow> nat \<Rightarrow> u32 \<Rightarrow> bytes option" where
  "write32 d off v =
     fold (\<lambda>i s. s \<bind> (\<lambda>d. wr d (off + i) (ucast (drop_bit (8 * i) v)))) [0, 1, 2, 3] (Some d)"

definition write64 :: "bytes \<Rightarrow> nat \<Rightarrow> u64 \<Rightarrow> bytes option" where
  "write64 d off v = do {
     d \<leftarrow> write32 d off (ucast v);
     write32 d (off + 4) (ucast (drop_bit 32 v))
   }"

text \<open>The reference encodings: the bytes of a value, least significant first.\<close>

definition le16 :: "u16 \<Rightarrow> bytes" where
  "le16 v = [ucast v, ucast (drop_bit 8 v)]"

definition le32 :: "u32 \<Rightarrow> bytes" where
  "le32 v = [ucast v, ucast (drop_bit 8 v), ucast (drop_bit 16 v), ucast (drop_bit 24 v)]"

definition le64 :: "u64 \<Rightarrow> bytes" where
  "le64 v = le32 (ucast v) @ le32 (ucast (drop_bit 32 v))"

section \<open>Frames\<close>

text \<open>
  \<open>wmt_command_decode\<close>: the first component is the C result, the second the contents of
  \<open>*output\<close> afterwards.
\<close>

definition wmt_command_decode ::
  "bytes option \<Rightarrow> nat \<Rightarrow> u64 \<Rightarrow> wmt_command option \<Rightarrow> (int \<times> wmt_command option) option" where
  "wmt_command_decode frame sz session output =
     (case frame of None \<Rightarrow> Some (- EINVAL, output)
      | Some f \<Rightarrow>
        if session = 0 \<or> output = None then Some (- EINVAL, output)
        else if sz < WMT_CMD2_FRAME_HEADER_SIZE then Some (- EMSGSIZE, output)
        else do {
          magic \<leftarrow> read32 f 0;
          version \<leftarrow> read16 f 4;
          if magic \<noteq> WMT_CMD2_MAGIC \<or> version \<noteq> WMT_CMD2_VERSION
          then Some (- EPROTONOSUPPORT, output)
          else do {
            kind \<leftarrow> read16 f 6;
            result \<leftarrow> read32 f 28;
            if ucast kind \<noteq> WMT_CMD2_COMMAND \<or> result \<noteq> 0 then Some (- EPROTO, output)
            else do {
              sess \<leftarrow> read64 f 8;
              trans \<leftarrow> read64 f 16;
              if sess \<noteq> session then Some (- ESTALE, output)
              else if trans = 0 then Some (- EPROTO, output)
              else do {
                len \<leftarrow> read32 f 24;
                if len = 0 \<or> unat len > WMT_CMD2_COMMAND_MAX
                   \<or> sz \<noteq> WMT_CMD2_FRAME_HEADER_SIZE + unat len
                then Some (- EMSGSIZE, output)
                else do {
                  payload \<leftarrow> slice f WMT_CMD2_FRAME_HEADER_SIZE (unat len);
                  if memchr payload 0 (unat len) \<noteq> None then Some (- EPROTO, output)
                  else do {
                    buf \<leftarrow> blit (replicate (WMT_CMD2_COMMAND_MAX + 1) 0) 0 payload;
                    Some (0, Some \<lparr>cmd_session = sess, cmd_transaction = trans, cmd_text = buf\<rparr>)
                  }
                }
              }
            }
          }
        })"

definition reply_header :: "wmt_command \<Rightarrow> u32 \<Rightarrow> u32 \<Rightarrow> int \<Rightarrow> bytes \<Rightarrow> bytes option" where
  "reply_header command kind len result frame = do {
     frame \<leftarrow> write32 frame 0 WMT_CMD2_MAGIC;
     frame \<leftarrow> write16 frame 4 WMT_CMD2_VERSION;
     frame \<leftarrow> write16 frame 6 (ucast kind);
     frame \<leftarrow> write64 frame 8 (cmd_session command);
     frame \<leftarrow> write64 frame 16 (cmd_transaction command);
     frame \<leftarrow> write32 frame 24 len;
     write32 frame 28 (word_of_int result)
   }"

definition wmt_reply_status ::
  "wmt_command option \<Rightarrow> int \<Rightarrow> bytes option \<Rightarrow> nat \<Rightarrow> (int \<times> bytes option) option" where
  "wmt_reply_status command result frame capacity =
     (case (command, frame) of
        (Some c, Some f) \<Rightarrow>
          if cmd_session c = 0 \<or> cmd_transaction c = 0 \<or> result > 0 \<or> result < -4095
          then Some (- EINVAL, frame)
          else if capacity < WMT_CMD2_FRAME_HEADER_SIZE then Some (- EMSGSIZE, frame)
          else do {
            f \<leftarrow> reply_header c WMT_CMD2_STATUS 0 result f;
            Some (int WMT_CMD2_FRAME_HEADER_SIZE, Some f)
          }
      | _ \<Rightarrow> Some (- EINVAL, frame))"

text \<open>The validation loop of \<open>wmt_reply_list\<close>; 0 when every record from \<open>i\<close> on is accepted.\<close>

function reply_list_check ::
  "u32 \<Rightarrow> wmt_cmd2_record list \<Rightarrow> nat \<Rightarrow> nat \<Rightarrow> u32 \<Rightarrow> int option" where
  "reply_list_check kind records count i seen =
     (if i < count then do {
        r \<leftarrow> rd records i;
        n \<leftarrow> strnlen (rec_name r) 256;
        let index = rec_index r;
        if kind = WMT_CMD2_PATCH_LIST \<and> (index = 0 \<or> unat index > count) then Some (- EINVAL)
        else if kind \<noteq> WMT_CMD2_PATCH_LIST \<and> unat index \<ge> WMT_CMD2_ROM_MAX then Some (- EINVAL)
        else do {
          let index = (if kind = WMT_CMD2_PATCH_LIST then index - 1 else index);
          let b = push_bit (unat index) (1::u32);
          if seen AND b \<noteq> 0 then Some (- EEXIST)
          else if n = 0 \<or> n = 256 \<or> memchr (rec_name r) (of_char CHR ''/'') n \<noteq> None
          then Some (- EINVAL)
          else do {
            dot \<leftarrow> streq (rec_name r) (cstr ''.'');
            dotdot \<leftarrow> streq (rec_name r) (cstr ''..'');
            if dot \<or> dotdot then Some (- EINVAL)
            else reply_list_check kind records count (Suc i) (seen OR b)
          }
        }
      } else Some 0)"
  by pat_completeness auto
termination
  by (relation "measure (\<lambda>(kind, records, count, i, seen). count - i)") auto

declare reply_list_check.simps [simp del]

text \<open>The body of the output loop, and the loop.\<close>

definition reply_list_record :: "bytes \<Rightarrow> nat \<Rightarrow> wmt_cmd2_record \<Rightarrow> bytes option" where
  "reply_list_record frame off r = do {
     frame \<leftarrow> write32 frame off (rec_index r);
     address \<leftarrow> slice (rec_address r) 0 4;
     frame \<leftarrow> blit frame (off + 4) address;
     frame \<leftarrow> blit frame (off + 8) (replicate 256 0);
     n \<leftarrow> strlen (rec_name r);
     name \<leftarrow> slice (rec_name r) 0 n;
     blit frame (off + 8) name
   }"

function reply_list_emit ::
  "wmt_cmd2_record list \<Rightarrow> nat \<Rightarrow> nat \<Rightarrow> bytes \<Rightarrow> bytes option" where
  "reply_list_emit records count i frame =
     (if i < count then do {
        r \<leftarrow> rd records i;
        frame \<leftarrow> reply_list_record frame (40 + i * WMT_CMD2_RECORD_SIZE) r;
        reply_list_emit records count (Suc i) frame
      } else Some frame)"
  by pat_completeness auto
termination
  by (relation "measure (\<lambda>(records, count, i, frame). count - i)") auto

declare reply_list_emit.simps [simp del]

definition wmt_reply_list ::
  "wmt_command option \<Rightarrow> u32 \<Rightarrow> wmt_cmd2_record list option \<Rightarrow> nat \<Rightarrow> bytes option \<Rightarrow> nat
     \<Rightarrow> (int \<times> bytes option) option" where
  "wmt_reply_list command kind records count frame capacity =
     (case (command, frame) of
        (Some c, Some f) \<Rightarrow>
          if cmd_session c = 0 \<or> cmd_transaction c = 0 \<or> (count \<noteq> 0 \<and> records = None)
          then Some (- EINVAL, frame)
          else if kind = WMT_CMD2_PATCH_LIST \<and> count = 0 then Some (- EINVAL, frame)
          else if kind \<noteq> WMT_CMD2_PATCH_LIST \<and> kind \<noteq> WMT_CMD2_ROM_LIST
          then Some (- EINVAL, frame)
          else do {
            let maximum = (if kind = WMT_CMD2_PATCH_LIST then WMT_CMD2_PATCH_MAX
                           else WMT_CMD2_ROM_MAX);
            let len = 8 + count * WMT_CMD2_RECORD_SIZE;
            let recs = (case records of None \<Rightarrow> [] | Some rs \<Rightarrow> rs);
            if count > maximum then Some (- E2BIG, frame)
            else if capacity < WMT_CMD2_FRAME_HEADER_SIZE + len then Some (- EMSGSIZE, frame)
            else do {
              rc \<leftarrow> reply_list_check kind recs count 0 0;
              if rc \<noteq> 0 then Some (rc, frame)
              else do {
                f \<leftarrow> reply_header c kind (of_nat len) 0 f;
                f \<leftarrow> write32 f 32 (of_nat count);
                f \<leftarrow> write32 f 36 0;
                f \<leftarrow> reply_list_emit recs count 0 f;
                Some (int (WMT_CMD2_FRAME_HEADER_SIZE + len), Some f)
              }
            }
          }
      | _ \<Rightarrow> Some (- EINVAL, frame))"

section \<open>The field accessors meet the codec contract\<close>

lemma drop_unfold: "off < length b \<Longrightarrow> drop off b = b ! off # drop (off + 1) b"
  by (simp add: Cons_nth_drop_Suc)

lemma take_drop_2: "off + 2 \<le> length b \<Longrightarrow> take 2 (drop off b) = [b ! off, b ! (off + 1)]"
  by (simp add: drop_unfold [of off] drop_unfold [of "off + 1"] del: One_nat_def)

lemma take_drop_4:
  "off + 4 \<le> length b \<Longrightarrow>
     take 4 (drop off b) = [b ! off, b ! (off + 1), b ! (off + 2), b ! (off + 3)]"
  using drop_unfold [of off b] drop_unfold [of "off + 1" b] drop_unfold [of "off + 2" b]
    drop_unfold [of "off + 3" b]
  by (simp add: numeral_eq_Suc)

lemma le16_length [simp]: "length (le16 v) = 2"
  by (simp add: le16_def)

lemma le32_length [simp]: "length (le32 v) = 4"
  by (simp add: le32_def)

lemma le64_length [simp]: "length (le64 v) = 8"
  by (simp add: le64_def)

lemma list_length_2: "length b = 2 \<Longrightarrow> \<exists>x y. b = [x, y]"
  by (auto simp: numeral_2_eq_2 length_Suc_conv)

lemma list_length_4: "length b = 4 \<Longrightarrow> \<exists>x y z w. b = [x, y, z, w]"
  by (auto simp: numeral_eq_Suc length_Suc_conv)

lemma le16_join: "le16 (ucast x OR push_bit 8 (ucast y)) = [x, y]"
  by (simp only: le16_def split16)

lemma le16_eq_iff: "le16 v = [x, y] \<longleftrightarrow> v = ucast x OR push_bit 8 (ucast y)"
  using join16 [of v] le16_join [of x y] by (auto simp: le16_def)

lemma le32_join:
  "le32 (ucast x OR push_bit 8 (ucast y) OR push_bit 16 (ucast z) OR push_bit 24 (ucast w))
     = [x, y, z, w]"
  by (simp only: le32_def split32)

lemma le32_eq_iff:
  "le32 v = [x, y, z, w] \<longleftrightarrow>
     v = ucast x OR push_bit 8 (ucast y) OR push_bit 16 (ucast z) OR push_bit 24 (ucast w)"
  using join32 [of v] le32_join [of x y z w] by (auto simp: le32_def)

lemma read16_iff: "read16 b off = Some v \<longleftrightarrow> slice b off 2 = Some (le16 v)"
proof (cases "off + 2 \<le> length b")
  case True
  then show ?thesis
    using le16_eq_iff [of v "b ! off" "b ! (off + 1)"] by (auto simp: read16_def take_drop_2)
next
  case False
  then show ?thesis by (auto simp: read16_def slice_def rd_def)
qed

lemma read32_iff: "read32 b off = Some v \<longleftrightarrow> slice b off 4 = Some (le32 v)"
proof (cases "off + 4 \<le> length b")
  case True
  then show ?thesis
    using le32_eq_iff [of v "b ! off" "b ! (off + 1)" "b ! (off + 2)" "b ! (off + 3)"]
    by (auto simp: read32_def take_drop_4)
next
  case False
  then show ?thesis by (auto simp: read32_def slice_def rd_def)
qed

lemma write16_blit: "write16 b off v = blit b off (le16 v)"
proof (cases "off + 2 \<le> length b")
  case True
  then obtain p m r where b: "b = p @ m @ r" "length p = off" and m: "length m = 2"
    using split_at by blast
  obtain x y where "m = [x, y]" using list_length_2 [OF m] by blast
  with b show ?thesis
    by (auto simp: write16_def blit_def le16_def list_update_append)
next
  case False
  then show ?thesis by (auto simp: write16_def blit_def wr_def)
qed

lemma write32_blit: "write32 b off v = blit b off (le32 v)"
proof (cases "off + 4 \<le> length b")
  case True
  then obtain p m r where b: "b = p @ m @ r" "length p = off" and m: "length m = 4"
    using split_at by blast
  obtain x y z w where "m = [x, y, z, w]" using list_length_4 [OF m] by blast
  with b show ?thesis
    by (auto simp: write32_def blit_def le32_def list_update_append)
next
  case False
  then show ?thesis by (auto simp: write32_def blit_def wr_def)
qed

interpretation f16: field_codec 2 le16 read16 write16
proof
  fix b :: bytes
  assume "length b = 2"
  then show "\<exists>v. b = le16 v" using list_length_2 le16_join by metis
qed (simp_all add: read16_iff write16_blit)

interpretation f32: field_codec 4 le32 read32 write32
proof
  fix b :: bytes
  assume "length b = 4"
  then show "\<exists>v. b = le32 v" using list_length_4 le32_join by metis
qed (simp_all add: read32_iff write32_blit)

lemma le64_join: "le64 (ucast lo OR push_bit 32 (ucast hi)) = le32 lo @ le32 hi"
  by (simp only: le64_def split64)

lemma le64_eq_iff: "le64 v = le32 lo @ le32 hi \<longleftrightarrow> v = ucast lo OR push_bit 32 (ucast hi)"
  using join64 [of v] le64_join [of lo hi] by (auto simp: le64_def f32.enc_inj)

lemma read64_iff: "read64 b off = Some v \<longleftrightarrow> slice b off 8 = Some (le64 v)"
proof -
  have "slice b off (4 + 4) = Some (le64 v) \<longleftrightarrow>
      read32 b off = Some (ucast v) \<and> read32 b (off + 4) = Some (ucast (drop_bit 32 v))"
    unfolding le64_def by (subst slice_append_iff) (simp_all add: read32_iff)
  also have "\<dots> \<longleftrightarrow> read64 b off = Some v"
    using join64 [of v] split64 by (auto simp: read64_def bind_eq_Some_conv simp del: drop_bit_or)
  finally show ?thesis by simp
qed

interpretation f64: field_codec 8 le64 read64 write64
proof
  fix b :: bytes
  assume len: "length b = 8"
  have "length (take 4 b) = 4" and "length (drop 4 b) = 4" using len by auto
  then obtain lo hi where "take 4 b = le32 lo" and "drop 4 b = le32 hi"
    using f32.enc_surj by meson
  then have "b = le32 lo @ le32 hi" by (metis append_take_drop_id)
  then show "\<exists>v. b = le64 v" using le64_join by metis
next
  fix b :: bytes and off v
  show "write64 b off v = blit b off (le64 v)"
    unfolding write64_def le64_def using blit_blit [of "le32 (ucast v)" 4]
    by (simp add: write32_blit)
qed (simp_all add: read64_iff)


section \<open>Frame layout\<close>

text \<open>The 32-byte header as the concatenation of its fields.\<close>

definition header_bytes :: "u32 \<Rightarrow> u16 \<Rightarrow> u16 \<Rightarrow> u64 \<Rightarrow> u64 \<Rightarrow> u32 \<Rightarrow> u32 \<Rightarrow> bytes" where
  "header_bytes magic version kind session transaction len result =
     le32 magic @ le16 version @ le16 kind @ le64 session @ le64 transaction
       @ le32 len @ le32 result"

definition reply_bytes :: "wmt_command \<Rightarrow> u32 \<Rightarrow> nat \<Rightarrow> int \<Rightarrow> bytes" where
  "reply_bytes c kind len result =
     header_bytes WMT_CMD2_MAGIC WMT_CMD2_VERSION (ucast kind) (cmd_session c) (cmd_transaction c)
       (of_nat len) (word_of_int result)"

definition command_frame :: "u64 \<Rightarrow> u64 \<Rightarrow> bytes \<Rightarrow> bytes" where
  "command_frame session transaction payload =
     header_bytes WMT_CMD2_MAGIC WMT_CMD2_VERSION (ucast WMT_CMD2_COMMAND) session transaction
       (of_nat (length payload)) 0 @ payload"

definition valid_text :: "bytes \<Rightarrow> bool" where
  "valid_text payload \<longleftrightarrow> payload \<noteq> [] \<and> length payload \<le> WMT_CMD2_COMMAND_MAX \<and> 0 \<notin> set payload"

lemma header_bytes_length [simp]: "length (header_bytes m v k s t n r) = 32"
  by (simp add: header_bytes_def)

lemma reply_bytes_length [simp]: "length (reply_bytes c k n r) = 32"
  by (simp add: reply_bytes_def)

lemma header_reads [simp]:
  "read32 (header_bytes m v k s t n r @ x) 0 = Some m"
  "read16 (header_bytes m v k s t n r @ x) 4 = Some v"
  "read16 (header_bytes m v k s t n r @ x) 6 = Some k"
  "read64 (header_bytes m v k s t n r @ x) 8 = Some s"
  "read64 (header_bytes m v k s t n r @ x) 16 = Some t"
  "read32 (header_bytes m v k s t n r @ x) 24 = Some n"
  "read32 (header_bytes m v k s t n r @ x) 28 = Some r"
  by (simp_all add: header_bytes_def read32_iff f16.read_iff f64.read_iff)

lemma header_inj:
  "header_bytes m v k s t n r = header_bytes m' v' k' s' t' n' r' \<longleftrightarrow>
     m = m' \<and> v = v' \<and> k = k' \<and> s = s' \<and> t = t' \<and> n = n' \<and> r = r'"
  by (simp add: header_bytes_def f16.enc_inj f32.enc_inj f64.enc_inj)

lemma header_split:
  assumes "32 \<le> length f"
  obtains m v k s t n r x where "f = header_bytes m v k s t n r @ x"
proof -
  have "read32 f 0 \<noteq> None \<and> read16 f 4 \<noteq> None \<and> read16 f 6 \<noteq> None \<and> read64 f 8 \<noteq> None
      \<and> read64 f 16 \<noteq> None \<and> read32 f 24 \<noteq> None \<and> read32 f 28 \<noteq> None"
    using assms f16.read_total [of 4 f] f16.read_total [of 6 f] f32.read_total [of 0 f]
      f32.read_total [of 24 f] f32.read_total [of 28 f] f64.read_total [of 8 f]
      f64.read_total [of 16 f] by auto
  then obtain m v k s t n r where
    "slice f 0 4 = Some (le32 m)" "slice f (0 + 4) 2 = Some (le16 v)"
    "slice f (4 + 2) 2 = Some (le16 k)" "slice f (6 + 2) 8 = Some (le64 s)"
    "slice f (8 + 8) 8 = Some (le64 t)" "slice f (16 + 8) 4 = Some (le32 n)"
    "slice f (24 + 4) 4 = Some (le32 r)"
    by (auto simp: read32_iff f16.read_iff f64.read_iff)
  then have "slice f 0 (4 + (2 + (2 + (8 + (8 + (4 + 4)))))) = Some (header_bytes m v k s t n r)"
    unfolding header_bytes_def by (subst slice_append_iff | simp)+
  then have "f = header_bytes m v k s t n r @ drop 32 f"
    using assms append_take_drop_id [of 32 f] by simp
  then show thesis by (rule that)
qed

lemma reply_header_eq:
  assumes "32 \<le> length f"
  shows "reply_header c kind (of_nat len) result f
    = Some (reply_bytes c kind len result @ drop 32 f)"
proof -
  note writes = f32.write_at [of "[]", simplified] f32.write_at f16.write_at f64.write_at
  show ?thesis
    unfolding reply_header_def reply_bytes_def header_bytes_def
    using assms by (simp add: writes del: append_assoc)
qed

section \<open>Decoding a command\<close>

text \<open>With the fields made explicit, decoding is a chain of tests on their values.\<close>

lemma decode_fields:
  assumes "f = header_bytes m v k s t n r @ x"
  shows "wmt_command_decode (Some f) sz session (Some out) =
     (if session = 0 then Some (- EINVAL, Some out)
      else if sz < 32 then Some (- EMSGSIZE, Some out)
      else if m \<noteq> WMT_CMD2_MAGIC \<or> v \<noteq> WMT_CMD2_VERSION then Some (- EPROTONOSUPPORT, Some out)
      else if ucast k \<noteq> WMT_CMD2_COMMAND \<or> r \<noteq> 0 then Some (- EPROTO, Some out)
      else if s \<noteq> session then Some (- ESTALE, Some out)
      else if t = 0 then Some (- EPROTO, Some out)
      else if n = 0 \<or> 255 < unat n \<or> sz \<noteq> 32 + unat n then Some (- EMSGSIZE, Some out)
      else if length x < unat n then None
      else if 0 \<in> set (take (unat n) x) then Some (- EPROTO, Some out)
      else Some (0, Some \<lparr>cmd_session = s, cmd_transaction = t,
                        cmd_text = take (unat n) x @ replicate (256 - unat n) 0\<rparr>))"
  unfolding assms wmt_command_decode_def
  by (auto simp: wmt_const_defs memchr_None_iff slice_def blit_def)

lemma ucast_COMMAND_iff: "ucast (k::u16) = WMT_CMD2_COMMAND \<longleftrightarrow> k = ucast WMT_CMD2_COMMAND"
  unfolding WMT_CMD2_COMMAND_def by transfer simp

lemma of_nat_length_text: "valid_text payload \<Longrightarrow> unat (of_nat (length payload) :: u32) = length payload"
  by (simp add: valid_text_def wmt_const_defs unsigned_of_nat take_bit_nat_eq_self)

lemma command_frame_length [simp]: "length (command_frame s t payload) = 32 + length payload"
  by (simp add: command_frame_def)

lemma decode_command_frame:
  assumes "session \<noteq> 0" "t \<noteq> 0" "valid_text payload"
  shows "wmt_command_decode (Some (command_frame session t payload)) (32 + length payload) session (Some out)
    = Some (0, Some \<lparr>cmd_session = session, cmd_transaction = t,
                    cmd_text = payload @ replicate (256 - length payload) 0\<rparr>)"
proof -
  have "length payload \<noteq> 0" "length payload \<le> 255" "0 \<notin> set payload"
    using assms(3) by (auto simp: valid_text_def wmt_const_defs)
  moreover from this have "(of_nat (length payload) :: u32) \<noteq> 0"
    by (metis assms(3) of_nat_length_text unat_0)
  ultimately show ?thesis
    using assms(1,2) of_nat_length_text [OF assms(3)]
    by (simp add: decode_fields [OF command_frame_def] ucast_COMMAND_iff)
qed

lemma decode_success_frame:
  assumes "wmt_command_decode (Some f) (length f) session (Some out) = Some (0, res)"
  obtains t payload where "session \<noteq> 0" "t \<noteq> 0" "valid_text payload" "f = command_frame session t payload"
proof -
  have "32 \<le> length f"
    using assms by (auto simp: wmt_command_decode_def wmt_const_defs split: if_splits)
  then obtain m v k s t n r x where f: "f = header_bytes m v k s t n r @ x"
    using header_split by blast
  have *: "session \<noteq> 0" "m = WMT_CMD2_MAGIC" "v = WMT_CMD2_VERSION"
    "k = ucast WMT_CMD2_COMMAND" "r = 0" "s = session" "t \<noteq> 0" "n \<noteq> 0" "unat n \<le> 255"
    "length x = unat n" "0 \<notin> set (take (unat n) x)"
    using assms decode_fields [OF f, of "length f" session out]
    by (auto simp: f ucast_COMMAND_iff split: if_splits)
  have "valid_text x"
    using * by (auto simp: valid_text_def wmt_const_defs unsigned_eq_0_iff)
  moreover have "f = command_frame session t x"
    using f * by (simp add: command_frame_def)
  ultimately show thesis using * that by blast
qed

text \<open>Decoding always has a result, and an error leaves the output alone.\<close>

lemma decode_total:
  assumes "sz \<le> length f"
  shows "\<exists>rc res. wmt_command_decode (Some f) sz session out = Some (rc, res)
    \<and> rc \<in> {0, - EINVAL, - EMSGSIZE, - EPROTONOSUPPORT, - EPROTO, - ESTALE}
    \<and> (rc \<noteq> 0 \<longrightarrow> res = out)"
proof (cases "session = 0 \<or> out = None \<or> sz < 32")
  case True
  then show ?thesis by (auto simp: wmt_command_decode_def wmt_const_defs)
next
  case False
  then obtain m v k s t n r x where f: "f = header_bytes m v k s t n r @ x"
    using assms header_split [of f] by (metis le_trans linorder_not_less)
  from False obtain o' where "out = Some o'" by auto
  then show ?thesis
    using assms decode_fields [OF f, of sz session o'] unfolding f by auto
qed

section \<open>Replies\<close>

lemma reply_status_eq:
  assumes "cmd_session c \<noteq> 0" "cmd_transaction c \<noteq> 0" "-4095 \<le> result" "result \<le> 0"
    and "32 \<le> capacity" "capacity \<le> length f"
  shows "wmt_reply_status (Some c) result (Some f) capacity
    = Some (32, Some (reply_bytes c WMT_CMD2_STATUS 0 result @ drop 32 f))"
  using assms reply_header_eq [of f c WMT_CMD2_STATUS 0 result]
  by (simp add: wmt_reply_status_def WMT_CMD2_FRAME_HEADER_SIZE_def)


section \<open>Metadata lists\<close>

text \<open>What a list has to satisfy, independent of the loop that checks it.\<close>

definition valid_name :: "bytes \<Rightarrow> bool" where
  "valid_name nm \<longleftrightarrow> str_of nm \<noteq> [] \<and> length (str_of nm) < 256
     \<and> of_char CHR ''/'' \<notin> set (str_of nm) \<and> str_of nm \<noteq> ascii ''.'' \<and> str_of nm \<noteq> ascii ''..''"

definition index_ok :: "u32 \<Rightarrow> nat \<Rightarrow> u32 \<Rightarrow> bool" where
  "index_ok kind count index \<longleftrightarrow>
     (if kind = WMT_CMD2_PATCH_LIST then index \<noteq> 0 \<and> unat index \<le> count
      else unat index < WMT_CMD2_ROM_MAX)"

definition valid_list :: "u32 \<Rightarrow> wmt_cmd2_record list \<Rightarrow> bool" where
  "valid_list kind recs \<longleftrightarrow>
     (\<forall>r\<in>set recs. index_ok kind (length recs) (rec_index r) \<and> valid_name (rec_name r))
     \<and> distinct (map rec_index recs)"

definition slot_of :: "u32 \<Rightarrow> u32 \<Rightarrow> nat" where
  "slot_of kind index = (if kind = WMT_CMD2_PATCH_LIST then unat (index - 1) else unat index)"

definition record_bytes :: "wmt_cmd2_record \<Rightarrow> bytes" where
  "record_bytes r = le32 (rec_index r) @ rec_address r @ str_of (rec_name r)
     @ replicate (256 - length (str_of (rec_name r))) 0"

definition list_bytes :: "wmt_command \<Rightarrow> u32 \<Rightarrow> wmt_cmd2_record list \<Rightarrow> bytes" where
  "list_bytes c kind recs =
     reply_bytes c kind (8 + length recs * WMT_CMD2_RECORD_SIZE) 0
       @ le32 (of_nat (length recs)) @ le32 0 @ concat (map record_bytes recs)"

lemma slot_of_less: "index_ok kind count index \<Longrightarrow> count \<le> 10 \<Longrightarrow> slot_of kind index < 32"
  by (auto simp: index_ok_def slot_of_def wmt_const_defs split: if_splits) unat_arith+

lemma slot_of_inj:
  "index_ok kind count i \<Longrightarrow> index_ok kind count j \<Longrightarrow> slot_of kind i = slot_of kind j \<longleftrightarrow> i = j"
  by (auto simp: slot_of_def word_unat_eq_iff [symmetric] split: if_splits)

lemma streq_name:
  assumes "length nm = 256" "length (str_of nm) < 256"
  shows "streq nm (cstr s) = Some (str_of nm = str_of (cstr s))"
  using assms str_of_less_iff [of nm] by (intro streq_iff) (auto simp: cstr_def)

text \<open>One turn of the checking loop, on a record of the declared size.\<close>

lemma reply_list_check_step:
  assumes "i < length recs" "i < count" "wf_record (recs ! i)" "count \<le> 10"
  defines "r \<equiv> recs ! i"
  shows "reply_list_check kind recs count i seen =
    (if \<not> index_ok kind count (rec_index r) then Some (- EINVAL)
     else if bit seen (slot_of kind (rec_index r)) then Some (- EEXIST)
     else if \<not> valid_name (rec_name r) then Some (- EINVAL)
     else reply_list_check kind recs count (Suc i)
            (seen OR push_bit (slot_of kind (rec_index r)) 1))"
proof -
  have len: "length (rec_name r) = 256"
    using assms(3) by (simp add: r_def wf_record_def)
  have sl: "strnlen (rec_name r) 256 = Some (length (str_of (rec_name r)))"
    using len length_str_of_le [of "rec_name r"] by (simp add: strnlen_Some_iff)
  let ?S = "slot_of kind (rec_index r)" and ?n = "length (str_of (rec_name r))"
  have unf: "reply_list_check kind recs count i seen =
     (if \<not> index_ok kind count (rec_index r) then Some (- EINVAL)
      else if seen AND push_bit ?S 1 \<noteq> 0 then Some (- EEXIST)
      else if ?n = 0 \<or> ?n = 256 \<or> memchr (rec_name r) (of_char CHR ''/'') ?n \<noteq> None
      then Some (- EINVAL)
      else do {
        dot \<leftarrow> streq (rec_name r) (cstr ''.'');
        dotdot \<leftarrow> streq (rec_name r) (cstr ''..'');
        if dot \<or> dotdot then Some (- EINVAL)
        else reply_list_check kind recs count (Suc i) (seen OR push_bit ?S 1)
      })"
    using assms(1,2) sl unfolding r_def
    by (subst reply_list_check.simps)
       (cases "kind = WMT_CMD2_PATCH_LIST"; simp add: Let_def index_ok_def slot_of_def not_less cong: if_cong)
  show ?thesis
  proof (cases "index_ok kind count (rec_index r)")
    case False
    then show ?thesis by (simp add: unf)
  next
    case True
    then have "?S < 32"
      using assms(4) by (rule slot_of_less)
    note mask = test_mask_bit(1) [OF this, of seen]
    have n: "?n = 256 \<longleftrightarrow> \<not> ?n < 256"
      using len length_str_of_le [of "rec_name r"] by auto
    show ?thesis
    proof (cases "?n < 256")
      case False
      then show ?thesis using True mask n by (simp add: unf valid_name_def)
    next
      case less: True
      have "str_of (cstr ''.'') = ascii ''.''" "str_of (cstr ''..'') = ascii ''..''"
        by (simp_all add: cstr_def ascii_def str_of_def)
      then show ?thesis
        using True mask n less streq_name [OF len less]
        by (simp add: unf valid_name_def memchr_None_iff str_of_take)
    qed
  qed
qed


lemma reply_list_check_loop:
  assumes "count \<le> length recs" "count \<le> 10" "i \<le> count"
    and wf: "\<forall>r\<in>set (take count recs). wf_record r"
  shows "\<exists>rc. reply_list_check kind recs count i seen = Some rc
    \<and> rc \<in> {0, - EINVAL, - EEXIST}
    \<and> (rc = 0 \<longleftrightarrow>
         (\<forall>r\<in>set (drop i (take count recs)). index_ok kind count (rec_index r)
            \<and> valid_name (rec_name r) \<and> \<not> bit seen (slot_of kind (rec_index r)))
         \<and> distinct (map (\<lambda>r. slot_of kind (rec_index r)) (drop i (take count recs))))"
  using assms(3)
proof (induction "count - i" arbitrary: i seen)
  case 0
  then show ?case by (subst reply_list_check.simps) simp
next
  case (Suc n)
  then have i: "i < count" "i < length recs" using assms(1) by auto
  have n: "n = count - Suc i" using Suc.hyps(2) by simp
  let ?r = "recs ! i" and ?rest = "drop (Suc i) (take count recs)"
  have rest: "drop i (take count recs) = ?r # ?rest"
    using i by (metis Cons_nth_drop_Suc length_take min_less_iff_conj nth_take)
  have "?r \<in> set (take count recs)"
    using i by (metis in_set_conv_nth length_take min_less_iff_conj nth_take)
  then have "wf_record ?r" using wf by blast
  note step = reply_list_check_step [OF i(2,1) this assms(2), of kind seen]
  show ?case
  proof (cases "index_ok kind count (rec_index ?r) \<and> valid_name (rec_name ?r)
      \<and> \<not> bit seen (slot_of kind (rec_index ?r))")
    case True
    then have "slot_of kind (rec_index ?r) < 32" using slot_of_less assms(2) by blast
    note mask = test_mask_bit(2) [OF this, of seen]
    obtain rc where rc: "reply_list_check kind recs count (Suc i)
          (seen OR push_bit (slot_of kind (rec_index ?r)) 1) = Some rc"
      and vals: "rc \<in> {0, - EINVAL, - EEXIST}"
      and ok: "rc = 0 \<longleftrightarrow>
           (\<forall>r\<in>set ?rest. index_ok kind count (rec_index r) \<and> valid_name (rec_name r)
              \<and> \<not> bit (seen OR push_bit (slot_of kind (rec_index ?r)) 1)
                    (slot_of kind (rec_index r)))
           \<and> distinct (map (\<lambda>r. slot_of kind (rec_index r)) ?rest)"
      using Suc.hyps(1) [OF n Suc_leI [OF i(1)]] by blast
    have "reply_list_check kind recs count i seen = Some rc"
      using step True rc by simp
    moreover have "rc = 0 \<longleftrightarrow>
         (\<forall>r\<in>set (?r # ?rest). index_ok kind count (rec_index r)
            \<and> valid_name (rec_name r) \<and> \<not> bit seen (slot_of kind (rec_index r)))
         \<and> distinct (map (\<lambda>r. slot_of kind (rec_index r)) (?r # ?rest))"
      unfolding ok mask using True by (auto simp: image_iff; metis)
    ultimately show ?thesis unfolding rest using vals by blast
  next
    case False
    then show ?thesis unfolding rest step by (auto split: if_splits)
  qed
qed

text \<open>The loop accepts exactly the valid lists.\<close>

lemma reply_list_check_iff:
  assumes "count \<le> length recs" "count \<le> 10" and "\<forall>r\<in>set (take count recs). wf_record r"
  shows "\<exists>rc. reply_list_check kind recs count 0 0 = Some rc \<and> rc \<in> {0, - EINVAL, - EEXIST}
    \<and> (rc = 0 \<longleftrightarrow> valid_list kind (take count recs))"
proof -
  let ?rs = "take count recs"
  have len: "length ?rs = count" using assms(1) by simp
  have "distinct (map (\<lambda>r. slot_of kind (rec_index r)) ?rs) \<longleftrightarrow> distinct (map rec_index ?rs)"
    if "\<forall>r\<in>set ?rs. index_ok kind count (rec_index r)"
  proof -
    have "inj_on (slot_of kind) (set (map rec_index ?rs))"
      using that slot_of_inj by (fastforce simp: inj_on_def)
    then show ?thesis using distinct_map [of "slot_of kind" "map rec_index ?rs"]
      by (simp add: comp_def)
  qed
  then show ?thesis
    using reply_list_check_loop [OF assms(1,2) le0 assms(3), of kind 0]
    unfolding valid_list_def len by (auto simp: len)
qed

lemma record_bytes_length:
  "wf_record r \<Longrightarrow> valid_name (rec_name r) \<Longrightarrow> length (record_bytes r) = 264"
  by (simp add: record_bytes_def wf_record_def valid_name_def)

lemma reply_list_record_eq:
  assumes "length pre = off" "264 \<le> length rest" "wf_record r" "valid_name (rec_name r)"
  shows "reply_list_record (pre @ rest) off r = Some ((pre @ record_bytes r) @ drop 264 rest)"
proof -
  obtain nm where nm: "str_of (rec_name r) = nm" by blast
  have l: "length nm < 256" using assms(4) nm by (simp add: valid_name_def)
  have "strlen (rec_name r) = Some (length nm)" "slice (rec_name r) 0 (length nm) = Some nm"
    using assms(3) l nm str_of_take [of "rec_name r"]
    by (auto simp: strlen_Some_iff wf_record_def)
  moreover have "slice (rec_address r) 0 4 = Some (rec_address r)"
    using assms(3) by (simp add: wf_record_def)
  moreover obtain b8 tl where rest: "rest = b8 @ tl" "length b8 = 264"
    using assms(2) by (metis append_take_drop_id length_take min.absorb2)
  ultimately show ?thesis
    using assms(1,3) l nm f32.write_at [of pre off rest "rec_index r"]
    by (simp add: reply_list_record_def record_bytes_def wf_record_def blit_def)
qed

lemma reply_list_emit_eq:
  assumes "count \<le> length recs" "\<forall>r\<in>set (take count recs). wf_record r \<and> valid_name (rec_name r)"
    and "i \<le> count" "length pre = 40 + i * 264" "(count - i) * 264 \<le> length rest"
  shows "reply_list_emit recs count i (pre @ rest) =
    Some (pre @ concat (map record_bytes (drop i (take count recs))) @ drop ((count - i) * 264) rest)"
  using assms(3-5)
proof (induction "count - i" arbitrary: i pre rest)
  case 0
  then show ?case by (subst reply_list_emit.simps) simp
next
  case (Suc n)
  then have i: "i < count" "i < length recs" using assms(1) by auto
  let ?r = "recs ! i"
  have drop: "drop i (take count recs) = ?r # drop (Suc i) (take count recs)"
    using i by (metis Cons_nth_drop_Suc length_take min_less_iff_conj nth_take)
  then have ok: "wf_record ?r" "valid_name (rec_name ?r)"
    using assms(2) by (metis in_set_dropD list.set_intros(1))+
  have k: "(count - i) * 264 = 264 + (count - Suc i) * 264"
    using i(1) by (simp add: Suc_diff_Suc [symmetric])
  have "reply_list_emit recs count i (pre @ rest) =
      reply_list_emit recs count (Suc i) ((pre @ record_bytes ?r) @ drop 264 rest)"
    using i Suc.prems k reply_list_record_eq [OF Suc.prems(2) _ ok, of rest]
    by (subst reply_list_emit.simps) (simp add: WMT_CMD2_RECORD_SIZE_def)
  also have "\<dots> = Some ((pre @ record_bytes ?r) @ concat (map record_bytes (drop (Suc i) (take count recs)))
        @ drop ((count - Suc i) * 264) (drop 264 rest))"
    using Suc.hyps Suc.prems i k record_bytes_length [OF ok]
    by (intro Suc.hyps) auto
  finally show ?case by (simp add: drop k add.commute)
qed

section \<open>Properties of the protocol\<close>

text \<open>C6: A frame decodes successfully for a session exactly when it is the canonical encoding
  of a command of that session with a non-zero transaction and a non-empty text of at most 255
  bytes without NUL; the decoded command then carries that transaction and the zero-padded text.\<close>

theorem decode_accepts_iff:
  "wmt_command_decode (Some f) (length f) session (Some out) = Some (0, res) \<longleftrightarrow>
     session \<noteq> 0 \<and> (\<exists>t payload. t \<noteq> 0 \<and> valid_text payload \<and> f = command_frame session t payload
       \<and> res = Some \<lparr>cmd_session = session, cmd_transaction = t,
                     cmd_text = payload @ replicate (256 - length payload) 0\<rparr>)"
proof
  assume dec: "wmt_command_decode (Some f) (length f) session (Some out) = Some (0, res)"
  then obtain t payload where *: "session \<noteq> 0" "t \<noteq> 0" "valid_text payload"
    "f = command_frame session t payload"
    by (rule decode_success_frame)
  with dec decode_command_frame [OF *(1-3), of out]
  show "session \<noteq> 0 \<and> (\<exists>t payload. t \<noteq> 0 \<and> valid_text payload \<and> f = command_frame session t payload
       \<and> res = Some \<lparr>cmd_session = session, cmd_transaction = t,
                     cmd_text = payload @ replicate (256 - length payload) 0\<rparr>)"
    by auto
next
  assume "session \<noteq> 0 \<and> (\<exists>t payload. t \<noteq> 0 \<and> valid_text payload \<and> f = command_frame session t payload
       \<and> res = Some \<lparr>cmd_session = session, cmd_transaction = t,
                     cmd_text = payload @ replicate (256 - length payload) 0\<rparr>)"
  then show "wmt_command_decode (Some f) (length f) session (Some out) = Some (0, res)"
    using decode_command_frame [of session _ _ out] by auto
qed

text \<open>C13: Decoding never reads outside the received bytes, whatever they are; every result is
  zero or one of five error numbers, and every error leaves the output as it was.\<close>

theorem decode_safe:
  assumes "sz \<le> length f"
  shows "\<exists>rc res. wmt_command_decode (Some f) sz session out = Some (rc, res)
    \<and> rc \<in> {0, - EINVAL, - EMSGSIZE, - EPROTONOSUPPORT, - EPROTO, - ESTALE}
    \<and> (rc \<noteq> 0 \<longrightarrow> res = out)"
  using assms by (rule decode_total)

text \<open>The request of the repository's own wire test.\<close>

lemma command_frame_literal:
  "command_frame 0x0807060504030201 0x8877665544332211 (ascii ''srh_patch'') =
     ascii ''WMT2'' @ [2, 0, 1, 0, 1, 2, 3, 4, 5, 6, 7, 8,
       0x11, 0x22, 0x33, 0x44, 0x55, 0x66, 0x77, 0x88, 9, 0, 0, 0, 0, 0, 0, 0]
       @ ascii ''srh_patch''"
  by (simp add: command_frame_def header_bytes_def le16_def le32_def le64_def wmt_const_defs
      ascii_def)

theorem decode_safe_witness:
  "(41::nat) \<le> length (command_frame 0x0807060504030201 0x8877665544332211 (ascii ''srh_patch''))
   \<and> (\<exists>rc res. wmt_command_decode
        (Some (command_frame 0x0807060504030201 0x8877665544332211 (ascii ''srh_patch'')))
        41 5 None = Some (rc, res)
      \<and> rc \<in> {0, - EINVAL, - EMSGSIZE, - EPROTONOSUPPORT, - EPROTO, - ESTALE}
      \<and> (rc \<noteq> 0 \<longrightarrow> res = None))"
proof -
  have h: "41 \<le> length (command_frame 0x0807060504030201 0x8877665544332211 (ascii ''srh_patch''))"
    by (simp add: ascii_def)
  show ?thesis using h decode_safe [OF h, of 5 None] by blast
qed

lemma reply_list_accepts:
  assumes "cmd_session c \<noteq> 0" "cmd_transaction c \<noteq> 0"
    and "kind \<in> {WMT_CMD2_PATCH_LIST, WMT_CMD2_ROM_LIST}"
    and "count \<le> (if kind = WMT_CMD2_PATCH_LIST then 10 else 5)"
    and "kind = WMT_CMD2_PATCH_LIST \<longrightarrow> count \<noteq> 0"
    and "count \<le> length recs" "\<forall>r\<in>set (take count recs). wf_record r"
    and "40 + count * 264 \<le> capacity" "capacity \<le> length f"
  shows "if valid_list kind (take count recs)
    then wmt_reply_list (Some c) kind (Some recs) count (Some f) capacity
      = Some (40 + int count * 264, Some (list_bytes c kind (take count recs) @ drop (40 + count * 264) f))
    else wmt_reply_list (Some c) kind (Some recs) count (Some f) capacity \<in>
      {Some (- EINVAL, Some f), Some (- EEXIST, Some f)}"
proof -
  let ?rs = "take count recs"
  have c10: "count \<le> 10" using assms(4) by (auto split: if_splits)
  obtain rc where rc: "reply_list_check kind recs count 0 0 = Some rc"
    "rc \<in> {0, - EINVAL, - EEXIST}" "rc = 0 \<longleftrightarrow> valid_list kind ?rs"
    using reply_list_check_iff [OF assms(6) c10 assms(7)] by blast
  have reduce: "wmt_reply_list (Some c) kind (Some recs) count (Some f) capacity =
     (if rc \<noteq> 0 then Some (rc, Some f)
      else do {
        f \<leftarrow> reply_header c kind (of_nat (8 + count * 264)) 0 f;
        f \<leftarrow> write32 f 32 (of_nat count);
        f \<leftarrow> write32 f 36 0;
        f \<leftarrow> reply_list_emit recs count 0 f;
        Some (int (32 + (8 + count * 264)), Some f)
      })"
    using assms rc(1) by (auto simp: wmt_reply_list_def wmt_const_defs Let_def)
  show ?thesis
  proof (cases "valid_list kind ?rs")
    case False
    then show ?thesis using rc by (auto simp: reduce)
  next
    case True
    then have names: "\<forall>r\<in>set ?rs. wf_record r \<and> valid_name (rec_name r)"
      using assms(7) by (simp add: valid_list_def)
    let ?h = "reply_bytes c kind (8 + count * 264) 0"
    have "reply_header c kind (of_nat (8 + count * 264)) 0 f = Some (?h @ drop 32 f)"
      using assms(8,9) by (intro reply_header_eq) simp
    moreover have "write32 (?h @ drop 32 f) 32 (of_nat count) = Some ((?h @ le32 (of_nat count)) @ drop 36 f)"
      using assms(8,9) by (subst f32.write_at) auto
    moreover have "write32 ((?h @ le32 (of_nat count)) @ drop 36 f) 36 0
      = Some (((?h @ le32 (of_nat count)) @ le32 0) @ drop 40 f)"
      using assms(8,9) by (subst f32.write_at) auto
    moreover have "reply_list_emit recs count 0 (((?h @ le32 (of_nat count)) @ le32 0) @ drop 40 f)
      = Some (((?h @ le32 (of_nat count)) @ le32 0) @ concat (map record_bytes ?rs)
              @ drop (count * 264) (drop 40 f))"
      using assms(6,8,9) names reply_list_emit_eq [of count recs 0 "(?h @ le32 (of_nat count)) @ le32 0" "drop 40 f"]
      by simp
    ultimately show ?thesis
      using True rc assms(6) by (simp add: reduce list_bytes_def WMT_CMD2_RECORD_SIZE_def add.commute)
  qed
qed

text \<open>C14: For an in-range list of the right kind and a large enough buffer, a list reply is produced
  exactly when the indices are in range and distinct and every name is a non-empty, terminated
  basename other than dot and dot-dot. The reply is then the header, the count, a zero word and
  the 264-byte records with zero-padded names, followed by the untouched rest of the buffer; an
  invalid list is rejected with the buffer unchanged, and no access leaves a buffer.\<close>

theorem reply_list_outcome:
  assumes "cmd_session c \<noteq> 0" "cmd_transaction c \<noteq> 0"
    and "kind \<in> {WMT_CMD2_PATCH_LIST, WMT_CMD2_ROM_LIST}"
    and "count \<le> (if kind = WMT_CMD2_PATCH_LIST then 10 else 5)"
    and "kind = WMT_CMD2_PATCH_LIST \<longrightarrow> count \<noteq> 0"
    and "count \<le> length recs" "\<forall>r\<in>set (take count recs). wf_record r"
    and "40 + count * 264 \<le> capacity" "capacity \<le> length f"
  shows "if valid_list kind (take count recs)
    then wmt_reply_list (Some c) kind (Some recs) count (Some f) capacity
      = Some (40 + int count * 264, Some (list_bytes c kind (take count recs) @ drop (40 + count * 264) f))
    else wmt_reply_list (Some c) kind (Some recs) count (Some f) capacity \<in>
      {Some (- EINVAL, Some f), Some (- EEXIST, Some f)}"
  using assms by (rule reply_list_accepts)

theorem reply_list_outcome_witness:
  "wmt_reply_list (Some \<lparr>cmd_session = 7, cmd_transaction = 9, cmd_text = []\<rparr>)
      WMT_CMD2_PATCH_LIST
      (Some [\<lparr>rec_index = 2, rec_address = [0, 0, 6, 0], rec_name = 98 # 0 # replicate 254 0\<rparr>,
             \<lparr>rec_index = 1, rec_address = [0, 0, 10, 240], rec_name = 97 # 0 # replicate 254 0\<rparr>])
      2 (Some (replicate 568 0)) 568
    = Some (568, Some (list_bytes \<lparr>cmd_session = 7, cmd_transaction = 9, cmd_text = []\<rparr>
        WMT_CMD2_PATCH_LIST
        [\<lparr>rec_index = 2, rec_address = [0, 0, 6, 0], rec_name = 98 # 0 # replicate 254 0\<rparr>,
         \<lparr>rec_index = 1, rec_address = [0, 0, 10, 240], rec_name = 97 # 0 # replicate 254 0\<rparr>]))"
  (is "wmt_reply_list (Some ?c) _ (Some ?recs) _ (Some ?f) _ = _")
proof -
  have "valid_list WMT_CMD2_PATCH_LIST ?recs"
    by (simp add: valid_list_def index_ok_def valid_name_def str_of_def ascii_def)
  moreover have "\<forall>r\<in>set (take 2 ?recs). wf_record r" by (simp add: wf_record_def)
  ultimately show ?thesis
    using reply_list_outcome [of ?c WMT_CMD2_PATCH_LIST 2 ?recs 568 ?f]
    by simp
qed

lemma valid_patch_list_indices:
  assumes "valid_list WMT_CMD2_PATCH_LIST recs"
  shows "unat ` rec_index ` set recs = {1..length recs}"
proof (rule card_subset_eq)
  show "unat ` rec_index ` set recs \<subseteq> {1..length recs}"
    using assms by (auto simp: valid_list_def index_ok_def Suc_le_eq unat_gt_0)
  have "card (set (map rec_index recs)) = length recs"
    using assms distinct_card [of "map rec_index recs"] by (simp add: valid_list_def)
  moreover have "inj_on (unat :: u32 \<Rightarrow> nat) A" for A by (simp add: inj_on_def word_unat_eq_iff)
  ultimately show "card (unat ` rec_index ` set recs) = card {1..length recs}"
    by (simp add: card_image)
qed simp

text \<open>C15: Whenever a patch list reply is produced, its records carry every sequence number from 1 to
  their number: the checks on range and duplicates leave no gap.\<close>

theorem patch_list_complete:
  assumes "wmt_reply_list command WMT_CMD2_PATCH_LIST (Some recs) count frame capacity = Some (rc, g)"
    and "0 \<le> rc" and "count \<le> length recs" "\<forall>r\<in>set (take count recs). wf_record r"
  shows "unat ` rec_index ` set (take count recs) = {1..count}"
proof -
  have c: "count \<le> 10"
    using assms(1,2)
    by (auto simp: wmt_reply_list_def wmt_const_defs Let_def split: option.splits if_splits)
  obtain rc' where rc': "reply_list_check WMT_CMD2_PATCH_LIST recs count 0 0 = Some rc'"
    "rc' \<in> {0, - EINVAL, - EEXIST}" "rc' = 0 \<longleftrightarrow> valid_list WMT_CMD2_PATCH_LIST (take count recs)"
    using reply_list_check_iff [OF assms(3) c assms(4)] by blast
  have "rc' = 0"
  proof (rule ccontr)
    assume "rc' \<noteq> 0"
    then have "rc < 0"
      using assms(1) rc'(1,2)
      by (auto simp: wmt_reply_list_def Let_def split: option.splits if_splits)
    with assms(2) show False by simp
  qed
  with rc'(3) have "valid_list WMT_CMD2_PATCH_LIST (take count recs)" by simp
  from valid_patch_list_indices [OF this] show ?thesis using assms(3) by simp
qed

theorem patch_list_complete_witness:
  "unat ` rec_index ` set
     [\<lparr>rec_index = 2, rec_address = [0, 0, 6, 0], rec_name = 98 # 0 # replicate 254 0\<rparr>,
      \<lparr>rec_index = 1, rec_address = [0, 0, 10, 240], rec_name = 97 # 0 # replicate 254 0\<rparr>] = {1..2}"
  (is "unat ` rec_index ` set ?recs = _")
proof -
  let ?c = "\<lparr>cmd_session = 7, cmd_transaction = 9, cmd_text = []\<rparr>"
  have "valid_list WMT_CMD2_PATCH_LIST ?recs"
    by (simp add: valid_list_def index_ok_def valid_name_def str_of_def ascii_def)
  moreover have wf: "\<forall>r\<in>set (take 2 ?recs). wf_record r" by (simp add: wf_record_def)
  ultimately have "wmt_reply_list (Some ?c) WMT_CMD2_PATCH_LIST (Some ?recs) 2
      (Some (replicate 568 0)) 568 = Some (568, Some (list_bytes ?c WMT_CMD2_PATCH_LIST ?recs))"
    using reply_list_accepts [of ?c WMT_CMD2_PATCH_LIST 2 ?recs 568 "replicate 568 0"] by simp
  from patch_list_complete [OF this _ _ wf] show ?thesis by simp
qed

text \<open>C16: A status reply to a decoded command repeats the request's session and transaction bytes
  unchanged and carries the result as a 32-bit two's complement word.\<close>

theorem reply_keeps_identity:
  assumes "wmt_command_decode (Some f) (length f) session (Some out) = Some (0, Some c)"
    and "-4095 \<le> result" "result \<le> 0" "32 \<le> capacity" "capacity \<le> length g"
  shows "\<exists>g'. wmt_reply_status (Some c) result (Some g) capacity = Some (32, Some g')
    \<and> take 16 (drop 8 g') = take 16 (drop 8 f) \<and> read32 g' 28 = Some (word_of_int result)"
proof -
  obtain t payload where *: "session \<noteq> 0" "t \<noteq> 0" "valid_text payload"
    "f = command_frame session t payload"
    using assms(1) by (rule decode_success_frame)
  have c: "cmd_session c = session" "cmd_transaction c = t"
    using assms(1) decode_command_frame [OF *(1-3), of out] *(4) by auto
  have "wmt_reply_status (Some c) result (Some g) capacity
      = Some (32, Some (reply_bytes c WMT_CMD2_STATUS 0 result @ drop 32 g))"
    using assms * c by (intro reply_status_eq) auto
  moreover have "take 16 (drop 8 (reply_bytes c WMT_CMD2_STATUS 0 result @ drop 32 g)) = le64 session @ le64 t"
    by (simp add: reply_bytes_def header_bytes_def c)
  moreover have "take 16 (drop 8 f) = le64 session @ le64 t"
    by (simp add: *(4) command_frame_def header_bytes_def)
  ultimately show ?thesis by (auto simp: reply_bytes_def)
qed
theorem reply_keeps_identity_witness:
  "\<exists>g'. wmt_reply_status
       (Some \<lparr>cmd_session = 5, cmd_transaction = 9, cmd_text = ascii ''ab'' @ replicate 254 0\<rparr>)
       (- EOPNOTSUPP) (Some (replicate 32 0)) 32 = Some (32, Some g')
    \<and> take 16 (drop 8 g') = take 16 (drop 8 (command_frame 5 9 (ascii ''ab'')))
    \<and> read32 g' 28 = Some (- 95)"
proof -
  have v: "valid_text (ascii ''ab'')"
    by (simp add: valid_text_def ascii_def wmt_const_defs)
  have "wmt_command_decode (Some (command_frame 5 9 (ascii ''ab'')))
      (length (command_frame 5 9 (ascii ''ab''))) 5
      (Some \<lparr>cmd_session = 0, cmd_transaction = 0, cmd_text = []\<rparr>)
    = Some (0, Some \<lparr>cmd_session = 5, cmd_transaction = 9,
                    cmd_text = ascii ''ab'' @ replicate 254 0\<rparr>)"
    using decode_command_frame [OF _ _ v, of 5 9] by (simp add: ascii_def)
  from reply_keeps_identity [OF this, of "- EOPNOTSUPP" 32 "replicate 32 0"]
  show ?thesis by simp
qed

end
