(* ===== verification/Collection.thy ===== *)
theory Collection
  imports Prelude "HOL-Library.Multiset"
begin

text \<open>
  Collectors that take items one at a time and may refuse one: inserting a list of items, and the
  contract under which the order of the items does not matter.
\<close>

section \<open>Collecting without regard to order\<close>

text \<open>Insert a list of items, stopping at the first that is refused.\<close>

fun foldo :: "('s \<Rightarrow> 'f \<Rightarrow> 's option) \<Rightarrow> 'f list \<Rightarrow> 's \<Rightarrow> 's option" where
  "foldo add [] s = Some s"
| "foldo add (f # fs) s = (case add s f of None \<Rightarrow> None | Some s' \<Rightarrow> foldo add fs s')"

lemma foldo_append:
  "foldo add (xs @ ys) s = (case foldo add xs s of None \<Rightarrow> None | Some s' \<Rightarrow> foldo add ys s')"
  by (induction xs arbitrary: s) (auto split: option.splits)

text \<open>
  The contract of a collector whose successful insertions commute: any reordering of the inserted
  items is then accepted as well, with the same result.
\<close>

locale commuting_add =
  fixes valid :: "'s \<Rightarrow> bool" and add :: "'s \<Rightarrow> 'f \<Rightarrow> 's option"
  assumes valid_add: "valid s \<Longrightarrow> add s f = Some s' \<Longrightarrow> valid s'"
    and add_commute: "valid s \<Longrightarrow> add s f = Some s1 \<Longrightarrow> add s1 g = Some s2
      \<Longrightarrow> \<exists>s1'. add s g = Some s1' \<and> add s1' f = Some s2"
begin

lemma foldo_valid: "valid s \<Longrightarrow> foldo add fs s = Some t \<Longrightarrow> valid t"
  by (induction fs arbitrary: s) (auto split: option.splits intro: valid_add)

lemma foldo_front:
  "valid s \<Longrightarrow> foldo add (xs @ y # ys) s = Some t \<Longrightarrow> foldo add (y # xs @ ys) s = Some t"
proof (induction xs arbitrary: s)
  case (Cons x xs)
  then obtain s1 where s1: "add s x = Some s1" "foldo add (xs @ y # ys) s1 = Some t"
    by (auto split: option.splits)
  then have "foldo add (y # xs @ ys) s1 = Some t"
    using Cons valid_add by blast
  then obtain s2 where s2: "add s1 y = Some s2" "foldo add (xs @ ys) s2 = Some t"
    by (auto split: option.splits)
  then show ?case using add_commute [OF Cons.prems(1) s1(1) s2(1)] by auto
qed simp

lemma foldo_perm:
  "valid s \<Longrightarrow> mset xs = mset ys \<Longrightarrow> foldo add ys s = Some t \<Longrightarrow> foldo add xs s = Some t"
proof (induction xs arbitrary: s ys)
  case (Cons x xs)
  then have "x \<in> set ys" by (metis list.set_intros(1) mset_eq_setD)
  then obtain as bs where ys: "ys = as @ x # bs" by (meson split_list)
  have "foldo add (x # as @ bs) s = Some t"
    using Cons.prems ys foldo_front by blast
  then obtain s1 where s1: "add s x = Some s1" "foldo add (as @ bs) s1 = Some t"
    by (auto split: option.splits)
  have "foldo add xs s1 = Some t"
    using Cons.prems ys s1 by (intro Cons.IH [of s1 "as @ bs"]) (auto intro: valid_add)
  with s1(1) show ?case by simp
qed simp

end

end
