(* ===== verification/Wmt_Patch.thy ===== *)
theory Wmt_Patch
  imports Collection
begin

text \<open>
  Firmware patch metadata, \<open>wmt-launcher/patch.c\<close> and \<open>patch.h\<close>: the 28-byte header decoder, the
  15-byte build version and the set that collects one patch per sequence number.
\<close>

section \<open>Data\<close>

definition WMT_PATCH_HEADER_SIZE :: nat where "WMT_PATCH_HEADER_SIZE = 28"
definition WMT_PATCH_NAME_SIZE :: nat where "WMT_PATCH_NAME_SIZE = 256"
definition WMT_MAX_PATCHES :: nat where "WMT_MAX_PATCHES = 10"

lemmas patch_const_defs = WMT_PATCH_HEADER_SIZE_def WMT_PATCH_NAME_SIZE_def WMT_MAX_PATCHES_def

record wmt_patch_info =
  pi_sequence :: u32
  pi_address :: bytes
  pi_name :: bytes

record wmt_patch_file =
  pf_count :: u32
  pf_info :: wmt_patch_info

record wmt_patch_set =
  ps_count :: u32
  ps_seen :: u32
  ps_records :: "wmt_patch_info list"

text \<open>The values of \<open>= {0}\<close> initialisers.\<close>

definition zero_patch_info :: wmt_patch_info where
  "zero_patch_info = \<lparr>pi_sequence = 0, pi_address = replicate 4 0, pi_name = replicate 256 0\<rparr>"

definition zero_patch_set :: wmt_patch_set where
  "zero_patch_set = \<lparr>ps_count = 0, ps_seen = 0, ps_records = replicate 10 zero_patch_info\<rparr>"

section \<open>Operations\<close>

definition wmt_patch_build_version ::
  "bytes option \<Rightarrow> nat \<Rightarrow> bytes option \<Rightarrow> (int \<times> bytes option) option" where
  "wmt_patch_build_version header sz version =
     (case (header, version) of
        (Some h, Some v) \<Rightarrow>
          if sz < 16 then Some (- EMSGSIZE, version)
          else do {
            src \<leftarrow> slice h 0 15;
            v \<leftarrow> blit v 0 src;
            v \<leftarrow> wr v 15 0;
            Some (0, Some v)
          }
      | _ \<Rightarrow> Some (- EINVAL, version))"

text \<open>Result 0 accepts the header, 1 skips another firmware version.\<close>

definition wmt_patch_parse ::
  "bytes option \<Rightarrow> nat \<Rightarrow> bytes option \<Rightarrow> u16 \<Rightarrow> wmt_patch_file option
     \<Rightarrow> (int \<times> wmt_patch_file option) option" where
  "wmt_patch_parse header sz basename firmware output =
     (case (header, basename, output) of
        (Some h, Some name, Some out) \<Rightarrow>
          if sz < WMT_PATCH_HEADER_SIZE then Some (- EMSGSIZE, output)
          else do {
            name_length \<leftarrow> strnlen name WMT_PATCH_NAME_SIZE;
            if name_length = 0 \<or> name_length = WMT_PATCH_NAME_SIZE then Some (- EINVAL, output)
            else do {
              slash \<leftarrow> strchr name (of_char CHR ''/'');
              if slash \<noteq> None then Some (- EINVAL, output)
              else do {
                h23 \<leftarrow> rd h 23;
                if ucast h23 \<noteq> firmware AND 0xff then Some (1, output)
                else do {
                  h24 \<leftarrow> rd h 24;
                  let count = ucast (drop_bit 4 h24);
                  let sequence = ucast (h24 AND 0x0f);
                  if count = 0 \<or> unat count > WMT_MAX_PATCHES \<or> sequence = 0 \<or> sequence > count
                  then Some (- EINVAL, output)
                  else do {
                    addr \<leftarrow> slice h 25 3;
                    address \<leftarrow> blit (replicate 4 0) 1 addr;
                    src \<leftarrow> slice name 0 (name_length + 1);
                    nm \<leftarrow> blit (replicate 256 0) 0 src;
                    Some (0, Some \<lparr>pf_count = count, pf_info =
                      \<lparr>pi_sequence = sequence, pi_address = address, pi_name = nm\<rparr>\<rparr>)
                  }
                }
              }
            }
          }
      | _ \<Rightarrow> Some (- EINVAL, output))"

text \<open>The three assignments that record an accepted file.\<close>

definition patch_set_store :: "wmt_patch_set \<Rightarrow> wmt_patch_file \<Rightarrow> wmt_patch_set option" where
  "patch_set_store st file = do {
     records \<leftarrow> wr (ps_records st) (unat (pi_sequence (pf_info file) - 1)) (pf_info file);
     Some (st\<lparr>ps_records := records, ps_count := pf_count file,
             ps_seen := ps_seen st OR push_bit (unat (pi_sequence (pf_info file) - 1)) 1\<rparr>)
   }"

definition wmt_patch_set_add ::
  "wmt_patch_set option \<Rightarrow> wmt_patch_file option \<Rightarrow> (int \<times> wmt_patch_set option) option" where
  "wmt_patch_set_add st file =
     (case (st, file) of
        (Some s, Some f) \<Rightarrow>
          if pf_count f = 0 \<or> unat (pf_count f) > WMT_MAX_PATCHES
             \<or> pi_sequence (pf_info f) = 0 \<or> pi_sequence (pf_info f) > pf_count f
             \<or> memchr (pi_name (pf_info f)) 0 256 = None
          then Some (- EINVAL, st)
          else if ps_count s \<noteq> 0 \<and> ps_count s \<noteq> pf_count f then Some (- EINVAL, st)
          else if ps_seen s AND push_bit (unat (pi_sequence (pf_info f) - 1)) 1 \<noteq> 0
          then Some (- EEXIST, st)
          else do {
            s \<leftarrow> patch_set_store s f;
            Some (0, Some s)
          }
      | _ \<Rightarrow> Some (- EINVAL, st))"

definition wmt_patch_set_complete :: "wmt_patch_set option \<Rightarrow> int" where
  "wmt_patch_set_complete st =
     (case st of None \<Rightarrow> - EINVAL
      | Some s \<Rightarrow>
        if unat (ps_count s) > WMT_MAX_PATCHES then - EINVAL
        else if ps_count s = 0 then - ENOENT
        else if ps_seen s = push_bit (unat (ps_count s)) 1 - 1 then 0 else - ENODATA)"

section \<open>Well-formedness and abstraction\<close>

text \<open>The shape of the C arrays, and what a file accepted by the decoder satisfies.\<close>

definition wf_info :: "wmt_patch_info \<Rightarrow> bool" where
  "wf_info i \<longleftrightarrow> length (pi_address i) = 4 \<and> length (pi_name i) = 256"

definition valid_file :: "wmt_patch_file \<Rightarrow> bool" where
  "valid_file f \<longleftrightarrow> pf_count f \<noteq> 0 \<and> unat (pf_count f) \<le> 10 \<and> pi_sequence (pf_info f) \<noteq> 0
     \<and> pi_sequence (pf_info f) \<le> pf_count f \<and> 0 \<in> set (take 256 (pi_name (pf_info f)))"

definition patch_slot :: "wmt_patch_file \<Rightarrow> nat" where
  "patch_slot f = unat (pi_sequence (pf_info f)) - 1"

definition patch_lookup :: "wmt_patch_set \<Rightarrow> nat \<Rightarrow> wmt_patch_info option" where
  "patch_lookup s k = (if bit (ps_seen s) k then Some (ps_records s ! k) else None)"

text \<open>
  The set as the code maintains it: ten records, presence bits only below the count, each present
  record filed under its own sequence number, absent records still zero.
\<close>

definition wf_patch_set :: "wmt_patch_set \<Rightarrow> bool" where
  "wf_patch_set s \<longleftrightarrow> length (ps_records s) = 10 \<and> unat (ps_count s) \<le> 10
     \<and> (ps_count s = 0 \<longleftrightarrow> ps_seen s = 0)
     \<and> (\<forall>k. bit (ps_seen s) k \<longrightarrow> k < unat (ps_count s)
          \<and> unat (pi_sequence (ps_records s ! k)) = Suc k
          \<and> 0 \<in> set (take 256 (pi_name (ps_records s ! k))))
     \<and> (\<forall>k<10. \<not> bit (ps_seen s) k \<longrightarrow> ps_records s ! k = zero_patch_info)"

section \<open>The set operations\<close>

lemma wf_zero_patch_set: "wf_patch_set zero_patch_set"
  by (simp add: wf_patch_set_def zero_patch_set_def)

lemma patch_slot_eq:
  assumes "valid_file f"
  shows "unat (pi_sequence (pf_info f) - 1) = patch_slot f"
    and "patch_slot f < unat (pf_count f)" "patch_slot f < 10"
    and "unat (pi_sequence (pf_info f)) = Suc (patch_slot f)"
proof -
  have 1: "pi_sequence (pf_info f) \<noteq> 0" "unat (pi_sequence (pf_info f)) \<le> unat (pf_count f)"
    "unat (pf_count f) \<le> 10"
    using assms by (auto simp: valid_file_def word_le_nat_alt)
  then have 2: "unat (pi_sequence (pf_info f)) \<noteq> 0" by (simp add: unsigned_eq_0_iff)
  show "unat (pi_sequence (pf_info f) - 1) = patch_slot f"
    using 1 2 by (simp add: patch_slot_def unat_minus_one)
  show "patch_slot f < unat (pf_count f)" "patch_slot f < 10"
    "unat (pi_sequence (pf_info f)) = Suc (patch_slot f)"
    using 1 2 by (auto simp: patch_slot_def)
qed

lemma patch_set_add_cases:
  assumes "wf_patch_set s"
  shows "wmt_patch_set_add (Some s) (Some f) =
    (if \<not> valid_file f then Some (- EINVAL, Some s)
     else if ps_count s \<noteq> 0 \<and> ps_count s \<noteq> pf_count f then Some (- EINVAL, Some s)
     else if patch_lookup s (patch_slot f) \<noteq> None then Some (- EEXIST, Some s)
     else Some (0, Some (s\<lparr>ps_records := (ps_records s)[patch_slot f := pf_info f],
                         ps_count := pf_count f,
                         ps_seen := ps_seen s OR push_bit (patch_slot f) 1\<rparr>)))"
proof (cases "valid_file f")
  case False
  then show ?thesis
    by (auto simp: wmt_patch_set_add_def valid_file_def patch_const_defs memchr_None_iff not_le)
next
  case True
  note slot = patch_slot_eq [OF True]
  have "length (ps_records s) = 10" using assms by (simp add: wf_patch_set_def)
  with True slot show ?thesis
    by (auto simp: wmt_patch_set_add_def patch_set_store_def valid_file_def patch_const_defs
        memchr_None_iff patch_lookup_def test_exp_bit)
qed

lemma patch_set_add_total:
  assumes "wf_patch_set s"
  obtains rc s' where "wmt_patch_set_add (Some s) (Some f) = Some (rc, Some s')" "rc \<le> 0" "- 4095 \<le> rc"
  using patch_set_add_cases [OF assms, of f] by (simp split: if_splits)

lemma patch_set_add_wf:
  assumes wf: "wf_patch_set s" and add: "wmt_patch_set_add (Some s) (Some f) = Some (rc, Some s')"
  shows "wf_patch_set s'"
proof (cases "rc = 0")
  case False
  then show ?thesis
    using add wf by (auto simp: patch_set_add_cases [OF wf] split: if_splits)
next
  case True
  then have v: "valid_file f" and cnt: "ps_count s = 0 \<or> ps_count s = pf_count f"
    and s': "s' = s\<lparr>ps_records := (ps_records s)[patch_slot f := pf_info f],
                ps_count := pf_count f, ps_seen := ps_seen s OR push_bit (patch_slot f) 1\<rparr>"
    using add by (auto simp: patch_set_add_cases [OF wf] split: if_splits)
  note slot = patch_slot_eq [OF v]
  have bits: "bit (ps_seen s') k \<longleftrightarrow> bit (ps_seen s) k \<or> k = patch_slot f" for k
    using slot(3) by (simp add: s' test_exp_bit)
  have old: "k < unat (pf_count f)" if "bit (ps_seen s) k" for k
    using that wf cnt by (auto simp: wf_patch_set_def)
  have "ps_seen s' \<noteq> 0" using bits [of "patch_slot f"] by auto
  then show ?thesis
    using wf v slot old unfolding wf_patch_set_def bits
    by (auto simp: s' valid_file_def nth_list_update)
qed

lemma patch_set_add_lookup:
  assumes wf: "wf_patch_set s" and add: "wmt_patch_set_add (Some s) (Some f) = Some (0, Some s')"
  shows "valid_file f" "ps_count s = 0 \<or> ps_count s = pf_count f"
    "patch_lookup s (patch_slot f) = None" "ps_count s' = pf_count f"
    "patch_lookup s' = (patch_lookup s)(patch_slot f \<mapsto> pf_info f)"
proof -
  show v: "valid_file f" and "ps_count s = 0 \<or> ps_count s = pf_count f"
    and "patch_lookup s (patch_slot f) = None" and "ps_count s' = pf_count f"
    using add by (auto simp: patch_set_add_cases [OF wf] split: if_splits)
  have s': "s' = s\<lparr>ps_records := (ps_records s)[patch_slot f := pf_info f],
                ps_count := pf_count f, ps_seen := ps_seen s OR push_bit (patch_slot f) 1\<rparr>"
    using add by (auto simp: patch_set_add_cases [OF wf] split: if_splits)
  note slot = patch_slot_eq [OF v]
  have "length (ps_records s) = 10" using wf by (simp add: wf_patch_set_def)
  then show "patch_lookup s' = (patch_lookup s)(patch_slot f \<mapsto> pf_info f)"
    using slot(3) by (auto simp: s' patch_lookup_def test_exp_bit fun_eq_iff nth_list_update)
qed

text \<open>A well-formed set is determined by its count and its entries.\<close>

lemma patch_set_ext:
  assumes "wf_patch_set s" "wf_patch_set t" "ps_count s = ps_count t"
    and "patch_lookup s = patch_lookup t"
  shows "s = t"
proof -
  have bits: "bit (ps_seen s) k \<longleftrightarrow> bit (ps_seen t) k" for k
    using fun_cong [OF assms(4), of k] by (auto simp: patch_lookup_def split: if_splits)
  then have seen: "ps_seen s = ps_seen t" by (simp add: bit_eq_iff)
  have "ps_records s = ps_records t"
  proof (rule nth_equalityI)
    fix k
    assume "k < length (ps_records s)"
    then show "ps_records s ! k = ps_records t ! k"
      using assms(1,2) bits [of k] fun_cong [OF assms(4), of k]
      by (cases "bit (ps_seen t) k") (auto simp: wf_patch_set_def patch_lookup_def)
  qed (use assms(1,2) in \<open>simp add: wf_patch_set_def\<close>)
  with seen assms(3) show ?thesis by simp
qed

text \<open>Successful insertions as an optional function, for the commuting-collector contract.\<close>

definition patch_add :: "wmt_patch_set \<Rightarrow> wmt_patch_file \<Rightarrow> wmt_patch_set option" where
  "patch_add s f =
     (case wmt_patch_set_add (Some s) (Some f) of
        Some (rc, Some s') \<Rightarrow> if rc = 0 then Some s' else None
      | _ \<Rightarrow> None)"

lemma patch_add_Some:
  "wf_patch_set s \<Longrightarrow> patch_add s f = Some s' \<longleftrightarrow> wmt_patch_set_add (Some s) (Some f) = Some (0, Some s')"
  by (auto simp: patch_add_def patch_set_add_cases split: if_splits)

lemma patch_add_ex:
  assumes "wf_patch_set s" "valid_file f" "ps_count s = 0 \<or> ps_count s = pf_count f"
    and "patch_lookup s (patch_slot f) = None"
  shows "\<exists>s'. patch_add s f = Some s'"
  using assms by (auto simp: patch_add_Some patch_set_add_cases)

interpretation patches: commuting_add wf_patch_set patch_add
proof
  fix s f s'
  assume "wf_patch_set s" "patch_add s f = Some s'"
  then show "wf_patch_set s'" using patch_set_add_wf patch_add_Some by blast
next
  fix s f g s1 s2
  assume wf: "wf_patch_set s" and f: "patch_add s f = Some s1" and g: "patch_add s1 g = Some s2"
  have wf1: "wf_patch_set s1" using wf f patch_set_add_wf patch_add_Some by blast
  then have wf2: "wf_patch_set s2" using g patch_set_add_wf patch_add_Some by blast
  note F = patch_set_add_lookup [OF wf f [unfolded patch_add_Some [OF wf]]]
  note G = patch_set_add_lookup [OF wf1 g [unfolded patch_add_Some [OF wf1]]]
  have cnt0: "pf_count f \<noteq> 0" using F(1) by (simp add: valid_file_def)
  then have cnt: "pf_count g = pf_count f" using F(4) G(2) by auto
  have slots: "patch_slot g \<noteq> patch_slot f" using F(5) G(3) by auto
  obtain s1' where g': "patch_add s g = Some s1'"
    using patch_add_ex [OF wf G(1)] F(2,5) G(3) slots cnt by auto
  have wf1': "wf_patch_set s1'" using wf g' patch_set_add_wf patch_add_Some by blast
  note G' = patch_set_add_lookup [OF wf g' [unfolded patch_add_Some [OF wf]]]
  obtain s2' where f': "patch_add s1' f = Some s2'"
    using patch_add_ex [OF wf1' F(1)] F(3) G'(4,5) slots cnt by auto
  have wf2': "wf_patch_set s2'" using wf1' f' patch_set_add_wf patch_add_Some by blast
  note F' = patch_set_add_lookup [OF wf1' f' [unfolded patch_add_Some [OF wf1']]]
  have "s2' = s2"
    using wf2' wf2 F(5) G(4,5) F'(4,5) G'(5) slots cnt
    by (intro patch_set_ext) (auto simp: fun_upd_twist)
  with g' f' show "\<exists>s1'. patch_add s g = Some s1' \<and> patch_add s1' f = Some s2" by blast
qed

lemma patch_set_complete_iff:
  assumes "wf_patch_set s"
  shows "wmt_patch_set_complete (Some s) = 0 \<longleftrightarrow>
    ps_count s \<noteq> 0 \<and> dom (patch_lookup s) = {..<unat (ps_count s)}"
proof -
  let ?n = "unat (ps_count s)"
  have n: "?n \<le> 10" using assms by (simp add: wf_patch_set_def)
  have mask: "push_bit ?n 1 - 1 = (mask ?n :: u32)" by (simp add: mask_eq_exp_minus_1)
  have "ps_seen s = mask ?n \<longleftrightarrow> (\<forall>k. bit (ps_seen s) k \<longleftrightarrow> k < ?n)"
  proof
    assume "\<forall>k. bit (ps_seen s) k \<longleftrightarrow> k < ?n"
    then show "ps_seen s = mask ?n" using n by (intro bit_word_eqI) (simp add: bit_mask_iff)
  qed (use n in \<open>auto simp: bit_mask_iff\<close>)
  also have "\<dots> \<longleftrightarrow> dom (patch_lookup s) = {..<?n}"
    by (auto simp: patch_lookup_def dom_def)
  finally show ?thesis
    using n mask by (simp add: wmt_patch_set_complete_def patch_const_defs)
qed



section \<open>The header decoder\<close>

text \<open>What a decoded header says, read off the bytes and the file name.\<close>

definition file_of_header :: "bytes \<Rightarrow> bytes \<Rightarrow> wmt_patch_file" where
  "file_of_header h name =
     \<lparr>pf_count = ucast (drop_bit 4 (h ! 24)), pf_info =
        \<lparr>pi_sequence = ucast (h ! 24 AND 15), pi_address = [0, h ! 25, h ! 26, h ! 27],
         pi_name = str_of name @ replicate (256 - length (str_of name)) 0\<rparr>\<rparr>"

definition valid_basename :: "bytes \<Rightarrow> bool" where
  "valid_basename name \<longleftrightarrow> str_of name \<noteq> [] \<and> length (str_of name) < 256
     \<and> of_char CHR ''/'' \<notin> set (str_of name)"

lemma slice_three: "28 \<le> length h \<Longrightarrow> slice h 25 3 = Some [h ! 25, h ! 26, h ! 27]"
  by (simp add: Cons_nth_drop_Suc [symmetric] take_Cons' numeral_eq_Suc)

lemma slice_name:
  assumes "0 \<in> set name"
  shows "slice name 0 (Suc (length (str_of name))) = Some (str_of name @ [0])"
  using str_of_less_iff [of name] nth_str_of [of name] assms
  by (simp add: take_Suc_conv_app_nth str_of_take)


lemma low_byte_eq: "ucast (b::byte) = (w::u16) AND 0xff \<longleftrightarrow> b = ucast w"
proof -
  have "w AND 0xff = take_bit 8 w" by (simp add: take_bit_eq_mask mask_eq_exp_minus_1)
  also have "\<dots> = ucast (ucast w :: byte)" by (intro bit_word_eqI) (auto simp: bit_simps)
  finally have "w AND 0xff = ucast (ucast w :: byte)" .
  moreover have "ucast (ucast c :: u16) = c" for c :: byte
    by (intro bit_word_eqI) (simp add: bit_simps)
  ultimately show ?thesis by metis
qed

lemma patch_parse_eq:
  assumes nul: "0 \<in> set name"
  shows "wmt_patch_parse (Some h) (length h) (Some name) fw (Some out) = Some
    (if length h < 28 then (- EMSGSIZE, Some out)
     else if \<not> valid_basename name then (- EINVAL, Some out)
     else if h ! 23 \<noteq> ucast fw then (1, Some out)
     else if valid_file (file_of_header h name) then (0, Some (file_of_header h name))
     else (- EINVAL, Some out))"
proof (cases "length h < 28")
  case True
  then show ?thesis by (simp add: wmt_patch_parse_def patch_const_defs)
next
  case False
  let ?n = "length (str_of name)"
  have n: "strnlen name 256 = Some (min 256 ?n)"
    using nul str_of_less_iff [of name] by (simp add: strnlen_Some_iff)
  obtain r where r: "strchr name 47 = Some r" "r = None \<longleftrightarrow> 47 \<notin> set (str_of name)"
    using strchr_outcome [OF nul, of 47] by auto
  show ?thesis
  proof (cases "valid_basename name")
    case False
    then show ?thesis using n r \<open>\<not> length h < 28\<close>
      by (auto simp: wmt_patch_parse_def patch_const_defs valid_basename_def min_def)
  next
    case True
    then have ok: "str_of name \<noteq> []" "?n < 256" "r = None" using r by (auto simp: valid_basename_def)
    have min: "min 256 ?n = ?n" using ok by simp
    have addr: "blit (replicate 4 0) 1 [h ! 25, h ! 26, h ! 27] = Some [0, h ! 25, h ! 26, h ! 27]"
      by (simp add: blit_in numeral_eq_Suc)
    have nm: "blit (replicate 256 0) 0 (str_of name @ [0])
        = Some (str_of name @ replicate (256 - ?n) 0)"
      using ok(2) by (simp add: blit_in Suc_diff_Suc flip: replicate_Suc)
    have nz: "0 \<in> set (take 256 (str_of name @ replicate (256 - ?n) 0))" using ok(2) by simp
    have vf: "valid_file (file_of_header h name) \<longleftrightarrow>
        \<not> (ucast (drop_bit 4 (h ! 24)) = (0::u32) \<or> 10 < unat (ucast (drop_bit 4 (h ! 24)) :: u32)
         \<or> ucast (h ! 24 AND 15) = (0::u32)
         \<or> ucast (drop_bit 4 (h ! 24)) < (ucast (h ! 24 AND 15) :: u32))"
      using nz by (auto simp: valid_file_def file_of_header_def not_less)
    show ?thesis using True \<open>\<not> length h < 28\<close> ok r(1) nul unfolding vf
      by (simp add: wmt_patch_parse_def patch_const_defs n min slice_three slice_name low_byte_eq
          addr [simplified] nm file_of_header_def Let_def del: slice_in)
  qed
qed


section \<open>Properties\<close>

lemma unat_byte: "unat (ucast b :: u32) = unat (b :: byte)"
proof -
  have "unat b < 2 ^ 8" using unsigned_less [of b] by simp
  then show ?thesis by (simp add: unsigned_ucast_eq take_bit_nat_eq_self)
qed

lemma count_byte:
  fixes c q :: byte
  shows "ucast c \<noteq> (0::u32) \<and> unat (ucast c :: u32) \<le> 10 \<and> ucast q \<noteq> (0::u32) \<and> ucast q \<le> (ucast c :: u32)
    \<longleftrightarrow> c \<in> {1..10} \<and> q \<in> {1..c}"
proof -
  have z: "ucast b \<noteq> (0::u32) \<longleftrightarrow> 1 \<le> unat b" for b :: byte
    by (metis unat_byte unsigned_eq_0_iff less_one not_le)
  show ?thesis unfolding z word_le_nat_alt unat_byte atLeastAtMost_iff by auto
qed

lemma foldo_patch_add:
  assumes "foldo patch_add fs s = Some t" "wf_patch_set s"
  shows "dom (patch_lookup t) = dom (patch_lookup s) \<union> patch_slot ` set fs
    \<and> (\<forall>f \<in> set fs. pf_count f = ps_count t) \<and> (fs = [] \<longrightarrow> t = s)
    \<and> (ps_count s \<noteq> 0 \<longrightarrow> ps_count t = ps_count s)"
  using assms
proof (induction fs arbitrary: s)
  case (Cons f fs)
  obtain s1 where s1: "patch_add s f = Some s1" and rest: "foldo patch_add fs s1 = Some t"
    using Cons.prems(1) by (auto split: option.splits)
  note F = patch_set_add_lookup [OF Cons.prems(2) s1 [unfolded patch_add_Some [OF Cons.prems(2)]]]
  have "ps_count s1 \<noteq> 0" using F(1,4) by (simp add: valid_file_def)
  then show ?case
    using Cons.IH [OF rest patches.valid_add [OF Cons.prems(2) s1]] F by auto
qed simp

text \<open>C17: Decoding a patch header never reads outside the header or the name, accepts exactly the
  well-formed headers of the wanted firmware version with a plain file name, and then reports the
  bytes of the header with the name padded by zeros. A header of another version gives 1, every
  refusal leaves the output unchanged.\<close>

theorem patch_parse_outcome:
  assumes "0 \<in> set name"
  shows "\<exists>rc out'. wmt_patch_parse (Some h) (length h) (Some name) fw (Some out) = Some (rc, Some out')
    \<and> (rc = 0 \<longleftrightarrow> 28 \<le> length h \<and> valid_basename name \<and> h ! 23 = ucast fw
          \<and> drop_bit 4 (h ! 24) \<in> {1..10} \<and> h ! 24 AND 15 \<in> {1..drop_bit 4 (h ! 24)})
    \<and> (rc = 1 \<longleftrightarrow> 28 \<le> length h \<and> valid_basename name \<and> h ! 23 \<noteq> ucast fw)
    \<and> out' = (if rc = 0 then file_of_header h name else out)"
proof -
  have "valid_file (file_of_header h name) \<longleftrightarrow>
      drop_bit 4 (h ! 24) \<in> {1..10} \<and> h ! 24 AND 15 \<in> {1..drop_bit 4 (h ! 24)}"
    if "valid_basename name"
  proof -
    have "0 \<in> set (take 256 (pi_name (pf_info (file_of_header h name))))"
      using that by (simp add: valid_basename_def file_of_header_def)
    then show ?thesis
      using count_byte [of "drop_bit 4 (h ! 24)" "h ! 24 AND 15"]
      by (simp add: valid_file_def file_of_header_def)
  qed
  then show ?thesis unfolding patch_parse_eq [OF assms] by auto
qed

definition sample_header :: bytes where
  "sample_header = replicate 23 0 @ [7, 0x21, 1, 2, 3]"

theorem patch_parse_outcome_witness:
  "0 \<in> set (cstr ''p.bin'') \<and> (\<exists>rc out'. wmt_patch_parse (Some sample_header) (length sample_header)
      (Some (cstr ''p.bin'')) 0x8a07 (Some \<lparr>pf_count = 0, pf_info = zero_patch_info\<rparr>)
        = Some (rc, Some out') \<and> rc = 0 \<and> pf_count out' = 2 \<and> pi_sequence (pf_info out') = 1)"
proof -
  have nul: "0 \<in> set (cstr ''p.bin'')" by (simp add: cstr_def)
  have facts: "28 \<le> length sample_header" "sample_header ! 23 = ucast (0x8a07::u16)"
    "sample_header ! 24 = 0x21" "valid_basename (cstr ''p.bin'')"
    by (simp_all add: sample_header_def nth_append valid_basename_def cstr_def ascii_def str_of_def)
  then show ?thesis
    using nul patch_parse_outcome [OF nul, of sample_header "0x8a07" "\<lparr>pf_count = 0, pf_info = zero_patch_info\<rparr>"]
    by (auto simp: file_of_header_def)
qed

text \<open>C10: Adding a file to a well-formed set always returns and keeps the set well-formed. It
  succeeds exactly for a valid file that agrees with the set's count and whose sequence number is
  still free, and then updates the set's map at that number only; a taken number gives EEXIST, any
  refusal leaves the set unchanged.\<close>

theorem patch_set_add_refines:
  assumes "wf_patch_set s"
  shows "\<exists>rc s'. wmt_patch_set_add (Some s) (Some f) = Some (rc, Some s') \<and> wf_patch_set s'
    \<and> (rc = 0 \<longleftrightarrow> valid_file f \<and> ps_count s \<in> {0, pf_count f} \<and> patch_lookup s (patch_slot f) = None)
    \<and> (rc = - EEXIST \<longrightarrow> patch_lookup s (patch_slot f) \<noteq> None) \<and> (rc \<noteq> 0 \<longrightarrow> s' = s)
    \<and> (rc = 0 \<longrightarrow> patch_lookup s' = (patch_lookup s)(patch_slot f \<mapsto> pf_info f))"
proof -
  obtain rc s' where add: "wmt_patch_set_add (Some s) (Some f) = Some (rc, Some s')"
    using patch_set_add_total [OF assms] by blast
  have "rc = 0 \<longrightarrow> patch_lookup s' = (patch_lookup s)(patch_slot f \<mapsto> pf_info f)"
    using patch_set_add_lookup(5) [OF assms] add by blast
  moreover have "(rc = 0 \<longleftrightarrow> valid_file f \<and> ps_count s \<in> {0, pf_count f} \<and> patch_lookup s (patch_slot f) = None)
      \<and> (rc = - EEXIST \<longrightarrow> patch_lookup s (patch_slot f) \<noteq> None) \<and> (rc \<noteq> 0 \<longrightarrow> s' = s)"
    using add unfolding patch_set_add_cases [OF assms] by (auto split: if_splits)
  ultimately show ?thesis using add patch_set_add_wf [OF assms add] by blast
qed

definition sample_file :: wmt_patch_file where
  "sample_file = \<lparr>pf_count = 1, pf_info =
     \<lparr>pi_sequence = 1, pi_address = [0, 1, 2, 3], pi_name = cstr ''p.bin'' @ replicate 250 0\<rparr>\<rparr>"

lemma sample_file_fresh:
  "valid_file sample_file" "patch_slot sample_file = 0" "pf_count sample_file = 1"
  "ps_count zero_patch_set = 0" "patch_lookup zero_patch_set = Map.empty"
  by (auto simp: sample_file_def valid_file_def cstr_def ascii_def patch_slot_def zero_patch_set_def
      patch_lookup_def)

theorem patch_set_add_refines_witness:
  "wf_patch_set zero_patch_set \<and> (\<exists>s'. wmt_patch_set_add (Some zero_patch_set) (Some sample_file)
     = Some (0, Some s') \<and> patch_lookup s' = [0 \<mapsto> pf_info sample_file])"
  using patch_set_add_refines [OF wf_zero_patch_set, of sample_file] sample_file_fresh
    wf_zero_patch_set by auto

text \<open>C18: Collecting patch files does not depend on the order in which the directory lists them:
  every reordering is accepted with the same final set. The set is complete exactly when the
  files are there and cover all sequence numbers of their common count.\<close>

theorem patch_collect_order:
  assumes "foldo patch_add fs zero_patch_set = Some s"
  shows "wf_patch_set s \<and> (\<forall>gs. mset gs = mset fs \<longrightarrow> foldo patch_add gs zero_patch_set = Some s)
    \<and> (wmt_patch_set_complete (Some s) = 0 \<longleftrightarrow>
         fs \<noteq> [] \<and> patch_slot ` set fs = {..<unat (pf_count (hd fs))})"
proof -
  have wf: "wf_patch_set s" using patches.foldo_valid [OF wf_zero_patch_set assms] .
  note F = foldo_patch_add [OF assms wf_zero_patch_set, unfolded sample_file_fresh]
  have "wmt_patch_set_complete (Some s) = 0 \<longleftrightarrow>
      fs \<noteq> [] \<and> patch_slot ` set fs = {..<unat (pf_count (hd fs))}"
  proof (cases fs)
    case Nil
    then show ?thesis using F wf by (simp add: patch_set_complete_iff sample_file_fresh)
  next
    case (Cons f fs')
    then have c: "pf_count f = ps_count s" using F by simp
    obtain s1 where "patch_add zero_patch_set f = Some s1"
      using assms Cons by (auto split: option.splits)
    then have "pf_count f \<noteq> 0"
      using patch_set_add_lookup(1) wf_zero_patch_set patch_add_Some by (metis valid_file_def)
    then show ?thesis using F c Cons by (simp add: patch_set_complete_iff [OF wf])
  qed
  then show ?thesis using wf patches.foldo_perm [OF wf_zero_patch_set _ assms] by blast
qed

theorem patch_collect_order_witness:
  "\<exists>s. foldo patch_add [sample_file] zero_patch_set = Some s \<and> wmt_patch_set_complete (Some s) = 0"
proof -
  obtain s where s: "foldo patch_add [sample_file] zero_patch_set = Some s"
    using patch_add_ex [OF wf_zero_patch_set, of sample_file] sample_file_fresh by auto
  show ?thesis using s patch_collect_order [OF s] sample_file_fresh by auto
qed

end
