(* ===== verification/Wmt_Version.thy ===== *)
theory Wmt_Version
  imports Wmt_Patch
begin

text \<open>
  The version text of a Bluetooth firmware image, \<open>find_bytes\<close> and \<open>bt_version\<close> of
  \<open>wmt-launcher/firmware.c\<close>, and the reference definition on byte lists that they implement.
\<close>

definition WMT_BT_VERSION_SIZE :: nat where "WMT_BT_VERSION_SIZE = 92"

section \<open>Operations\<close>

text \<open>The search loop of \<open>find_bytes\<close>; positions are offsets in the buffer \<open>data\<close>.\<close>

function find_loop :: "bytes \<Rightarrow> nat \<Rightarrow> bytes \<Rightarrow> nat \<Rightarrow> nat \<Rightarrow> nat \<Rightarrow> nat option option" where
  "find_loop data base needle len limit i =
     (if i \<le> limit then do {
        here \<leftarrow> slice data (base + i) len;
        wanted \<leftarrow> slice needle 0 len;
        if here = wanted then Some (Some (base + i))
        else find_loop data base needle len limit (Suc i)
      } else Some None)"
  by pat_completeness auto
termination
  by (relation "measure (\<lambda>(data, base, needle, len, limit, i). Suc limit - i)") auto

declare find_loop.simps [simp del]

definition find_bytes :: "bytes \<Rightarrow> nat \<Rightarrow> nat \<Rightarrow> bytes \<Rightarrow> nat option option" where
  "find_bytes data base sz needle = do {
     len \<leftarrow> strlen needle;
     if sz < len then Some None else find_loop data base needle len (sz - len) 0
   }"

text \<open>The copy of the recognised text: bounded, terminated, cut at the first line feed.\<close>

definition bt_copy :: "bytes \<Rightarrow> nat \<Rightarrow> nat \<Rightarrow> bytes \<Rightarrow> bytes option" where
  "bt_copy data start len version = do {
     let len = (if len \<ge> WMT_BT_VERSION_SIZE then WMT_BT_VERSION_SIZE - 1 else len);
     src \<leftarrow> slice data start len;
     version \<leftarrow> blit version 0 src;
     version \<leftarrow> wr version len 0;
     newline \<leftarrow> strchr version 10;
     (case newline of None \<Rightarrow> Some version | Some i \<Rightarrow> wr version i 0)
   }"

text \<open>The result is the return value, the version buffer and \<open>*present\<close>.\<close>

definition bt_version :: "bytes \<Rightarrow> nat \<Rightarrow> bytes \<Rightarrow> (int \<times> bytes \<times> bool) option" where
  "bt_version data sz version = do {
     start \<leftarrow> find_bytes data 0 sz (cstr ''BABEFACEBABEFACE'');
     (case start of
        None \<Rightarrow> do {
          stray \<leftarrow> find_bytes data 0 sz (cstr ''DEADBEEFDEADBEEF'');
          Some (if stray \<noteq> None then - EBADMSG else 0, version, False)
        }
      | Some start \<Rightarrow> do {
          end \<leftarrow> find_bytes data (start + 16) (sz - start - 16) (cstr ''DEADBEEFDEADBEEF'');
          (case end of
             None \<Rightarrow> Some (- EBADMSG, version, False)
           | Some end \<Rightarrow> do {
               interval \<leftarrow> slice data start (end - start);
               let span = (case memchr interval 0 (end - start) of None \<Rightarrow> end - start | Some n \<Rightarrow> n);
               neptune \<leftarrow> find_bytes data start span (cstr ''t-neptune'');
               (case neptune of
                  Some p \<Rightarrow> do {
                    version \<leftarrow> bt_copy data p (end - p) version;
                    Some (0, version, True)
                  }
                | None \<Rightarrow> do {
                    debug \<leftarrow> find_bytes data start span (cstr ''= debug'');
                    if debug \<noteq> None then do {
                      version \<leftarrow> bt_copy data 0 14 version;
                      Some (0, version, True)
                    } else Some (0, version, False)
                  })
             })
        })
   }"

section \<open>Reference definition\<close>

text \<open>The first occurrence of a byte sequence.\<close>

fun first_occ :: "bytes \<Rightarrow> bytes \<Rightarrow> nat option" where
  "first_occ p [] = (if p = [] then Some 0 else None)"
| "first_occ p (x # xs) =
     (if take (length p) (x # xs) = p then Some 0 else map_option Suc (first_occ p xs))"

definition first_line :: "bytes \<Rightarrow> bytes" where
  "first_line t = takeWhile (\<lambda>c. c \<noteq> 0 \<and> c \<noteq> 10) t"

text \<open>None: the markers do not match up. Some None: no version text.\<close>

definition bt_text :: "bytes \<Rightarrow> bytes option option" where
  "bt_text d =
     (case first_occ (ascii ''BABEFACEBABEFACE'') d of
        None \<Rightarrow> if first_occ (ascii ''DEADBEEFDEADBEEF'') d = None then Some None else None
      | Some s \<Rightarrow>
        (case first_occ (ascii ''DEADBEEFDEADBEEF'') (drop (s + 16) d) of
           None \<Rightarrow> None
         | Some e \<Rightarrow>
           (let interval = take (e + 16) (drop s d) in
            case first_occ (ascii ''t-neptune'') (str_of interval) of
              Some p \<Rightarrow> Some (Some (first_line (take 91 (drop p interval))))
            | None \<Rightarrow>
              if first_occ (ascii ''= debug'') (str_of interval) = None then Some None
              else Some (Some (first_line (take 14 d))))))"

section \<open>The searches\<close>

lemma first_occ_short: "length d < length p \<Longrightarrow> first_occ p d = None"
  by (induction d) auto

lemma first_occ_bound: "first_occ p d = Some i \<Longrightarrow> i + length p \<le> length d"
proof (induction d arbitrary: i)
  case (Cons x xs)
  show ?case
  proof (cases "take (length p) (x # xs) = p")
    case True
    then have "length p \<le> length (x # xs)" by (metis length_take min.cobounded1)
    then show ?thesis using Cons.prems True by simp
  next
    case False
    then show ?thesis using Cons by auto
  qed
qed (simp split: if_splits)

lemma find_loop_eq:
  assumes "base + limit + len \<le> length data" "len \<le> length needle" "0 < len"
  shows "find_loop data base needle len limit i = Some (map_option (\<lambda>j. base + i + j)
    (first_occ (take len needle) (drop i (take (limit + len) (drop base data)))))"
  using assms
proof (induction data base needle len limit i rule: find_loop.induct)
  case (1 data base needle len limit i)
  let ?w = "take (limit + len) (drop base data)" and ?p = "take len needle"
  have w: "length ?w = limit + len" and p: "length ?p = len" using 1(2,3) by simp_all
  show ?case
  proof (cases "i \<le> limit")
    case False
    then have "first_occ ?p (drop i ?w) = None" using w p 1(4) by (intro first_occ_short) simp
    with False show ?thesis by (subst find_loop.simps) simp
  next
    case True
    have here: "slice data (base + i) len = Some (take len (drop i ?w))"
      using True 1(2) by (simp add: take_drop add.commute min_def)
    have wanted: "slice needle 0 len = Some ?p" using 1(3) by simp
    show ?thesis
    proof (cases "take len (drop i ?w) = ?p")
      case True
      then have "first_occ ?p (drop i ?w) = Some 0" using p by (cases "drop i ?w") auto
      then show ?thesis using True here wanted \<open>i \<le> limit\<close> by (subst find_loop.simps) simp
    next
      case False
      have "drop i ?w = ?w ! i # drop (Suc i) ?w"
        using \<open>i \<le> limit\<close> w 1(4) by (intro Cons_nth_drop_Suc [symmetric]) simp
      then have "first_occ ?p (drop i ?w) = map_option Suc (first_occ ?p (drop (Suc i) ?w))"
        using False p by simp
      moreover have "find_loop data base needle len limit i = find_loop data base needle len limit (Suc i)"
        using False here wanted \<open>i \<le> limit\<close> by (subst find_loop.simps) simp
      ultimately show ?thesis
        using 1(1) [OF \<open>i \<le> limit\<close> here wanted False 1(2-4)]
        by (simp add: option.map_comp comp_def)
    qed
  qed
qed

lemma find_bytes_eq:
  assumes "base + sz \<le> length data" "0 \<in> set needle" "str_of needle \<noteq> []"
  shows "find_bytes data base sz needle =
    Some (map_option (\<lambda>j. base + j) (first_occ (str_of needle) (take sz (drop base data))))"
proof -
  have len: "strlen needle = Some (length (str_of needle))"
    using assms(2) by (simp add: strlen_Some_iff str_of_less_iff)
  show ?thesis
  proof (cases "sz < length (str_of needle)")
    case True
    then show ?thesis using assms(1) by (simp add: find_bytes_def len first_occ_short)
  next
    case False
    then show ?thesis
      using assms find_loop_eq [of base "sz - length (str_of needle)" "length (str_of needle)" data needle 0]
        length_str_of_le [of needle] str_of_take [of needle]
      by (simp add: find_bytes_def len)
  qed
qed


lemma str_of_cstr: "0 \<notin> set (ascii s) \<Longrightarrow> str_of (cstr s) = ascii s"
  by (simp add: cstr_def)

section \<open>The copy\<close>

lemma strchr_Some:
  "strchr b c = Some (Some i) \<Longrightarrow> c \<noteq> 0 \<Longrightarrow>
     i < length (str_of b) \<and> i < length b \<and> take i b = takeWhile (\<lambda>x. x \<noteq> c) (str_of b)"
proof (induction b c arbitrary: i rule: strchr.induct)
  case (2 x xs c)
  then show ?case by (cases i) (auto simp: str_of_def split: if_splits)
qed simp

lemma first_line_str: "takeWhile (\<lambda>x. x \<noteq> 10) (str_of t) = first_line t"
  by (simp add: str_of_def first_line_def takeWhile_takeWhile conj_commute)

lemma first_line_zero: "first_line (t @ 0 # r) = first_line t"
  unfolding first_line_def by (induction t) auto

lemma bt_copy_eq:
  assumes "start + len \<le> length data" "length version = 92"
  shows "\<exists>v. bt_copy data start len version = Some v \<and> length v = 92 \<and> 0 \<in> set v
    \<and> str_of v = first_line (take (min len 91) (drop start data))"
proof -
  define n where "n = min len 91"
  define t where "t = take n (drop start data)"
  let ?v = "t @ 0 # drop (Suc n) version"
  have n: "n < 92" "length t = n" using assms(1) by (auto simp: n_def t_def)
  have bound: "(if WMT_BT_VERSION_SIZE \<le> len then WMT_BT_VERSION_SIZE - 1 else len) = n"
    by (auto simp: WMT_BT_VERSION_SIZE_def n_def)
  have src: "slice data start n = Some t" using assms(1) by (auto simp: n_def t_def)
  have v: "blit version 0 t = Some (t @ drop n version)"
    using assms(2) n by (simp add: blit_in)
  have v0: "wr (t @ drop n version) n 0 = Some ?v"
    using assms(2) n by (simp add: list_update_append Cons_nth_drop_Suc [symmetric])
  have line: "takeWhile (\<lambda>x. x \<noteq> 10) (str_of ?v) = first_line t" 
    unfolding first_line_str by (rule first_line_zero)
  obtain r where r: "strchr ?v 10 = Some r" "r = None \<longleftrightarrow> 10 \<notin> set (str_of ?v)"
    using strchr_outcome [of ?v 10] by auto
  have copy: "bt_copy data start len version = (case r of None \<Rightarrow> Some ?v | Some i \<Rightarrow> wr ?v i 0)"
    unfolding bt_copy_def Let_def bound by (simp add: src v v0 r(1))
  show ?thesis
  proof (cases r)
    case None
    then have "takeWhile (\<lambda>x. x \<noteq> 10) (str_of ?v) = str_of ?v"
      using r by (subst takeWhile_eq_all_conv) auto
    with line have "str_of ?v = first_line t" by metis
    then show ?thesis using None copy n assms(2) unfolding t_def n_def by simp
  next
    case (Some i)
    note i = strchr_Some [OF r(1) [unfolded Some]]
    have "?v[i := 0] = takeWhile (\<lambda>x. x \<noteq> 10) (str_of ?v) @ 0 # drop (Suc i) ?v"
      using i by (simp add: upd_conv_take_nth_drop)
    moreover have "0 \<notin> set (takeWhile (\<lambda>x. x \<noteq> 10) (str_of ?v))"
      using str_of_nonzero set_takeWhileD by metis
    ultimately have "str_of (?v[i := 0]) = first_line t" "0 \<in> set (?v[i := 0])"
      using line by (simp_all only: str_of_append_zero) simp_all
    then show ?thesis using Some i copy n assms(2) by (simp add: t_def n_def)
  qed
qed

section \<open>The version text\<close>

lemma markers:
  "0 \<in> set (cstr s)"
  "str_of (cstr ''BABEFACEBABEFACE'') = ascii ''BABEFACEBABEFACE''" "length (ascii ''BABEFACEBABEFACE'') = 16"
  "str_of (cstr ''DEADBEEFDEADBEEF'') = ascii ''DEADBEEFDEADBEEF''" "length (ascii ''DEADBEEFDEADBEEF'') = 16"
  "str_of (cstr ''t-neptune'') = ascii ''t-neptune''" "str_of (cstr ''= debug'') = ascii ''= debug''"
  "ascii ''BABEFACEBABEFACE'' \<noteq> []" "ascii ''DEADBEEFDEADBEEF'' \<noteq> []"
  "ascii ''t-neptune'' \<noteq> []" "ascii ''= debug'' \<noteq> []"
  by (simp_all add: cstr_def ascii_def str_of_def)

lemma memchr_str_of:
  "(case memchr t 0 (length t) of None \<Rightarrow> length t | Some n \<Rightarrow> n) = length (str_of t)"
proof (cases "memchr t 0 (length t)")
  case None
  then have "0 \<notin> set t" by (simp add: memchr_None_iff)
  with None show ?thesis by (simp add: str_of_id)
next
  case (Some n)
  then have n: "n < length t" "t ! n = 0" "0 \<notin> set (take n t)" by (auto simp: memchr_Some_iff)
  have "str_of t = take n t"
    using id_take_nth_drop [OF n(1)] str_of_append_zero [OF n(3), of "drop (Suc n) t"] n(2) by simp
  then show ?thesis using Some n(1) by simp
qed

lemma bt_version_eq:
  assumes "14 \<le> length data" "length version = 92"
  shows "case bt_text data of
      None \<Rightarrow> bt_version data (length data) version = Some (- EBADMSG, version, False)
    | Some None \<Rightarrow> bt_version data (length data) version = Some (0, version, False)
    | Some (Some t) \<Rightarrow> \<exists>v. bt_version data (length data) version = Some (0, v, True)
        \<and> str_of v = t \<and> length v = 92 \<and> 0 \<in> set v"
proof (cases "first_occ (ascii ''BABEFACEBABEFACE'') data")
  case None
  then show ?thesis
    by (simp add: bt_text_def bt_version_def find_bytes_eq markers)
next
  case (Some s)
  have s: "s + 16 \<le> length data" using first_occ_bound [OF Some] by (simp add: markers)
  have find1: "find_bytes data 0 (length data) (cstr ''BABEFACEBABEFACE'') = Some (Some s)"
    using Some by (simp add: find_bytes_eq markers)
  have find2: "find_bytes data (s + 16) (length data - s - 16) (cstr ''DEADBEEFDEADBEEF'') =
      Some (map_option (\<lambda>j. s + 16 + j) (first_occ (ascii ''DEADBEEFDEADBEEF'') (drop (s + 16) data)))"
    using s by (subst find_bytes_eq) (simp_all add: markers)
  show ?thesis
  proof (cases "first_occ (ascii ''DEADBEEFDEADBEEF'') (drop (s + 16) data)")
    case None
    then show ?thesis using Some find1 find2 by (simp add: bt_text_def bt_version_def)
  next
    case e: (Some e)
    have le: "s + 16 + e + 16 \<le> length data" using first_occ_bound [OF e] s by (simp add: markers)
    let ?iv = "take (e + 16) (drop s data)"
    have d: "s + 16 + e - s = e + 16" "s + 16 + e - (s + p) = e + 16 - p" for p by simp_all
    have iv: "slice data s (e + 16) = Some ?iv" "length ?iv = e + 16" using le by simp_all
    have vis: "length (str_of ?iv) \<le> e + 16" "take (length (str_of ?iv)) (drop s data) = str_of ?iv"
      using length_str_of_le [of ?iv] str_of_take [of ?iv] iv(2) by (simp_all add: min_def split: if_splits)
    have find: "find_bytes data s (length (str_of ?iv)) needle =
        Some (map_option (\<lambda>j. s + j) (first_occ (str_of needle) (str_of ?iv)))"
      if "0 \<in> set needle" "str_of needle \<noteq> []" for needle
      using that vis le by (subst find_bytes_eq) simp_all
    have span: "(case memchr ?iv 0 (e + 16) of None \<Rightarrow> s + 16 + e - s | Some n \<Rightarrow> n) = length (str_of ?iv)"
      using memchr_str_of [of ?iv] unfolding iv(2) d(1) .
    have run: "bt_version data (length data) version =
       (case first_occ (ascii ''t-neptune'') (str_of ?iv) of
          Some p \<Rightarrow> do { version \<leftarrow> bt_copy data (s + p) (e + 16 - p) version; Some (0, version, True) }
        | None \<Rightarrow>
          if first_occ (ascii ''= debug'') (str_of ?iv) \<noteq> None
          then do { version \<leftarrow> bt_copy data 0 14 version; Some (0, version, True) }
          else Some (0, version, False))"
      using find2 unfolding bt_version_def e
      by (cases "first_occ (ascii ''t-neptune'') (str_of ?iv)")
        (simp_all add: find1 d iv(1) span find markers Let_def)
    show ?thesis
    proof (cases "first_occ (ascii ''t-neptune'') (str_of ?iv)")
      case (Some p)
      then have "p \<le> e + 16" using first_occ_bound [OF Some] vis(1) by simp
      moreover have "take (min (e + 16 - p) 91) (drop (s + p) data) = take 91 (drop p ?iv)"
        by (simp add: drop_take add.commute min.commute)
      ultimately show ?thesis
        using bt_copy_eq [of "s + p" "e + 16 - p" data version] le assms(2) Some e
          \<open>first_occ (ascii ''BABEFACEBABEFACE'') data = Some s\<close>
        by (auto simp: run bt_text_def Let_def)
    next
      case None
      then show ?thesis
        using bt_copy_eq [of 0 14 data version] assms e \<open>first_occ (ascii ''BABEFACEBABEFACE'') data = Some s\<close>
        by (auto simp: run bt_text_def Let_def)
    qed
  qed
qed


text \<open>C20: The Bluetooth version scan never leaves the image or the version buffer. It reports
  EBADMSG exactly when the start and end markers do not match up, no version when the marked
  interval holds no recognised text, and otherwise the first line, at most 91 characters and
  terminated, of the text from \<open>t-neptune\<close> to the end marker or, for a debug build, of the first
  fourteen bytes of the image.\<close>

theorem bt_version_implements:
  assumes "14 \<le> length data" "length version = 92"
  shows "case bt_text data of
      None \<Rightarrow> bt_version data (length data) version = Some (- EBADMSG, version, False)
    | Some None \<Rightarrow> bt_version data (length data) version = Some (0, version, False)
    | Some (Some t) \<Rightarrow> \<exists>v. bt_version data (length data) version = Some (0, v, True)
        \<and> str_of v = t \<and> length v = 92 \<and> 0 \<in> set v"
  using bt_version_eq [OF assms] .

definition sample_image :: bytes where
  "sample_image = ascii ''xBABEFACEBABEFACEt-neptune-1''  @ [10] @ ascii ''yDEADBEEFDEADBEEFz''"

theorem bt_version_implements_witness:
  "14 \<le> length sample_image \<and> bt_text sample_image = Some (Some (ascii ''t-neptune-1''))
   \<and> (\<exists>v. bt_version sample_image (length sample_image) (replicate 92 0) = Some (0, v, True)
        \<and> str_of v = ascii ''t-neptune-1'')"
proof -
  have t: "bt_text sample_image = Some (Some (ascii ''t-neptune-1''))" by code_simp
  have l: "14 \<le> length sample_image" by (simp add: sample_image_def ascii_def)
  show ?thesis using bt_version_implements [OF l, of "replicate 92 0"] t l by auto
qed

end
