(* ===== verification/Wmt_Firmware.thy ===== *)
theory Wmt_Firmware
  imports Posix Wmt_Protocol Wmt_Version
begin

text \<open>
  Firmware discovery, \<open>wmt-launcher/firmware.c\<close> and \<open>firmware.h\<close>: reading candidate files of a
  directory, collecting the normal patches and the ROM metadata, and extracting the Wi-Fi and
  Bluetooth versions. The file system is the environment of \<^typ>\<open>'a posix\<close>; an output parameter
  that a function may leave alone is passed in and returned.
\<close>

section \<open>Data\<close>

definition WMT_ROM_TYPES :: nat where "WMT_ROM_TYPES = 5"
definition WMT_ROM_HEADER_SIZE :: nat where "WMT_ROM_HEADER_SIZE = 32"
definition WMT_BT_VERSION_FILE_LIMIT :: nat where "WMT_BT_VERSION_FILE_LIMIT = 1024 * 1024"

lemmas rom_const_defs = WMT_ROM_TYPES_def WMT_ROM_HEADER_SIZE_def WMT_BT_VERSION_SIZE_def
  WMT_BT_VERSION_FILE_LIMIT_def

record wmt_firmware_result =
  fr_patches :: wmt_patch_set
  fr_versions :: "bytes list"

record wmt_rom_info =
  ri_type :: u32
  ri_address :: bytes
  ri_name :: bytes

record wmt_rom_set =
  rs_count :: u32
  rs_seen :: u32
  rs_records :: "wmt_rom_info list"
  has_wifi_version :: bool
  has_bt_version :: bool
  wifi_version :: bytes
  rs_bt_version :: bytes

definition zero_patch_file :: wmt_patch_file where
  "zero_patch_file = \<lparr>pf_count = 0, pf_info = zero_patch_info\<rparr>"

definition zero_firmware_result :: wmt_firmware_result where
  "zero_firmware_result = \<lparr>fr_patches = zero_patch_set, fr_versions = replicate 10 (replicate 16 0)\<rparr>"

definition zero_rom_info :: wmt_rom_info where
  "zero_rom_info = \<lparr>ri_type = 0, ri_address = replicate 4 0, ri_name = replicate 256 0\<rparr>"

definition zero_rom_set :: wmt_rom_set where
  "zero_rom_set = \<lparr>rs_count = 0, rs_seen = 0, rs_records = replicate 5 zero_rom_info,
     has_wifi_version = False, has_bt_version = False,
     wifi_version = replicate 16 0, rs_bt_version = replicate 92 0\<rparr>"

section \<open>Reading files and directories\<close>

text \<open>
  The kernel stores what it delivers at \<open>position\<close>, a fault when that is outside the buffer. A buffer the code does not
  initialise is given zeros; a successful read overwrites them all.
\<close>

definition uninitialised :: "nat \<Rightarrow> bytes" where
  "uninitialised n = replicate n 0"

definition read_exact :: "int \<Rightarrow> bytes \<Rightarrow> nat \<Rightarrow> (int \<times> bytes) posix" where
  "read_exact fd buffer sz = loop (\<lambda>(position, sz, buffer).
     if sz = 0 then ret (Inr (0, buffer))
     else bind (sys (Read fd sz)) (\<lambda>r.
       if res r < 0
       then (if err r = EINTR then ret (Inl (position, sz, buffer)) else ret (Inr (- err r, buffer)))
       else bind (mem (blit buffer position (delivered r sz))) (\<lambda>buffer.
         if delivered r sz = [] then ret (Inr (- EMSGSIZE, buffer))
         else ret (Inl (position + length (delivered r sz), sz - length (delivered r sz), buffer))))) (0, sz, buffer)"

text \<open>One candidate of \<open>search_directory\<close>: open, check, consume, close; the first error wins.\<close>

definition search_candidate ::
  "(int \<Rightarrow> int \<Rightarrow> bytes \<Rightarrow> u16 \<Rightarrow> 's \<Rightarrow> (int \<times> 's) posix) \<Rightarrow> int \<Rightarrow> bytes \<Rightarrow> u16 \<Rightarrow> 's \<Rightarrow> (int \<times> 's) posix"
  where
  "search_candidate consume stream name firmware result =
     bind (sys (Openat stream name)) (\<lambda>f.
     if res f < 0 then ret (- err f, result)
     else bind (sys (Fstat (res f))) (\<lambda>st.
     bind (if res st < 0 then ret (- err st, result)
           else if \<not> regular st then ret (- EINVAL, result)
           else consume (res f) (fsize st) name firmware result) (\<lambda>(error, result).
     bind (sys (Close (res f))) (\<lambda>c.
     ret (if res c < 0 \<and> error = 0 then - err c else error, result)))))"

text \<open>
  One turn of the loop of \<open>search_directory\<close>. A response of \<open>readdir\<close> with result 0 is the end of the
  stream; otherwise it delivers the terminated entry name.
\<close>

definition search_step ::
  "(int \<Rightarrow> int \<Rightarrow> bytes \<Rightarrow> u16 \<Rightarrow> 's \<Rightarrow> (int \<times> 's) posix) \<Rightarrow> int \<Rightarrow> bytes \<Rightarrow> nat \<Rightarrow> u16 \<Rightarrow> 's
     \<Rightarrow> ('s + int \<times> 's) posix" where
  "search_step consume stream prefix prefix_size firmware result =
     bind (sys (Readdir stream)) (\<lambda>e.
     if res e < 0 then ret (Inr (- err e, result))
     else if res e = 0 then ret (Inr (0, result))
     else bind (mem (strneq (str_of (dat e) @ [0]) prefix prefix_size)) (\<lambda>match.
       if \<not> match then ret (Inl result)
       else bind (search_candidate consume stream (str_of (dat e) @ [0]) firmware result) (\<lambda>(error, result).
         ret (if error \<noteq> 0 then Inr (error, result) else Inl result))))"

definition search_directory ::
  "bytes \<Rightarrow> bytes \<Rightarrow> u16 \<Rightarrow> (int \<Rightarrow> int \<Rightarrow> bytes \<Rightarrow> u16 \<Rightarrow> 's \<Rightarrow> (int \<times> 's) posix) \<Rightarrow> 's \<Rightarrow> (int \<times> 's) posix"
  where
  "search_directory directory prefix firmware consume result =
     bind (sys (Opendir directory)) (\<lambda>d.
     bind (mem (strlen prefix)) (\<lambda>prefix_size.
     if res d < 0 then ret (- err d, result)
     else bind (loop (search_step consume (res d) prefix prefix_size firmware) result) (\<lambda>(error, result).
     bind (sys (Closedir (res d))) (\<lambda>c.
     ret (if res c < 0 \<and> error = 0 then - err c else error, result)))))"

section \<open>Normal patches\<close>

definition read_patch ::
  "int \<Rightarrow> int \<Rightarrow> bytes \<Rightarrow> u16 \<Rightarrow> wmt_firmware_result \<Rightarrow> (int \<times> wmt_firmware_result) posix" where
  "read_patch fd status name firmware found =
     bind (read_exact fd (uninitialised WMT_PATCH_HEADER_SIZE) WMT_PATCH_HEADER_SIZE) (\<lambda>(error, header).
     if error \<noteq> 0 then ret (error, found)
     else bind (mem (wmt_patch_parse (Some header) WMT_PATCH_HEADER_SIZE (Some name) firmware
                  (Some zero_patch_file))) (\<lambda>(error, file).
     if error \<noteq> 0 then ret (if error = 1 then 0 else error, found)
     else bind (mem (wmt_patch_set_add (Some (fr_patches found)) file)) (\<lambda>(error, patches).
     if error \<noteq> 0 then ret (error, found)
     else bind (mem (do {
         file \<leftarrow> file;
         patches \<leftarrow> patches;
         version \<leftarrow> rd (fr_versions found) (unat (pi_sequence (pf_info file) - 1));
         (error, version) \<leftarrow> wmt_patch_build_version (Some header) WMT_PATCH_HEADER_SIZE (Some version);
         version \<leftarrow> version;
         versions \<leftarrow> wr (fr_versions found) (unat (pi_sequence (pf_info file) - 1)) version;
         Some (error, found\<lparr>fr_patches := patches, fr_versions := versions\<rparr>)
       })) ret)))"

definition wmt_firmware_search ::
  "bytes option \<Rightarrow> u16 \<Rightarrow> wmt_firmware_result option \<Rightarrow> (int \<times> wmt_firmware_result option) posix" where
  "wmt_firmware_search directory firmware output =
     (case (directory, output) of
        (Some d, Some out) \<Rightarrow>
          bind (mem (rd d 0)) (\<lambda>first.
          if first = 0 then ret (- EINVAL, output)
          else bind (search_directory d (cstr ''ROMv2_lm_patch'') firmware read_patch
                       zero_firmware_result) (\<lambda>(error, found).
            let error = (if error = 0 then wmt_patch_set_complete (Some (fr_patches found)) else error)
            in ret (error, if error = 0 then Some found else output)))
      | _ \<Rightarrow> ret (- EINVAL, output))"

section \<open>The version of a Bluetooth file\<close>

text \<open>The probe for growth after the full read, repeated while interrupted.\<close>

definition read_extra :: "int \<Rightarrow> int posix" where
  "read_extra fd = loop (\<lambda>_.
     bind (sys (Read fd 1)) (\<lambda>r.
     if res r < 0 \<and> err r = EINTR then ret (Inl ())
     else ret (Inr (if res r < 0 then - err r else if delivered r 1 \<noteq> [] then - ESTALE else 0)))) ()"

text \<open>What happens while the buffer is allocated.\<close>

definition read_bt_data :: "int \<Rightarrow> nat \<Rightarrow> bytes \<Rightarrow> (int \<times> bytes \<times> bool) posix" where
  "read_bt_data fd sz version =
     bind (sys (Lseek fd)) (\<lambda>s.
     if res s < 0 then ret (- err s, version, False)
     else bind (read_exact fd (uninitialised sz) sz) (\<lambda>(error, data).
       if error \<noteq> 0 then ret (error, version, False)
       else bind (read_extra fd) (\<lambda>error.
         if error \<noteq> 0 then ret (error, version, False)
         else mem (bt_version data sz version))))"

definition read_bt_version :: "int \<Rightarrow> int \<Rightarrow> bytes \<Rightarrow> (int \<times> bytes \<times> bool) posix" where
  "read_bt_version fd st_size version =
     (if st_size < int WMT_ROM_HEADER_SIZE then ret (- EMSGSIZE, version, False)
      else if st_size > int WMT_BT_VERSION_FILE_LIMIT then ret (- EFBIG, version, False)
      else bind (sys (Malloc (nat st_size))) (\<lambda>m.
        if res m < 0 then ret (- ENOMEM, version, False)
        else bind (read_bt_data fd (nat st_size) version) (\<lambda>result.
        bind (sys (Free (nat st_size))) (\<lambda>_. ret result))))"

section \<open>ROM metadata\<close>

text \<open>The Wi-Fi role of a file: its build version must agree with an earlier one.\<close>

definition rom_wifi :: "bytes \<Rightarrow> bytes \<Rightarrow> wmt_rom_set \<Rightarrow> (int \<times> wmt_rom_set) option" where
  "rom_wifi name header found = do {
     wifi \<leftarrow> strstr name (cstr ''ram_wifi'');
     if \<not> wifi then Some (0, found)
     else do {
       (error, version) \<leftarrow> wmt_patch_build_version (Some header) WMT_ROM_HEADER_SIZE (Some (replicate 16 0));
       version \<leftarrow> version;
       if error \<noteq> 0 then Some (error, found)
       else do {
         same \<leftarrow> (if has_wifi_version found then streq (wifi_version found) version else Some True);
         if \<not> same then Some (- EINVAL, found)
         else Some (0, found\<lparr>wifi_version := version, has_wifi_version := True\<rparr>)
       }
     }
   }"

definition rom_bt :: "int \<Rightarrow> int \<Rightarrow> bytes \<Rightarrow> wmt_rom_set \<Rightarrow> (int \<times> wmt_rom_set) posix" where
  "rom_bt fd status name found =
     bind (mem (strstr name (cstr ''ram_bt''))) (\<lambda>bt.
     if \<not> bt then ret (0, found)
     else bind (read_bt_version fd status (replicate 92 0)) (\<lambda>(error, version, present).
     if error \<noteq> 0 then ret (error, found)
     else if \<not> present then ret (0, found)
     else bind (mem (if has_bt_version found then streq (rs_bt_version found) version else Some True)) (\<lambda>same.
       if \<not> same then ret (- EINVAL, found)
       else ret (0, found\<lparr>rs_bt_version := version, has_bt_version := True\<rparr>))))"

text \<open>The record of an accepted header and the final three stores.\<close>

definition rom_file :: "bytes \<Rightarrow> bytes \<Rightarrow> nat \<Rightarrow> wmt_rom_info option" where
  "rom_file header name name_size = do {
     h31 \<leftarrow> rd header 31;
     addr \<leftarrow> slice header 25 3;
     address \<leftarrow> blit (replicate 4 0) 1 addr;
     src \<leftarrow> slice name 0 (name_size + 1);
     nm \<leftarrow> blit (replicate 256 0) 0 src;
     Some \<lparr>ri_type = ucast h31, ri_address = address, ri_name = nm\<rparr>
   }"

definition rom_store :: "wmt_rom_info \<Rightarrow> wmt_rom_set \<Rightarrow> wmt_rom_set option" where
  "rom_store file found = do {
     records \<leftarrow> wr (rs_records found) (unat (ri_type file)) file;
     Some (found\<lparr>rs_records := records, rs_seen := rs_seen found OR push_bit (unat (ri_type file)) 1,
                rs_count := rs_count found + 1\<rparr>)
   }"

text \<open>The rest of \<open>read_rom\<close> once the header is acceptable.\<close>

definition rom_take ::
  "int \<Rightarrow> int \<Rightarrow> bytes \<Rightarrow> nat \<Rightarrow> bytes \<Rightarrow> wmt_rom_set \<Rightarrow> (int \<times> wmt_rom_set) posix" where
  "rom_take fd status name name_size header found =
     bind (mem (rom_file header name name_size)) (\<lambda>file.
     bind (mem (rom_wifi name header found)) (\<lambda>(error, found).
     if error \<noteq> 0 then ret (error, found)
     else bind (rom_bt fd status name found) (\<lambda>(error, found).
     if error \<noteq> 0 then ret (error, found)
     else bind (mem (rom_store file found)) (\<lambda>found. ret (0, found)))))"

definition read_rom ::
  "int \<Rightarrow> int \<Rightarrow> bytes \<Rightarrow> u16 \<Rightarrow> wmt_rom_set \<Rightarrow> (int \<times> wmt_rom_set) posix" where
  "read_rom fd status name firmware found =
     bind (mem (strnlen name 256)) (\<lambda>name_size.
     bind (mem (if name_size = 0 \<or> name_size = 256 then Some True
                else map_option (\<lambda>p. p \<noteq> None) (strchr name (of_char CHR ''/'')))) (\<lambda>bad.
     if bad then ret (- EINVAL, found)
     else bind (read_exact fd (uninitialised WMT_ROM_HEADER_SIZE) WMT_ROM_HEADER_SIZE) (\<lambda>(error, header).
     if error \<noteq> 0 then ret (error, found)
     else bind (mem (do { h23 \<leftarrow> rd header 23; h27 \<leftarrow> rd header 27; h31 \<leftarrow> rd header 31;
                          Some (h23, h27, h31) })) (\<lambda>(h23, h27, h31).
     if ucast h23 \<noteq> firmware AND 0xff then ret (0, found)
     else if h27 AND 0xf0 = 0 \<or> unat h31 \<ge> WMT_ROM_TYPES then ret (- EINVAL, found)
     else if rs_seen found AND push_bit (unat h31) 1 \<noteq> 0 then ret (- EEXIST, found)
     else rom_take fd status name name_size header found))))"

definition wmt_rom_search ::
  "bytes option \<Rightarrow> u16 \<Rightarrow> wmt_rom_set option \<Rightarrow> (int \<times> wmt_rom_set option) posix" where
  "wmt_rom_search directory firmware output =
     (case (directory, output) of
        (Some d, Some out) \<Rightarrow>
          bind (mem (rd d 0)) (\<lambda>first.
          if first = 0 then ret (- EINVAL, output)
          else bind (search_directory d (cstr ''soc1_0_ram'') firmware read_rom zero_rom_set)
            (\<lambda>(error, found). ret (error, if error = 0 then Some found else output)))
      | _ \<Rightarrow> ret (- EINVAL, output))"


section \<open>Candidate readers\<close>

text \<open>
  What a run reports: an error number or zero, with \<open>I\<close> kept on success, and all handles returned.
\<close>

definition reports :: "('s \<Rightarrow> bool) \<Rightarrow> pworld \<Rightarrow> int \<times> 's \<Rightarrow> pworld \<Rightarrow> bool" where
  "reports I w = (\<lambda>(e, s) w'. e \<le> 0 \<and> - 4095 \<le> e \<and> (e = 0 \<longrightarrow> I s) \<and> frame w w')"

lemma reports_frame: "reports I w x w' \<Longrightarrow> frame w w'"
  by (auto simp: reports_def)

lemma read_exact_wp:
  assumes "errno_ok w"
  shows "wp (read_exact fd (uninitialised n) n) (reports (\<lambda>b. length b = n) w) (\<lambda>_. True) w"
  unfolding read_exact_def
proof (rule wp_loop [where I = "\<lambda>(position, sz, b) v. length b = n \<and> position + sz = n \<and> frame w v"], goal_cases)
  case (2 s v)
  obtain position sz b where s: "s = (position, sz, b)" by (metis prod_cases3)
  have I: "length b = n" "position + sz = n" "frame w v" and ok: "errno_ok v"
    using 2 assms frame_errno_ok by (auto simp: s)
  show ?case
  proof (cases "sz = 0")
    case True
    then show ?thesis using I by (simp add: s wp_simps reports_def)
  next
    case False
    show ?thesis
      using False unfolding s
    proof (simp, intro wp_call_ok [OF ok], goal_cases)
      case (1 r v')
      have fr: "frame w v'" using 1 I frame_trans by auto
      have len: "length (delivered r sz) \<le> sz" by (simp add: delivered_def)
      then obtain b' where b': "blit b position (delivered r sz) = Some b'" "length b' = n"
        using I blit_in [of position "delivered r sz" b] by auto
      then show ?case using 1 I fr len by (auto simp: wp_ret reports_def)
    qed
  qed
qed (simp add: uninitialised_def)

text \<open>
  The contract of a callback of \<open>search_directory\<close>: on a name with the wanted prefix it neither
  faults nor hangs, keeps the invariant of what is collected, and returns every handle. The
  directory search inherits it.
\<close>

locale candidate_reader =
  fixes consume :: "int \<Rightarrow> int \<Rightarrow> bytes \<Rightarrow> u16 \<Rightarrow> 's \<Rightarrow> (int \<times> 's) posix"
    and prefix :: bytes and inv :: "'s \<Rightarrow> bool"
  assumes prefix: "0 \<notin> set prefix"
    and consume: "inv s \<Longrightarrow> errno_ok w \<Longrightarrow> 0 \<in> set name \<Longrightarrow> take (length prefix) (str_of name) = prefix
      \<Longrightarrow> wp (consume fd sz name fw s) (reports inv w) (\<lambda>_. True) w"
begin

lemma search_candidate_wp:
  assumes "inv s" "errno_ok w" "0 \<in> set name" "take (length prefix) (str_of name) = prefix"
  shows "wp (search_candidate consume d name fw s) (reports inv w) (\<lambda>_. True) w"
  unfolding search_candidate_def
proof (rule wp_call_bind, goal_cases)
  case (1 f w1)
  note ok1 = after_errno_ok [OF 1 assms(2)]
  show ?case
  proof (cases "res f < 0")
    case True
    then show ?thesis using after_frame [OF 1] after_err [OF 1 assms(2)]
      by (simp add: wp_ret reports_def)
  next
    case False
    then show ?thesis
    proof (simp, intro wp_call_ok [OF ok1], goal_cases)
      case st: (1 st w2)
      then have ok2: "errno_ok w2" and fr: "frame w1 w2" by simp_all
      show ?case
      proof (rule wp_bindI [where Q' = "reports inv w2"], goal_cases)
        case 1
        then show ?case using consume assms ok2 st by (simp add: wp_ret reports_def)
      next
        case (2 x w3)
        note fr23 = reports_frame [OF 2]
        note fr3 = frame_trans [OF fr fr23] and ok3 = frame_errno_ok [OF fr23 ok2]
        have "frame w w4" if "after w3 (Close (res f)) c w4" for c w4
          using after_pair_frame [OF \<open>after w (Openat d name) f w1\<close> fr3 that] \<open>\<not> res f < 0\<close> by simp
        then show ?case using 2
          by (auto simp: wp_ret reports_def split: prod.split if_splits intro!: wp_call_ok [OF ok3])
      qed
    qed
  qed
qed

lemma search_loop_wp:
  assumes "inv s" "errno_ok w"
  shows "wp (loop (search_step consume d (prefix @ [0]) (length prefix) fw) s) (reports inv w) (\<lambda>_. True) w"
proof (rule wp_loop [where I = "\<lambda>s v. inv s \<and> frame w v"], goal_cases)
  case (2 s v)
  then have ok: "errno_ok v" using assms frame_errno_ok by blast
  show ?case
    unfolding search_step_def
  proof (rule wp_call_bind, goal_cases)
    case (1 e v1)
    let ?name = "str_of (dat e) @ [0]"
    have fr: "frame w v1" and ok1: "errno_ok v1" and err: "0 < err e \<and> err e \<le> 4095" and len: "length (script v1) < length (script v)"
      using frame_trans [OF conjunct2 [OF 2] after_frame [OF 1]] after_errno_ok [OF 1 ok]
        after_err [OF 1 ok] after_length [OF 1] by simp_all
    have pre: "strneq ?name (prefix @ [0]) (length prefix) = Some (take (length prefix) (str_of ?name) = prefix)"
      using strneq_prefix [OF _ prefix, of ?name] by simp
    have "wp (bind (search_candidate consume d ?name fw s) (\<lambda>(error, result).
             ret (if error \<noteq> 0 then Inr (error, result) else Inl result)))
       (\<lambda>x w'. case x of Inl s' \<Rightarrow> (inv s' \<and> frame w w') \<and> length (script w') < length (script v)
            | Inr a \<Rightarrow> reports inv w a w') (\<lambda>_. True) v1"
      if "take (length prefix) (str_of ?name) = prefix"
    proof (rule wp_bindI [OF search_candidate_wp], goal_cases)
      case (5 x w')
      note fr' = reports_frame [OF 5]
      then have "frame w w'" "length (script w') < length (script v)"
        using frame_trans [OF fr fr'] len by (simp_all add: frame_def)
      then show ?case using 5 by (auto simp: reports_def wp_ret)
    qed (use 2 ok1 that in auto)
    then show ?case
      using 2 fr err len by (auto simp: wp_simps pre reports_def)
  qed
qed (use assms in simp)

lemma search_directory_wp:
  assumes "inv s" "errno_ok w"
  shows "wp (search_directory dir (prefix @ [0]) fw consume s) (reports inv w) (\<lambda>_. True) w"
  unfolding search_directory_def
proof (rule wp_call_bind, goal_cases)
  case (1 d w1)
  note ok1 = after_errno_ok [OF 1 assms(2)]
  have len: "strlen (prefix @ [0]) = Some (length prefix)"
    using prefix by (simp add: strlen_Some_iff)
  show ?case
  proof (cases "res d < 0")
    case True
    then show ?thesis using after_frame [OF 1] after_err [OF 1 assms(2)]
      by (simp add: wp_simps len reports_def)
  next
    case False
    have "frame w w3" if "frame w1 w2" "after w2 (Closedir (res d)) c w3" for w2 w3 c
      using after_pair_frame [OF 1 that] False by simp
    moreover have "0 < err c \<and> err c \<le> 4095" if "frame w1 w2" "after w2 (Closedir (res d)) c w3" for w2 w3 c
      using after_err [OF that(2)] frame_errno_ok [OF that(1) ok1] by simp
    ultimately have close: "wp (case x of (error, result) \<Rightarrow> bind (sys (Closedir (res d))) (\<lambda>c.
         ret (if res c < 0 \<and> error = 0 then - err c else error, result))) (reports inv w) (\<lambda>_. True) w2"
      if "reports inv w1 x w2" for x w2
      using that by (fastforce simp: wp_ret reports_def split: prod.split intro!: wp_call_bind)
    show ?thesis using False wp_bindI [OF search_loop_wp [OF assms(1) ok1] close]
      by (simp add: len)
  qed
qed

end

section \<open>Normal patches\<close>

text \<open>What a successful search collects: a well-formed set of named patches with terminated versions.\<close>

definition wf_firmware :: "wmt_firmware_result \<Rightarrow> bool" where
  "wf_firmware r \<longleftrightarrow> wf_patch_set (fr_patches r)
     \<and> (\<forall>i\<in>set (ps_records (fr_patches r)). wf_info i)
     \<and> (\<forall>k i. patch_lookup (fr_patches r) k = Some i \<longrightarrow> valid_name (pi_name i))
     \<and> length (fr_versions r) = 10 \<and> (\<forall>v\<in>set (fr_versions r). length v = 16 \<and> 0 \<in> set v)"

lemma wf_zero_firmware: "wf_firmware zero_firmware_result"
  unfolding wf_firmware_def zero_firmware_result_def
  by (simp add: wf_zero_patch_set)
    (simp add: zero_patch_set_def patch_lookup_def wf_info_def zero_patch_info_def)

lemma length_ascii [simp]: "length (ascii s) = length s"
  by (simp add: ascii_def)

lemma build_version_eq:
  "16 \<le> sz \<Longrightarrow> sz \<le> length h \<Longrightarrow> length v = 16 \<Longrightarrow>
     wmt_patch_build_version (Some h) sz (Some v) = Some (0, Some (take 15 h @ [0]))"
  by (simp add: wmt_patch_build_version_def blit_in list_update_append Cons_nth_drop_Suc [symmetric])

lemma valid_name_padded:
  assumes "valid_basename name" "take (length p) (str_of name) = p" "3 \<le> length p" "0 < k"
  shows "valid_name (str_of name @ replicate k 0)"
proof -
  have s: "str_of (str_of name @ replicate k 0) = str_of name"
    using assms(4) by (cases k) simp_all
  have "3 \<le> length (str_of name)" using assms(2,3) by (metis length_take min.bounded_iff)
  then show ?thesis using assms(1) unfolding valid_name_def s valid_basename_def
    by (auto simp: ascii_def)
qed

lemma patch_set_add_infos:
  assumes "wf_patch_set s" "wmt_patch_set_add (Some s) (Some f) = Some (rc, Some s')"
    and "\<forall>i\<in>set (ps_records s). wf_info i" "wf_info (pf_info f)"
  shows "\<forall>i\<in>set (ps_records s'). wf_info i"
  using assms set_update_subset_insert [of "ps_records s" "patch_slot f" "pf_info f"]
  by (auto simp: patch_set_add_cases split: if_splits)

text \<open>The result of a header that was read completely, as one step on the collected patches.\<close>

lemma read_patch_step:
  assumes wf: "wf_firmware found" and h: "length header = 28" and nul: "0 \<in> set name"
    and pre: "take (length (ascii ''ROMv2_lm_patch'')) (str_of name) = ascii ''ROMv2_lm_patch''"
    and vf: "valid_basename name" "valid_file (file_of_header header name)"
    and add: "wmt_patch_set_add (Some (fr_patches found)) (Some (file_of_header header name)) = Some (0, Some patches)"
  shows "wf_firmware (found\<lparr>fr_patches := patches,
      fr_versions := (fr_versions found)[patch_slot (file_of_header header name) := take 15 header @ [0]]\<rparr>)"
proof -
  let ?f = "file_of_header header name"
  note W = wf [unfolded wf_firmware_def]
  have info: "wf_info (pf_info ?f)"
    using vf(1) by (simp add: wf_info_def file_of_header_def valid_basename_def)
  have nm: "valid_name (pi_name (pf_info ?f))"
    using valid_name_padded [OF vf(1) pre] vf(1) by (simp add: file_of_header_def valid_basename_def)
  show ?thesis
    using W info nm patch_set_add_wf [OF _ add] patch_set_add_infos [OF _ add] patch_set_add_lookup(5) [OF _ add] h
      set_update_subset_insert [of "fr_versions found" "patch_slot ?f" "take 15 header @ [0]"]
    by (auto simp: wf_firmware_def split: if_splits)
qed

lemma read_patch_wp:
  assumes "wf_firmware found" "errno_ok w" "0 \<in> set name"
    and pre: "take (length (ascii ''ROMv2_lm_patch'')) (str_of name) = ascii ''ROMv2_lm_patch''"
  shows "wp (read_patch fd status name fw found) (reports wf_firmware w) (\<lambda>_. True) w"
  unfolding read_patch_def
proof (rule wp_bindI [OF read_exact_wp [OF assms(2)]], goal_cases)
  case (1 x w')
  obtain e h where x: "x = (e, h)" by (cases x)
  show ?case
  proof (cases "e = 0")
    case False
    then show ?thesis using 1 x by (simp add: wp_ret reports_def)
  next
    case True
    then have h: "length h = 28" and fr: "frame w w'" using 1 x by (auto simp: reports_def patch_const_defs)
    let ?f = "file_of_header h name"
    have parse: "wmt_patch_parse (Some h) 28 (Some name) fw (Some zero_patch_file) = Some
      (if \<not> valid_basename name then (- EINVAL, Some zero_patch_file)
       else if h ! 23 \<noteq> ucast fw then (1, Some zero_patch_file)
       else if valid_file ?f then (0, Some ?f) else (- EINVAL, Some zero_patch_file))"
      using patch_parse_eq [OF assms(3), of h] h by simp
    have store: "wp (bind (mem (wmt_patch_set_add (Some (fr_patches found)) (Some ?f))) K)
        (reports wf_firmware w) (\<lambda>_. True) w'"
      if v: "valid_basename name" "valid_file ?f"
        and K: "\<And>rc s. K (rc, Some s) = (if rc \<noteq> 0 then ret (rc, found) else ret (0, found\<lparr>fr_patches := s,
            fr_versions := (fr_versions found)[patch_slot ?f := take 15 h @ [0]]\<rparr>))" for K
    proof -
      have wfp: "wf_patch_set (fr_patches found)" using assms(1) by (simp add: wf_firmware_def)
      obtain rc s where add: "wmt_patch_set_add (Some (fr_patches found)) (Some ?f) = Some (rc, Some s)"
        and rc: "rc \<le> 0" "- 4095 \<le> rc"
        using patch_set_add_total [OF wfp] by blast
      then show ?thesis
        using read_patch_step [OF assms(1) h assms(3) pre v] fr K
        by (auto simp: wp_simps reports_def)
    qed
    have version: "wmt_patch_build_version (Some h) 28 (Some (fr_versions found ! patch_slot ?f))
        = Some (0, Some (take 15 h @ [0]))" "patch_slot ?f < length (fr_versions found)"
      if "valid_file ?f"
      using assms(1) h patch_slot_eq(3) [OF that] by (auto simp: wf_firmware_def intro!: build_version_eq)
    show ?thesis
    proof (cases "valid_basename name \<and> h ! 23 = ucast fw \<and> valid_file ?f")
      case False
      then show ?thesis using True x fr assms(1) parse
        by (auto simp: patch_const_defs wp_ret reports_def)
    next
      case True
      then show ?thesis using \<open>e = 0\<close> x parse version patch_slot_eq(1) [of ?f]
        by (auto simp: patch_const_defs intro!: store)
    qed
  qed
qed


interpretation normal: candidate_reader read_patch "ascii ''ROMv2_lm_patch''" wf_firmware
  using read_patch_wp by unfold_locales (simp_all add: ascii_def)

section \<open>ROM metadata\<close>

definition wf_rom_info :: "wmt_rom_info \<Rightarrow> bool" where
  "wf_rom_info i \<longleftrightarrow> length (ri_address i) = 4 \<and> length (ri_name i) = 256"

text \<open>The collected ROM files: one named record per present type, counted, versions terminated.\<close>

definition wf_rom :: "wmt_rom_set \<Rightarrow> bool" where
  "wf_rom r \<longleftrightarrow> length (rs_records r) = 5 \<and> (\<forall>i\<in>set (rs_records r). wf_rom_info i)
     \<and> (\<forall>k. bit (rs_seen r) k \<longrightarrow> k < 5 \<and> unat (ri_type (rs_records r ! k)) = k
          \<and> valid_name (ri_name (rs_records r ! k)))
     \<and> unat (rs_count r) = card {k. bit (rs_seen r) k}
     \<and> length (wifi_version r) = 16 \<and> 0 \<in> set (wifi_version r)
     \<and> length (rs_bt_version r) = 92 \<and> 0 \<in> set (rs_bt_version r)"

lemma wf_zero_rom: "wf_rom zero_rom_set"
  by (simp add: wf_rom_def zero_rom_set_def wf_rom_info_def zero_rom_info_def)

lemma wf_rom_versions [simp]:
  "wf_rom r \<Longrightarrow> length v = 16 \<Longrightarrow> 0 \<in> set v \<Longrightarrow> wf_rom (r\<lparr>wifi_version := v, has_wifi_version := b\<rparr>)"
  "wf_rom r \<Longrightarrow> length t = 92 \<Longrightarrow> 0 \<in> set t \<Longrightarrow> wf_rom (r\<lparr>rs_bt_version := t, has_bt_version := b\<rparr>)"
  by (simp_all add: wf_rom_def)

lemma read_extra_wp:
  assumes "errno_ok w"
  shows "wp (read_extra fd) (\<lambda>e w'. e \<le> 0 \<and> - 4095 \<le> e \<and> frame w w') (\<lambda>_. True) w"
  unfolding read_extra_def
proof (rule wp_loop [where I = "\<lambda>_ v. frame w v"], goal_cases)
  case (2 s v)
  then have ok: "errno_ok v" using assms frame_errno_ok by blast
  show ?case
  proof (rule wp_call_ok [OF ok], goal_cases)
    case (1 r v')
    then have "frame w v'" using 2 frame_trans by auto
    with 1 show ?case by (auto simp: wp_ret)
  qed
qed simp

lemma bt_version_total:
  assumes "14 \<le> length data" "length version = 92" "0 \<in> set version"
  obtains rc v b where "bt_version data (length data) version = Some (rc, v, b)"
    "rc \<le> 0" "- 4095 \<le> rc" "length v = 92" "0 \<in> set v"
  using bt_version_eq [OF assms(1,2)] assms(2,3) by (auto split: option.splits)

definition bt_reports :: "pworld \<Rightarrow> int \<times> bytes \<times> bool \<Rightarrow> pworld \<Rightarrow> bool" where
  "bt_reports w = (\<lambda>(e, v, b) w'. e \<le> 0 \<and> - 4095 \<le> e \<and> length v = 92 \<and> 0 \<in> set v \<and> frame w w')"

lemma read_bt_data_wp:
  assumes ok: "errno_ok w" and v: "length version = 92" "0 \<in> set version" and sz: "32 \<le> sz"
  shows "wp (read_bt_data fd sz version) (bt_reports w) (\<lambda>_. True) w"
  unfolding read_bt_data_def
proof (rule wp_call_ok [OF ok], goal_cases)
  case (1 s w2)
  note ok2 = 1(2)
  have fr2: "frame w w2" using 1 by simp
  have "wp (bind (read_exact fd (uninitialised sz) sz) (\<lambda>(error, data).
       if error \<noteq> 0 then ret (error, version, False)
       else bind (read_extra fd) (\<lambda>error.
         if error \<noteq> 0 then ret (error, version, False)
         else mem (bt_version data sz version)))) (bt_reports w) (\<lambda>_. True) w2"
  proof (rule wp_bindI [OF read_exact_wp [OF ok2]], goal_cases)
    case (1 x w3)
    obtain e data where x: "x = (e, data)" by (cases x)
    have fr3: "frame w w3" using reports_frame [OF 1] fr2 frame_trans by blast
    show ?case
    proof (cases "e = 0")
      case e0: True
      then have len: "length data = sz" "14 \<le> length data" using 1 x sz by (auto simp: reports_def)
      obtain rc t b where bt: "bt_version data sz version = Some (rc, t, b)"
        "rc \<le> 0" "- 4095 \<le> rc" "length t = 92" "0 \<in> set t"
        using bt_version_total [OF len(2) v] len(1) by metis
      have "wp (bind (read_extra fd) (\<lambda>error. if error \<noteq> 0 then ret (error, version, False)
                else mem (bt_version data sz version))) (bt_reports w) (\<lambda>_. True) w3"
      proof (rule wp_bindI [OF read_extra_wp], goal_cases)
        case (2 e w4)
        then have "frame w w4" using fr3 frame_trans by blast
        with 2 v bt show ?case by (auto simp: wp_simps bt_reports_def)
      qed (rule frame_errno_ok [OF fr3 ok])
      then show ?thesis using x e0 by simp
    qed (use 1 x fr3 v in \<open>auto simp: wp_ret reports_def bt_reports_def\<close>)
  qed
  then show ?case using 1 fr2 v by (simp add: wp_ret bt_reports_def)
qed

lemma read_bt_version_wp:
  assumes ok: "errno_ok w" and v: "length version = 92" "0 \<in> set version"
  shows "wp (read_bt_version fd sz version) (bt_reports w) (\<lambda>_. True) w"
proof (cases "sz < 32 \<or> 1048576 < sz")
  case True
  then show ?thesis using v by (auto simp: read_bt_version_def rom_const_defs wp_ret bt_reports_def)
next
  case False
  have "wp (if res m < 0 then ret (- ENOMEM, version, False)
        else bind (read_bt_data fd (nat sz) version) (\<lambda>result.
        bind (sys (Free (nat sz))) (\<lambda>_. ret result))) (bt_reports w) (\<lambda>_. True) w1"
    if m: "after w (Malloc (nat sz)) m w1" for m w1
  proof (cases "res m < 0")
    case True
    then show ?thesis using after_frame [OF m] v by (simp add: wp_ret bt_reports_def)
  next
    case got: False
    note ok1 = after_errno_ok [OF m ok]
    have "wp (bind (read_bt_data fd (nat sz) version) (\<lambda>result.
        bind (sys (Free (nat sz))) (\<lambda>_. ret result))) (bt_reports w) (\<lambda>_. True) w1"
    proof (rule wp_bindI [OF read_bt_data_wp [OF ok1 v]], goal_cases)
      case (2 x w2)
      then have fr: "frame w1 w2" by (auto simp: bt_reports_def)
      have "frame w w3" if "after w2 (Free (nat sz)) c w3" for c w3
        using after_pair_frame [OF m fr that] got by simp
      then show ?case using 2 by (auto intro!: wp_call_bind simp: wp_ret bt_reports_def)
    qed (use False in linarith)
    then show ?thesis using got by simp
  qed
  then show ?thesis using False
    by (simp add: read_bt_version_def rom_const_defs wp_call_bind)
qed


lemma rom_wifi_total:
  assumes wf: "wf_rom found" and h: "length header = 32" and nul: "0 \<in> set name"
  obtains rc r where "rom_wifi name header found = Some (rc, r)" "rc \<le> 0" "- 4095 \<le> rc" "wf_rom r"
    "rs_seen r = rs_seen found"
proof -
  have v: "length (take 15 header @ [0]) = 16" "0 \<in> set (take 15 header @ [0])" using h by simp_all
  have w: "0 \<in> set (wifi_version found)" using wf by (simp add: wf_rom_def)
  have bv: "wmt_patch_build_version (Some header) 32 (Some (replicate 16 0)) = Some (0, Some (take 15 header @ [0]))"
    using h by (intro build_version_eq) simp_all
  have c: "0 \<in> set (cstr ''ram_wifi'')" by (simp add: cstr_def)
  let ?x = "if \<not> occurs (str_of (cstr ''ram_wifi'')) (str_of name) then (0, found)
     else if has_wifi_version found \<and> str_of (wifi_version found) \<noteq> str_of (take 15 header @ [0])
     then (- EINVAL, found)
     else (0, found\<lparr>wifi_version := take 15 header @ [0], has_wifi_version := True\<rparr>)"
  have "rom_wifi name header found = Some ?x"
    using streq_iff [OF w v(2)] by (simp add: rom_wifi_def strstr_total [OF nul c] rom_const_defs bv)
  then show thesis
    using that [of "fst ?x" "snd ?x"] wf wf_rom_versions(1) [OF wf v] by simp
qed

lemma rom_bt_wp:
  assumes wf: "wf_rom found" and ok: "errno_ok w" and nul: "0 \<in> set name"
  shows "wp (rom_bt fd status name found) (reports (\<lambda>r. wf_rom r \<and> rs_seen r = rs_seen found) w) (\<lambda>_. True) w"
proof -
  have c: "0 \<in> set (cstr ''ram_bt'')" by (simp add: cstr_def)
  have b: "0 \<in> set (rs_bt_version found)" using wf by (simp add: wf_rom_def)
  have "wp (bind (read_bt_version fd status (replicate 92 0)) (\<lambda>(error, version, present).
     if error \<noteq> 0 then ret (error, found)
     else if \<not> present then ret (0, found)
     else bind (mem (if has_bt_version found then streq (rs_bt_version found) version else Some True)) (\<lambda>same.
       if \<not> same then ret (- EINVAL, found)
       else ret (0, found\<lparr>rs_bt_version := version, has_bt_version := True\<rparr>))))
    (reports (\<lambda>r. wf_rom r \<and> rs_seen r = rs_seen found) w) (\<lambda>_. True) w"
  proof (rule wp_bindI [OF read_bt_version_wp [OF ok]], goal_cases)
    case (3 x w')
    then show ?case using wf streq_iff [OF b]
      by (auto simp: bt_reports_def wp_simps reports_def split: prod.splits)
  qed simp_all
  then show ?thesis using wf
    by (simp add: rom_bt_def strstr_total [OF nul c] wp_ret reports_def)
qed

lemma rom_file_eq:
  assumes "length header = 32" "0 \<in> set name" "length (str_of name) < 256"
  shows "rom_file header name (length (str_of name)) = Some
    \<lparr>ri_type = ucast (header ! 31), ri_address = [0, header ! 25, header ! 26, header ! 27],
     ri_name = str_of name @ replicate (256 - length (str_of name)) 0\<rparr>"
proof -
  have addr: "blit (replicate 4 0) 1 [header ! 25, header ! 26, header ! 27]
      = Some [0, header ! 25, header ! 26, header ! 27]"
    by (simp add: blit_in numeral_eq_Suc)
  have nm: "blit (replicate 256 0) 0 (str_of name @ [0]) = Some (str_of name @ replicate (256 - length (str_of name)) 0)"
    using assms(3) by (simp add: blit_in Suc_diff_Suc flip: replicate_Suc)
  show ?thesis using assms(1,2) slice_three [of header]
    by (simp add: rom_file_def slice_name addr [simplified] nm del: slice_in)
qed

lemma rom_store_wf:
  assumes wf: "wf_rom found" and info: "wf_rom_info file1" "valid_name (ri_name file1)"
    and t: "unat (ri_type file1) < 5" "\<not> bit (rs_seen found) (unat (ri_type file1))"
  obtains r where "rom_store file1 found = Some r" "wf_rom r"
proof -
  let ?t = "unat (ri_type file1)"
  let ?r = "found\<lparr>rs_records := (rs_records found)[?t := file1], rs_seen := rs_seen found OR push_bit ?t 1,
      rs_count := rs_count found + 1\<rparr>"
  have store: "rom_store file1 found = Some ?r"
    using wf t by (simp add: rom_store_def wf_rom_def)
  have bits: "bit (rs_seen ?r) k \<longleftrightarrow> bit (rs_seen found) k \<or> k = ?t" for k
    using t by (simp add: test_exp_bit)
  have sub: "{k. bit (rs_seen found) k} \<subseteq> {..<5}" using wf by (auto simp: wf_rom_def)
  then have fin: "finite {k. bit (rs_seen found) k}" using finite_subset by blast
  have "card {k. bit (rs_seen found) k} \<le> 5" using card_mono [OF _ sub] by simp
  then have "unat (rs_count found) \<le> 5" using wf by (simp add: wf_rom_def)
  then have "unat (rs_count found + 1) = Suc (unat (rs_count found))" by (simp add: unat_arith_simps)
  moreover have "{k. bit (rs_seen ?r) k} = insert ?t {k. bit (rs_seen found) k}"
    unfolding bits by auto
  ultimately have "unat (rs_count ?r) = card {k. bit (rs_seen ?r) k}"
    using fin t(2) wf by (simp add: wf_rom_def)
  moreover have "\<forall>i\<in>set (rs_records ?r). wf_rom_info i"
    using wf info(1) set_update_subset_insert [of "rs_records found" ?t file1] by (auto simp: wf_rom_def)
  moreover have "\<forall>k. bit (rs_seen ?r) k \<longrightarrow> k < 5 \<and> unat (ri_type (rs_records ?r ! k)) = k
      \<and> valid_name (ri_name (rs_records ?r ! k))"
    unfolding bits using wf info(2) t(1) by (auto simp: wf_rom_def nth_list_update)
  ultimately have "wf_rom ?r" using wf by (simp add: wf_rom_def)
  with store that show thesis by blast
qed


lemma rom_take_wp:
  assumes wf: "wf_rom found" and ok: "errno_ok w" and nul: "0 \<in> set name" and h: "length header = 32"
    and nm: "valid_basename name" "take (length (ascii ''soc1_0_ram'')) (str_of name) = ascii ''soc1_0_ram''"
    and t: "unat (header ! 31) < 5" "\<not> bit (rs_seen found) (unat (header ! 31))"
  shows "wp (rom_take fd status name (length (str_of name)) header found) (reports wf_rom w) (\<lambda>_. True) w"
proof -
  let ?f = "\<lparr>ri_type = ucast (header ! 31), ri_address = [0, header ! 25, header ! 26, header ! 27],
     ri_name = str_of name @ replicate (256 - length (str_of name)) 0\<rparr>"
  have len: "length (str_of name) < 256" using nm(1) by (simp add: valid_basename_def)
  have ty: "unat (ri_type ?f) = unat (header ! 31)" by (simp add: unat_byte)
  have f: "wf_rom_info ?f" "valid_name (ri_name ?f)"
    using valid_name_padded [OF nm] len by (simp_all add: wf_rom_info_def)
  obtain rc r where r: "rom_wifi name header found = Some (rc, r)" "rc \<le> 0" "- 4095 \<le> rc" "wf_rom r"
    "rs_seen r = rs_seen found"
    using rom_wifi_total [OF wf h nul] .
  have "wp (bind (rom_bt fd status name r) (\<lambda>(error, found).
     if error \<noteq> 0 then ret (error, found)
     else bind (mem (rom_store ?f found)) (\<lambda>found. ret (0, found)))) (reports wf_rom w) (\<lambda>_. True) w"
  proof (rule wp_bindI [OF rom_bt_wp [OF r(4) ok nul]], goal_cases)
    case (1 x w')
    obtain e s where x: "x = (e, s)" by (cases x)
    show ?case
    proof (cases "e = 0")
      case True
      then have s: "wf_rom s" "rs_seen s = rs_seen found" using 1 x r(5) by (auto simp: reports_def)
      obtain s' where "rom_store ?f s = Some s'" "wf_rom s'"
        using rom_store_wf [OF s(1) f] t s(2) by (metis ty)
      then show ?thesis using 1 x True by (simp add: wp_ret reports_def)
    qed (use 1 x in \<open>auto simp: wp_ret reports_def\<close>)
  qed
  then show ?thesis using r
    by (simp add: rom_take_def rom_file_eq [OF h nul len] wp_ret reports_def)
qed

lemma read_rom_wp:
  assumes wf: "wf_rom found" and ok: "errno_ok w" and nul: "0 \<in> set name"
    and pre: "take (length (ascii ''soc1_0_ram'')) (str_of name) = ascii ''soc1_0_ram''"
  shows "wp (read_rom fd status name fw found) (reports wf_rom w) (\<lambda>_. True) w"
proof -
  let ?n = "length (str_of name)"
  have n: "strnlen name 256 = Some (min 256 ?n)"
    using nul str_of_less_iff [of name] by (simp add: strnlen_Some_iff)
  obtain r where r: "strchr name 47 = Some r" "r = None \<longleftrightarrow> 47 \<notin> set (str_of name)"
    using strchr_outcome [OF nul, of 47] by auto
  show ?thesis
  proof (cases "valid_basename name")
    case False
    then show ?thesis using n r wf
      by (auto simp: read_rom_def valid_basename_def wp_ret reports_def min_def)
  next
    case True
    then have ok': "str_of name \<noteq> []" "?n < 256" "r = None" using r by (auto simp: valid_basename_def)
    have "wp (bind (read_exact fd (uninitialised 32) 32) (\<lambda>(error, header).
     if error \<noteq> 0 then ret (error, found)
     else bind (mem (do { h23 \<leftarrow> rd header 23; h27 \<leftarrow> rd header 27; h31 \<leftarrow> rd header 31;
                          Some (h23, h27, h31) })) (\<lambda>(h23, h27, h31).
     if ucast h23 \<noteq> fw AND 0xff then ret (0, found)
     else if h27 AND 0xf0 = 0 \<or> unat h31 \<ge> 5 then ret (- EINVAL, found)
     else if rs_seen found AND push_bit (unat h31) 1 \<noteq> 0 then ret (- EEXIST, found)
     else rom_take fd status name ?n header found))) (reports wf_rom w) (\<lambda>_. True) w"
    proof (rule wp_bindI [OF read_exact_wp [OF ok]], goal_cases)
      case (1 x w')
      obtain e h where x: "x = (e, h)" by (cases x)
      show ?case
      proof (cases "e = 0")
        case e0: True
        then have h: "length h = 32" and fr: "frame w w'" using 1 x by (auto simp: reports_def)
        have "wp (rom_take fd status name ?n h found) (reports wf_rom w) (\<lambda>_. True) w'"
          if "unat (h ! 31) < 5" "\<not> bit (rs_seen found) (unat (h ! 31))"
          using rom_take_wp [OF wf frame_errno_ok [OF fr ok] nul h True pre that]
          by (rule wp_mono) (auto simp: reports_def intro: frame_trans [OF fr])
        then show ?thesis using x e0 h fr wf
          by (auto simp: wp_ret reports_def and_exp_eq_0_iff_not_bit)
      qed (use 1 x wf in \<open>auto simp: wp_ret reports_def\<close>)
    qed
    then show ?thesis using n r ok' unfolding read_rom_def rom_const_defs by simp
  qed
qed

interpretation rom: candidate_reader read_rom "ascii ''soc1_0_ram''" wf_rom
  using read_rom_wp by unfold_locales (simp_all add: ascii_def)


section \<open>The searches on every file system\<close>

lemma cstr_prefix: "cstr s = ascii s @ [0]"
  by (simp add: cstr_def)

lemma firmware_search_wp:
  assumes "errno_ok w" "d \<noteq> []"
  shows "wp (wmt_firmware_search (Some d) fw (Some out)) (\<lambda>(rc, out') w'. rc \<le> 0 \<and> - 4095 \<le> rc \<and> frame w w'
     \<and> (if rc = 0 then \<exists>r. out' = Some r \<and> wf_firmware r \<and> wmt_patch_set_complete (Some (fr_patches r)) = 0
        else out' = Some out)) (\<lambda>_. True) w"
proof (cases "hd d = 0")
  case True
  then show ?thesis using assms(2) by (cases d) (simp_all add: wmt_firmware_search_def wp_ret rd_def)
next
  case False
  then have run: "wmt_firmware_search (Some d) fw (Some out) =
      bind (search_directory d (ascii ''ROMv2_lm_patch'' @ [0]) fw read_patch zero_firmware_result)
       (\<lambda>(error, found). let error = (if error = 0 then wmt_patch_set_complete (Some (fr_patches found)) else error)
          in ret (error, if error = 0 then Some found else Some out))"
    using assms(2) by (cases d) (simp_all add: wmt_firmware_search_def rd_def cstr_prefix)
  have neg: "wmt_patch_set_complete s \<le> 0" "- 4095 \<le> wmt_patch_set_complete s" for s
    by (simp_all add: wmt_patch_set_complete_def split: option.split)
  show ?thesis unfolding run
    by (rule wp_bindI [OF normal.search_directory_wp [OF wf_zero_firmware assms(1)]])
      (auto simp: reports_def wp_ret Let_def neg)
qed

lemma rom_search_wp:
  assumes "errno_ok w" "d \<noteq> []"
  shows "wp (wmt_rom_search (Some d) fw (Some out)) (\<lambda>(rc, out') w'. rc \<le> 0 \<and> - 4095 \<le> rc \<and> frame w w'
     \<and> (if rc = 0 then \<exists>r. out' = Some r \<and> wf_rom r else out' = Some out)) (\<lambda>_. True) w"
proof (cases "hd d = 0")
  case True
  then show ?thesis using assms(2) by (cases d) (simp_all add: wmt_rom_search_def wp_ret rd_def)
next
  case False
  then have run: "wmt_rom_search (Some d) fw (Some out) =
      bind (search_directory d (ascii ''soc1_0_ram'' @ [0]) fw read_rom zero_rom_set)
       (\<lambda>(error, found). ret (error, if error = 0 then Some found else Some out))"
    using assms(2) by (cases d) (simp_all add: wmt_rom_search_def rd_def cstr_prefix)
  show ?thesis unfolding run
    by (rule wp_bindI [OF rom.search_directory_wp [OF wf_zero_rom assms(1)]])
      (auto simp: reports_def wp_ret)
qed

lemma frame_world0: "frame (world0 rs) w' \<Longrightarrow> holding (trace w') {#}"
  by (simp add: frame_def world0_def)

text \<open>A failed call with its error number.\<close>

definition sys_fail :: "int \<Rightarrow> response" where
  "sys_fail e = \<lparr>res = -1, err = e, dat = [], regular = False, fsize = 0, revents = 0\<rparr>"

text \<open>C3: Whatever the file system answers (any sequence of results, errors, interruptions, short
  reads and directory entries), the normal firmware search neither accesses memory outside its
  objects nor loops without a system call. When it returns, it has closed every descriptor and
  directory it opened; result zero comes with a well-formed set holding every sequence number of
  its count, any other result is a negative error number and leaves the output untouched.\<close>

theorem firmware_search_total:
  assumes "\<forall>r\<in>set rs. 0 < err r \<and> err r \<le> 4095" "d \<noteq> []"
  shows "wp (wmt_firmware_search (Some d) fw (Some out)) (\<lambda>(rc, out') w'.
      rc \<le> 0 \<and> holding (trace w') {#}
      \<and> (rc = 0 \<longrightarrow> (\<exists>r. out' = Some r \<and> wf_firmware r \<and> ps_count (fr_patches r) \<noteq> 0
            \<and> dom (patch_lookup (fr_patches r)) = {..<unat (ps_count (fr_patches r))}))
      \<and> (rc \<noteq> 0 \<longrightarrow> out' = Some out)) (\<lambda>_. True) (world0 rs)"
proof -
  have ok: "errno_ok (world0 rs)" using assms(1) by (simp add: errno_ok_def world0_def)
  show ?thesis
    by (rule wp_mono [OF firmware_search_wp [OF ok assms(2)]])
      (auto simp: wf_firmware_def patch_set_complete_iff dest: frame_world0)
qed

theorem firmware_search_total_witness:
  "0 < err (sys_fail ENOENT) \<and> err (sys_fail ENOENT) \<le> 4095 \<and> cstr ''/fw'' \<noteq> []
   \<and> (\<exists>w'. wmt_firmware_search (Some (cstr ''/fw'')) 7 (Some zero_firmware_result) (world0 [sys_fail ENOENT])
        = Done (- ENOENT, Some zero_firmware_result) w' \<and> holding (trace w') {#})"
proof -
  let ?run = "wmt_firmware_search (Some (cstr ''/fw'')) 7 (Some zero_firmware_result)"
  let ?w = "\<lparr>script = [], trace = [(Opendir (cstr ''/fw''), sys_fail ENOENT)]\<rparr>"
  have run: "?run (world0 [sys_fail ENOENT]) = Done (- ENOENT, Some zero_firmware_result) ?w"
    by (simp add: wmt_firmware_search_def search_directory_def bind_def sys_def ret_def mem_def
        world0_def sys_fail_def cstr_def ascii_def rd_def)
  show ?thesis
    using wp_DoneD [OF firmware_search_total run] run
    by (simp add: cstr_def ascii_def sys_fail_def)
qed

text \<open>C19: The same for the ROM search: memory-safe, productive and closing every handle, heap buffer
  included, under every file system; success yields a well-formed set with one named record per
  present type, counted, and terminated version strings; failure leaves the output untouched.\<close>

theorem rom_search_total:
  assumes "\<forall>r\<in>set rs. 0 < err r \<and> err r \<le> 4095" "d \<noteq> []"
  shows "wp (wmt_rom_search (Some d) fw (Some out)) (\<lambda>(rc, out') w'.
      rc \<le> 0 \<and> holding (trace w') {#}
      \<and> (rc = 0 \<longrightarrow> (\<exists>r. out' = Some r \<and> wf_rom r))
      \<and> (rc \<noteq> 0 \<longrightarrow> out' = Some out)) (\<lambda>_. True) (world0 rs)"
proof -
  have ok: "errno_ok (world0 rs)" using assms(1) by (simp add: errno_ok_def world0_def)
  show ?thesis
    by (rule wp_mono [OF rom_search_wp [OF ok assms(2)]]) (auto dest: frame_world0)
qed

theorem rom_search_total_witness:
  "0 < err (sys_fail ENOENT) \<and> err (sys_fail ENOENT) \<le> 4095 \<and> cstr ''/fw'' \<noteq> []
   \<and> (\<exists>w'. wmt_rom_search (Some (cstr ''/fw'')) 7 (Some zero_rom_set) (world0 [sys_fail ENOENT])
        = Done (- ENOENT, Some zero_rom_set) w' \<and> holding (trace w') {#})"
proof -
  let ?run = "wmt_rom_search (Some (cstr ''/fw'')) 7 (Some zero_rom_set)"
  let ?w = "\<lparr>script = [], trace = [(Opendir (cstr ''/fw''), sys_fail ENOENT)]\<rparr>"
  have run: "?run (world0 [sys_fail ENOENT]) = Done (- ENOENT, Some zero_rom_set) ?w"
    by (simp add: wmt_rom_search_def search_directory_def bind_def sys_def ret_def mem_def
        world0_def sys_fail_def cstr_def ascii_def rd_def)
  show ?thesis
    using wp_DoneD [OF rom_search_total run] run
    by (simp add: cstr_def ascii_def sys_fail_def)
qed

end
