(* ===== verification/Wmt_Directory.thy ===== *)
theory Wmt_Directory
  imports Wmt_Firmware
begin

text \<open>
  The firmware search on a stable directory: a list of entries with their contents, served without
  errors. The search then computes a function of the entries that does not depend on their order.
\<close>

section \<open>A directory as an environment\<close>

type_synonym entry = "bytes \<times> bytes"

definition ok_res :: "int \<Rightarrow> bytes \<Rightarrow> nat \<Rightarrow> response" where
  "ok_res n d sz = \<lparr>res = n, err = 1, dat = d, regular = True, fsize = int sz, revents = 0\<rparr>"

definition is_patch_name :: "bytes \<Rightarrow> bool" where
  "is_patch_name name \<longleftrightarrow> take (length (ascii ''ROMv2_lm_patch'')) (str_of name) = ascii ''ROMv2_lm_patch''"

text \<open>The reads of a 28-byte header: the file may be shorter, then a read at its end gives nothing.\<close>

definition header_reads :: "bytes \<Rightarrow> response list" where
  "header_reads content =
     (if 28 \<le> length content then [ok_res 28 content 0]
      else if content = [] then [ok_res 0 [] 0]
      else [ok_res (int (length content)) content 0, ok_res 0 [] 0])"

definition entry_script :: "entry \<Rightarrow> response list" where
  "entry_script e = ok_res 1 (fst e) 0 #
     (if is_patch_name (fst e)
      then [ok_res 7 [] 0, ok_res 0 [] (length (snd e))] @ header_reads (snd e) @ [ok_res 0 [] 0]
      else [])"

definition dir_script :: "entry list \<Rightarrow> response list" where
  "dir_script es = ok_res 3 [] 0 # concat (map entry_script es) @ [ok_res 0 [] 0, ok_res 0 [] 0]"

text \<open>The effect of one entry on what is collected; None is a refusal of the whole search.\<close>

definition add_patch :: "u16 \<Rightarrow> bytes \<Rightarrow> bytes \<Rightarrow> wmt_firmware_result \<Rightarrow> wmt_firmware_result option" where
  "add_patch fw name h s =
     (if \<not> valid_basename name then None
      else if h ! 23 \<noteq> ucast fw then Some s
      else if \<not> valid_file (file_of_header h name) then None
      else map_option (\<lambda>p. s\<lparr>fr_patches := p,
          fr_versions := (fr_versions s)[patch_slot (file_of_header h name) := take 15 h @ [0]]\<rparr>)
        (patch_add (fr_patches s) (file_of_header h name)))"

definition fw_add :: "u16 \<Rightarrow> wmt_firmware_result \<Rightarrow> entry \<Rightarrow> wmt_firmware_result option" where
  "fw_add fw s e =
     (if \<not> is_patch_name (fst e) then Some s
      else if length (snd e) < 28 then None
      else add_patch fw (str_of (fst e) @ [0]) (take 28 (snd e)) s)"

section \<open>Running the search on a directory\<close>

lemmas run_simps = bind_def sys_def ret_def mem_def ok_res_def

lemma read_exact_header:
  "read_exact fd (uninitialised 28) 28 \<lparr>script = header_reads content @ rest, trace = t\<rparr> =
     Done (if 28 \<le> length content then (0, take 28 content)
           else (- EMSGSIZE, content @ replicate (28 - length content) 0))
       \<lparr>script = rest, trace = t @ (if 28 \<le> length content then [(Read fd 28, ok_res 28 content 0)]
          else if content = [] then [(Read fd 28, ok_res 0 [] 0)]
          else [(Read fd 28, ok_res (int (length content)) content 0),
                (Read fd (28 - length content), ok_res 0 [] 0)])\<rparr>"
  unfolding read_exact_def header_reads_def uninitialised_def
  by (subst loop.simps, simp add: run_simps delivered_def blit_def, subst loop.simps,
      simp add: run_simps delivered_def blit_def, subst loop.simps, simp add: run_simps delivered_def blit_def)

lemma read_patch_run:
  assumes wf: "wf_firmware s" and h: "length h = 28" and nul: "0 \<in> set name"
    and rd: "read_exact fd (uninitialised 28) 28 w = Done (0, h) w'"
  obtains e s' where "read_patch fd st name fw s w = Done (e, s') w'"
    "add_patch fw name h s = (if e = 0 then Some s' else None)"
proof -
  let ?f = "file_of_header h name" and ?p = "fr_patches s"
  have wfp: "wf_patch_set ?p" using wf by (simp add: wf_firmware_def)
  have parse: "wmt_patch_parse (Some h) 28 (Some name) fw (Some zero_patch_file) = Some
    (if \<not> valid_basename name then (- EINVAL, Some zero_patch_file)
     else if h ! 23 \<noteq> ucast fw then (1, Some zero_patch_file)
     else if valid_file ?f then (0, Some ?f) else (- EINVAL, Some zero_patch_file))"
    using patch_parse_eq [OF nul, of h] h by simp
  obtain rc p where add: "wmt_patch_set_add (Some ?p) (Some ?f) = Some (rc, Some p)" "rc \<le> 0" "- 4095 \<le> rc"
    using patch_set_add_total [OF wfp] .
  have version: "wmt_patch_build_version (Some h) 28 (Some (fr_versions s ! patch_slot ?f))
      = Some (0, Some (take 15 h @ [0]))" "patch_slot ?f < length (fr_versions s)"
    if "valid_file ?f"
    using wf h patch_slot_eq(3) [OF that] by (auto simp: wf_firmware_def intro!: build_version_eq)
  let ?x = "if \<not> valid_basename name then (- EINVAL, s) else if h ! 23 \<noteq> ucast fw then (0, s)
     else if \<not> valid_file ?f then (- EINVAL, s) else if rc \<noteq> 0 then (rc, s)
     else (0, s\<lparr>fr_patches := p, fr_versions := (fr_versions s)[patch_slot ?f := take 15 h @ [0]]\<rparr>)"
  have after_read: "bind (read_exact fd (uninitialised 28) 28) g w = g (0, h) w'" for g :: "_ \<Rightarrow> (int \<times> _) posix"
    using rd by (simp add: bind_def)
  have "read_patch fd st name fw s w = Done ?x w'"
    unfolding read_patch_def patch_const_defs after_read
    using version patch_slot_eq(1) [of ?f] by (simp add: parse add(1)) (simp add: ret_def)
  moreover have "add_patch fw name h s = (if fst ?x = 0 then Some (snd ?x) else None)"
    by (simp add: add_patch_def patch_add_def add(1))
  ultimately show thesis using that [of "fst ?x" "snd ?x"] by simp
qed

lemma candidate_run:
  assumes wf: "wf_firmware s" and name: "is_patch_name name"
  obtains e s' t' where
    "search_candidate read_patch d (str_of name @ [0]) fw s
       \<lparr>script = ok_res 7 [] 0 # ok_res 0 [] n # header_reads content @ ok_res 0 [] 0 # rest, trace = t\<rparr>
     = Done (e, s') \<lparr>script = rest, trace = t'\<rparr>"
    "fw_add fw s (name, content) = (if e = 0 then Some s' else None)"
proof (cases "28 \<le> length content")
  case True
  let ?t = "t @ [(Openat d (str_of name @ [0]), ok_res 7 [] 0), (Fstat 7, ok_res 0 [] n)]"
  have rd: "read_exact 7 (uninitialised 28) 28 \<lparr>script = header_reads content @ ok_res 0 [] 0 # rest, trace = ?t\<rparr>
      = Done (0, take 28 content) \<lparr>script = ok_res 0 [] 0 # rest, trace = ?t @ [(Read 7 28, ok_res 28 content 0)]\<rparr>"
    using True by (simp add: read_exact_header)
  obtain e s' where "read_patch 7 (int n) (str_of name @ [0]) fw s
      \<lparr>script = header_reads content @ ok_res 0 [] 0 # rest, trace = ?t\<rparr>
      = Done (e, s') \<lparr>script = ok_res 0 [] 0 # rest, trace = ?t @ [(Read 7 28, ok_res 28 content 0)]\<rparr>"
    and "add_patch fw (str_of name @ [0]) (take 28 content) s = (if e = 0 then Some s' else None)"
    by (rule read_patch_run [OF wf _ _ rd, of "str_of name @ [0]" "int n" fw]) (use True in auto)
  then show ?thesis using that True name
    by (simp add: search_candidate_def fw_add_def) (simp add: run_simps)
next
  case False
  have "\<exists>t'. search_candidate read_patch d (str_of name @ [0]) fw s
       \<lparr>script = ok_res 7 [] 0 # ok_res 0 [] n # header_reads content @ ok_res 0 [] 0 # rest, trace = t\<rparr>
     = Done (- EMSGSIZE, s) \<lparr>script = rest, trace = t'\<rparr>"
    using False
    by (simp add: search_candidate_def read_patch_def patch_const_defs bind_def sys_def
        read_exact_header ret_def) (simp add: ok_res_def)
  then show ?thesis using that False name by (auto simp: fw_add_def)
qed


lemma fw_add_wf: "wf_firmware s \<Longrightarrow> fw_add fw s x = Some s' \<Longrightarrow> wf_firmware s'"
proof (cases x)
  case (Pair name content)
  assume wf: "wf_firmware s" and add: "fw_add fw s x = Some s'"
  let ?n = "str_of name @ [0]" and ?h = "take 28 content"
  have wfp: "wf_patch_set (fr_patches s)" using wf by (simp add: wf_firmware_def)
  show ?thesis
  proof (cases "s' = s")
    case False
    then have ok: "is_patch_name name" "28 \<le> length content" "valid_basename ?n"
        "valid_file (file_of_header ?h ?n)"
      and "\<exists>p. patch_add (fr_patches s) (file_of_header ?h ?n) = Some p \<and> s' = s\<lparr>fr_patches := p,
          fr_versions := (fr_versions s)[patch_slot (file_of_header ?h ?n) := take 15 ?h @ [0]]\<rparr>"
      using add Pair by (auto simp: fw_add_def add_patch_def split: if_splits)
    then show ?thesis
      using read_patch_step [OF wf, of ?h ?n] by (auto simp: patch_add_Some [OF wfp] is_patch_name_def)
  qed (use wf in simp)
qed

lemma patch_prefix_test:
  "strneq (str_of name @ [0]) (cstr ''ROMv2_lm_patch'') 14 = Some (is_patch_name name)"
proof -
  have l: "length (ascii ''ROMv2_lm_patch'') = 14" and z: "0 \<notin> set (ascii ''ROMv2_lm_patch'')"
    by (simp_all add: ascii_def)
  show ?thesis using strneq_prefix [OF _ z, of "str_of name @ [0]"]
    unfolding cstr_prefix is_patch_name_def l by simp
qed

text \<open>One entry: skipped, taken, or the end of the search.\<close>

lemma search_step_entry:
  assumes "wf_firmware s"
  obtains e s' tr where
    "search_step read_patch 3 (cstr ''ROMv2_lm_patch'') 14 fw s
       \<lparr>script = entry_script x @ rest, trace = t\<rparr>
     = Done (if e = 0 then Inl s' else Inr (e, s')) \<lparr>script = rest, trace = tr\<rparr>"
    "fw_add fw s x = (if e = 0 then Some s' else None)"
proof (cases "is_patch_name (fst x)")
  case False
  then show ?thesis
    using that [of 0 s "t @ [(Readdir 3, ok_res 1 (fst x) 0)]"]
    by (simp add: search_step_def patch_prefix_test entry_script_def fw_add_def run_simps)
next
  case True
  obtain e s' tr where run:
    "search_candidate read_patch 3 (str_of (fst x) @ [0]) fw s
       \<lparr>script = ok_res 7 [] 0 # ok_res 0 [] (length (snd x)) # header_reads (snd x) @ ok_res 0 [] 0 # rest,
        trace = t @ [(Readdir 3, ok_res 1 (fst x) 0)]\<rparr> = Done (e, s') \<lparr>script = rest, trace = tr\<rparr>"
    and add: "fw_add fw s x = (if e = 0 then Some s' else None)"
    using candidate_run [OF assms True] by (metis prod.collapse)
  show ?thesis using True run add that [of e s' tr]
    by (simp add: search_step_def entry_script_def patch_prefix_test run_simps)
qed

text \<open>The turns of the loop over a list of entries, up to the end or the first refusal.\<close>

lemma search_entries:
  assumes "wf_firmware s"
  shows "\<exists>e s' tr rest'. loop (search_step read_patch 3 (cstr ''ROMv2_lm_patch'') 14 fw) s
       \<lparr>script = concat (map entry_script es) @ ok_res 0 [] 0 # rest, trace = t\<rparr>
     = Done (e, s') \<lparr>script = rest', trace = tr\<rparr>
     \<and> foldo (fw_add fw) es s = (if e = 0 then Some s' else None) \<and> length rest \<le> length rest'
     \<and> (e = 0 \<longrightarrow> rest' = rest)"
  using assms
proof (induction es arbitrary: s t)
  case Nil
  then show ?case by (subst loop.simps) (simp add: search_step_def run_simps)
next
  case (Cons x es)
  let ?rest = "concat (map entry_script es) @ ok_res 0 [] 0 # rest"
  obtain e s' tr where run:
    "search_step read_patch 3 (cstr ''ROMv2_lm_patch'') 14 fw s \<lparr>script = entry_script x @ ?rest, trace = t\<rparr>
      = Done (if e = 0 then Inl s' else Inr (e, s')) \<lparr>script = ?rest, trace = tr\<rparr>"
    and add: "fw_add fw s x = (if e = 0 then Some s' else None)"
    using search_step_entry [OF Cons.prems] .
  have len: "length ?rest < length (entry_script x @ ?rest)" by (simp add: entry_script_def)
  show ?case
  proof (cases "e = 0")
    case True
    have "wf_firmware s'" using fw_add_wf [OF Cons.prems] add True by simp
    moreover have "loop (search_step read_patch 3 (cstr ''ROMv2_lm_patch'') 14 fw) s \<lparr>script = entry_script x @ ?rest, trace = t\<rparr>
        = loop (search_step read_patch 3 (cstr ''ROMv2_lm_patch'') 14 fw) s' \<lparr>script = ?rest, trace = tr\<rparr>"
      using run True len by (intro loop_again) simp_all
    ultimately show ?thesis using Cons.IH [of s' tr] add True by simp
  next
    case False
    then have "loop (search_step read_patch 3 (cstr ''ROMv2_lm_patch'') 14 fw) s \<lparr>script = entry_script x @ ?rest, trace = t\<rparr>
        = Done (e, s') \<lparr>script = ?rest, trace = tr\<rparr>"
      using run by (intro loop_exit) simp
    then show ?thesis using False add by simp
  qed
qed


section \<open>The order of the entries\<close>

text \<open>What an entry offers: a refusal, nothing, or a patch file with its version.\<close>

definition offer :: "u16 \<Rightarrow> entry \<Rightarrow> (wmt_patch_file \<times> bytes) option option" where
  "offer fw e = (let name = str_of (fst e) @ [0]; h = take 28 (snd e) in
     if \<not> is_patch_name (fst e) then Some None
     else if length (snd e) < 28 \<or> \<not> valid_basename name then None
     else if h ! 23 \<noteq> ucast fw then Some None
     else if \<not> valid_file (file_of_header h name) then None
     else Some (Some (file_of_header h name, take 15 h @ [0])))"

lemma fw_add_offer:
  "fw_add fw s e = (case offer fw e of None \<Rightarrow> None | Some None \<Rightarrow> Some s
     | Some (Some (f, v)) \<Rightarrow> map_option (\<lambda>p. s\<lparr>fr_patches := p,
          fr_versions := (fr_versions s)[patch_slot f := v]\<rparr>) (patch_add (fr_patches s) f))"
  by (simp add: fw_add_def add_patch_def offer_def Let_def)

lemma patch_add_slots_differ:
  assumes "wf_patch_set s" "patch_add s f = Some s1" "patch_add s1 g = Some s2"
  shows "patch_slot f \<noteq> patch_slot g"
proof -
  have wf1: "wf_patch_set s1" using patches.valid_add [OF assms(1,2)] .
  show ?thesis
    using patch_set_add_lookup(5) [OF assms(1) assms(2) [unfolded patch_add_Some [OF assms(1)]]]
      patch_set_add_lookup(3) [OF wf1 assms(3) [unfolded patch_add_Some [OF wf1]]] by auto
qed

lemma fw_add_commute:
  assumes wf: "wf_firmware s" and x: "fw_add fw s x = Some s1" and y: "fw_add fw s1 y = Some s2"
  shows "\<exists>s1'. fw_add fw s y = Some s1' \<and> fw_add fw s1' x = Some s2"
proof -
  obtain ox oy where o: "offer fw x = Some ox" "offer fw y = Some oy"
    using x y by (auto simp: fw_add_offer split: option.splits)
  show ?thesis
  proof (cases "ox = None \<or> oy = None")
    case True
    then show ?thesis using x y o by (auto simp: fw_add_offer split: option.splits)
  next
    case False
    then obtain f v g u where fg: "ox = Some (f, v)" "oy = Some (g, u)" by auto
    have wfp: "wf_patch_set (fr_patches s)" using wf by (simp add: wf_firmware_def)
    obtain p1 where p1: "patch_add (fr_patches s) f = Some p1" 
      and s1: "s1 = s\<lparr>fr_patches := p1, fr_versions := (fr_versions s)[patch_slot f := v]\<rparr>"
      using x o fg by (auto simp: fw_add_offer)
    obtain p2 where p2: "patch_add p1 g = Some p2"
      and s2: "s2 = s1\<lparr>fr_patches := p2, fr_versions := (fr_versions s1)[patch_slot g := u]\<rparr>"
      using y o fg s1 by (auto simp: fw_add_offer)
    obtain q where q: "patch_add (fr_patches s) g = Some q" "patch_add q f = Some p2"
      using patches.add_commute [OF wfp p1 p2] by blast
    then show ?thesis
      using s1 s2 o fg patch_add_slots_differ [OF wfp p1 p2]
      by (simp add: fw_add_offer list_update_swap)
  qed
qed

interpretation entries: commuting_add wf_firmware "fw_add fw"
  by unfold_locales (fact fw_add_wf, fact fw_add_commute)

lemma patch_prefix_length: "strlen (cstr ''ROMv2_lm_patch'') = Some 14"
  by (simp add: cstr_def ascii_def)

lemma firmware_search_listing:
  "\<exists>rc out' w'. wmt_firmware_search (Some (cstr ''/fw'')) fw (Some out) (world0 (dir_script es)) = Done (rc, out') w'
     \<and> (rc = 0 \<longleftrightarrow> (\<exists>r. foldo (fw_add fw) es zero_firmware_result = Some r
            \<and> wmt_patch_set_complete (Some (fr_patches r)) = 0))
     \<and> (rc = 0 \<longrightarrow> out' = foldo (fw_add fw) es zero_firmware_result)"
proof -
  obtain e s tr rest where run: "loop (search_step read_patch 3 (cstr ''ROMv2_lm_patch'') 14 fw) zero_firmware_result
       \<lparr>script = concat (map entry_script es) @ ok_res 0 [] 0 # [ok_res 0 [] 0], trace = [(Opendir (cstr ''/fw''), ok_res 3 [] 0)]\<rparr>
     = Done (e, s) \<lparr>script = rest, trace = tr\<rparr>"
    and fold: "foldo (fw_add fw) es zero_firmware_result = (if e = 0 then Some s else None)"
    and rest: "1 \<le> length rest" "e = 0 \<longrightarrow> rest = [ok_res 0 [] 0]"
    using search_entries [OF wf_zero_firmware, of fw es "[ok_res 0 [] 0]" "[(Opendir (cstr ''/fw''), ok_res 3 [] 0)]"]
    by auto
  obtain c rest' where c: "rest = c # rest'" using rest(1) by (cases rest) auto
  have dir: "search_directory (cstr ''/fw'') (cstr ''ROMv2_lm_patch'') fw read_patch zero_firmware_result
      (world0 (dir_script es)) = Done (e, s) \<lparr>script = rest', trace = tr @ [(Closedir 3, c)]\<rparr>"
    using run rest(2) unfolding c
    by (auto simp: search_directory_def dir_script_def world0_def run_simps patch_prefix_length)
  have slash: "rd (cstr ''/fw'') 0 = Some 47" by (simp add: cstr_def ascii_def rd_def)
  show ?thesis
    using fold by (auto simp: wmt_firmware_search_def slash bind_def dir ret_def Let_def)
qed

text \<open>C12: The normal firmware search on a stable directory gives the same answer for every order in
  which the directory lists its entries: if it succeeds on one listing, it succeeds with the
  identical patch set and version strings on each reordering, and if it fails, it fails on each
  reordering.\<close>

theorem firmware_search_order:
  assumes "mset es = mset es'"
  shows "\<exists>rc out1 w1 rc' out2 w2.
     wmt_firmware_search (Some (cstr ''/fw'')) fw (Some out) (world0 (dir_script es)) = Done (rc, out1) w1
   \<and> wmt_firmware_search (Some (cstr ''/fw'')) fw (Some out) (world0 (dir_script es')) = Done (rc', out2) w2
   \<and> (rc = 0 \<longleftrightarrow> rc' = 0) \<and> (rc = 0 \<longrightarrow> out1 = out2)"
proof -
  have "foldo (fw_add fw) es zero_firmware_result = foldo (fw_add fw) es' zero_firmware_result"
    using entries.foldo_perm [OF wf_zero_firmware assms] entries.foldo_perm [OF wf_zero_firmware assms [symmetric]]
    by (metis not_None_eq)
  then show ?thesis
    using firmware_search_listing [of fw out es] firmware_search_listing [of fw out es'] by metis
qed

definition sample_entry :: entry where
  "sample_entry = (ascii ''ROMv2_lm_patch_1'', replicate 23 0 @ [7, 0x11, 1, 2, 3])"

lemma sample_listing_complete:
  "\<exists>r. foldo (fw_add 7) [sample_entry, (ascii ''other'', [])] zero_firmware_result = Some r
     \<and> wmt_patch_set_complete (Some (fr_patches r)) = 0"
proof -
  have "wmt_patch_set_complete (map_option fr_patches
      (foldo (fw_add 7) [sample_entry, (ascii ''other'', [])] zero_firmware_result)) = 0"
    by code_simp
  then show ?thesis
    by (cases "foldo (fw_add 7) [sample_entry, (ascii ''other'', [])] zero_firmware_result")
      (auto simp: wmt_patch_set_complete_def)
qed

theorem firmware_search_order_witness:
  "mset [sample_entry, (ascii ''other'', [])] = mset [(ascii ''other'', []), sample_entry]
   \<and> (\<exists>out1 w1 w2.
     wmt_firmware_search (Some (cstr ''/fw'')) 7 (Some zero_firmware_result)
        (world0 (dir_script [sample_entry, (ascii ''other'', [])])) = Done (0, out1) w1
   \<and> wmt_firmware_search (Some (cstr ''/fw'')) 7 (Some zero_firmware_result)
        (world0 (dir_script [(ascii ''other'', []), sample_entry])) = Done (0, out1) w2)"
proof -
  have m: "mset [sample_entry, (ascii ''other'', [])] = mset [(ascii ''other'', []), sample_entry]" by simp
  show ?thesis
    using m firmware_search_order [OF m, of 7 zero_firmware_result] sample_listing_complete
      firmware_search_listing [of 7 zero_firmware_result "[sample_entry, (ascii ''other'', [])]"]
    by (elim exE conjE) simp
qed

end
