(* ===== verification/Hex_Text.thy ===== *)
theory Hex_Text
  imports Prelude
begin

text \<open>
  The hexadecimal parser and printer of the C library, for the texts the WMT services apply them
  to: \<open>strtoul(s, &end, 16)\<close> and \<open>"0x%04x"\<close>, with their round trip.
\<close>

section \<open>Hexadecimal text\<close>

definition isxdigit :: "byte \<Rightarrow> bool" where
  "isxdigit c \<longleftrightarrow> 48 \<le> c \<and> c \<le> 57 \<or> 65 \<le> c \<and> c \<le> 70 \<or> 97 \<le> c \<and> c \<le> 102"

definition xdigit :: "byte \<Rightarrow> nat" where
  "xdigit c = (if c \<le> 57 then unat c - 48 else if c \<le> 70 then unat c - 55 else unat c - 87)"

text \<open>
  \<open>strtoul(s, &end, 16)\<close> on a string that starts with a hexadecimal digit, so without the leading
  blanks and sign it would skip: the value, the characters from \<open>end\<close> on, and whether \<open>errno\<close> is
  set because the value exceeds 64 bits.
\<close>

definition hex_body :: "bytes \<Rightarrow> bytes" where
  "hex_body s = (case s of
     z # x # d # r \<Rightarrow> if z = 48 \<and> (x = 120 \<or> x = 88) \<and> isxdigit d then d # r else s | _ \<Rightarrow> s)"

definition hex_value :: "bytes \<Rightarrow> nat" where
  "hex_value ds = foldl (\<lambda>a c. 16 * a + xdigit c) 0 ds"

definition strtoul16 :: "bytes \<Rightarrow> nat \<times> bytes \<times> bool" where
  "strtoul16 s =
     (let v = hex_value (takeWhile isxdigit (hex_body s)) in
      (if v < 2 ^ 64 then v else 2 ^ 64 - 1, dropWhile isxdigit (hex_body s), 2 ^ 64 \<le> v))"

text \<open>\<open>"0x%04x"\<close>.\<close>

definition xchar :: "nat \<Rightarrow> byte" where
  "xchar n = of_nat (if n < 10 then 48 + n else 87 + n)"

fun hex_digits :: "nat \<Rightarrow> bytes" where
  "hex_digits n = (if n < 16 then [xchar n] else hex_digits (n div 16) @ [xchar (n mod 16)])"

declare hex_digits.simps [simp del]

definition format_chip :: "nat \<Rightarrow> bytes" where
  "format_chip n = [48, 120] @ replicate (4 - length (hex_digits n)) 48 @ hex_digits n"

section \<open>Hexadecimal round trip\<close>

lemma nibble_cases: "n < 16 \<Longrightarrow> n \<in> {0, 1, 2, 3, 4, 5, 6, 7, 8, 9, 10, 11, 12, 13, 14, 15}" for n :: nat
  by (simp, presburger)

lemma xdigit_xchar: "n < 16 \<Longrightarrow> xdigit (xchar n) = n \<and> isxdigit (xchar n)"
  by (drule nibble_cases) (auto simp: xdigit_def xchar_def isxdigit_def)

lemma hex_value_append: "hex_value (ds @ [c]) = 16 * hex_value ds + xdigit c"
  by (simp add: hex_value_def)

lemma hex_digits_value: "hex_value (hex_digits n) = n \<and> (\<forall>c\<in>set (hex_digits n). isxdigit c)"
proof (induction n rule: hex_digits.induct)
  case (1 n)
  show ?case
  proof (cases "n < 16")
    case True
    then show ?thesis using xdigit_xchar by (subst (1 2) hex_digits.simps) (simp add: hex_value_def)
  next
    case False
    then show ?thesis using 1 xdigit_xchar [of "n mod 16"]
      by (subst (1 2) hex_digits.simps) (auto simp: hex_value_append)
  qed
qed

lemma hex_digits_nonempty: "hex_digits n \<noteq> []"
  by (subst hex_digits.simps) simp

lemma hex_value_zeros: "hex_value (replicate k 48 @ ds) = hex_value ds"
  by (induction k) (simp_all add: hex_value_def xdigit_def)

lemma strtoul16_format:
  assumes "n < 2 ^ 64"
  shows "strtoul16 (format_chip n) = (n, [], False)"
proof -
  let ?ds = "replicate (4 - length (hex_digits n)) 48 @ hex_digits n"
  have x: "\<forall>c\<in>set ?ds. isxdigit c" using hex_digits_value by (auto simp: isxdigit_def)
  obtain d r where d: "?ds = d # r" using hex_digits_nonempty by (cases ?ds) auto
  have body: "hex_body (format_chip n) = ?ds"
    using x unfolding format_chip_def d by (simp add: hex_body_def)
  have all: "takeWhile isxdigit ?ds = ?ds" "dropWhile isxdigit ?ds = []" using x by simp_all
  show ?thesis unfolding strtoul16_def body all hex_value_zeros
    using assms hex_digits_value [of n] by simp
qed

end
