(* ===== verification/Wmt_Loader.thy ===== *)
theory Wmt_Loader
  imports Posix Hex_Text
begin

text \<open>
  The WMT loader, \<open>wmt-loader/main.c\<close>: it waits for the detector node, takes the chip ID from a
  property or the detector, initialises the driver with three ioctls and publishes readiness.
\<close>

section \<open>Constants\<close>

definition WMT_SET_CHIP_ID :: request where "WMT_SET_CHIP_ID = IOW 119 1"
definition WMT_GET_SOC_ID :: request where "WMT_GET_SOC_ID = IOR 119 3"
definition WMT_MODULE_INIT :: request where "WMT_MODULE_INIT = IOR 119 4"
definition WMT_MODULE_CLEANUP :: request where "WMT_MODULE_CLEANUP = IOR 119 5"
definition DETECT_NODE :: bytes where "DETECT_NODE = cstr ''/dev/wmtdetect''"
definition CHIP_PROPERTY :: string where "CHIP_PROPERTY = ''persist.vendor.connsys.chipid''"
definition READY_PROPERTY :: string where "READY_PROPERTY = ''vendor.connsys.driver.ready''"
definition NODE_ATTEMPTS :: nat where "NODE_ATTEMPTS = 200"
definition NODE_RETRY_US :: int where "NODE_RETRY_US = 300000"

section \<open>Operations\<close>

definition supported_chip :: "nat \<Rightarrow> bool" where
  "supported_chip chip \<longleftrightarrow> chip = 0x6755 \<or> chip = 0x0326"

text \<open>The decision of \<open>cached_chip_id\<close> on the property value: the chip ID, or None for false.\<close>

definition parse_chip_id :: "bytes \<Rightarrow> nat option" where
  "parse_chip_id value =
     (case value of [] \<Rightarrow> None
      | c # _ \<Rightarrow>
        if \<not> isxdigit c then None
        else (case strtoul16 value of (parsed, rest, overflow) \<Rightarrow>
          if overflow \<or> rest \<noteq> [] \<or> parsed > 2 ^ 32 - 1 \<or> \<not> supported_chip parsed then None
          else Some parsed))"

definition cached_chip_id :: "nat option posix" where
  "cached_chip_id = bind (property_get CHIP_PROPERTY) (\<lambda>value. ret (parse_chip_id value))"

definition open_detector :: "int posix" where
  "open_detector = loop (\<lambda>attempt.
     if attempt < NODE_ATTEMPTS then
       bind (sys (Open DETECT_NODE)) (\<lambda>f.
       if res f \<ge> 0 then ret (Inr (res f))
       else if err f \<noteq> ENOENT \<and> err f \<noteq> ENODEV \<and> err f \<noteq> EINTR then ret (Inr (-1))
       else if attempt + 1 < NODE_ATTEMPTS then bind (sys (Usleep NODE_RETRY_US)) (\<lambda>_. ret (Inl (attempt + 1)))
       else ret (Inl (attempt + 1)))
     else ret (Inr (-1))) 0"

fun init_requests :: "int \<Rightarrow> (request \<times> nat) list \<Rightarrow> int posix" where
  "init_requests fd [] = ret 0"
| "init_requests fd ((request, argument) # rest) =
     bind (sys (Ioctl fd request (Scalar (int argument)))) (\<lambda>r.
     if res r \<noteq> 0 then ret (-1) else init_requests fd rest)"

definition initialize_driver :: "int \<Rightarrow> nat \<Rightarrow> int posix" where
  "initialize_driver fd chip =
     (let init_chip = (if chip = 0x0326 then 0x6755 else chip) in
      init_requests fd [(WMT_SET_CHIP_ID, chip), (WMT_MODULE_CLEANUP, init_chip), (WMT_MODULE_INIT, init_chip)])"

text \<open>The chip ID of \<open>main\<close>: cached, or detected and published. None is the jump to \<open>out\<close>.\<close>

definition loader_chip :: "int \<Rightarrow> nat option posix" where
  "loader_chip fd =
     bind cached_chip_id (\<lambda>cached.
     case cached of Some chip \<Rightarrow> ret (Some chip)
     | None \<Rightarrow>
       bind (sys (Ioctl fd WMT_GET_SOC_ID (Scalar 0))) (\<lambda>detected.
       if res detected < 0 \<or> \<not> supported_chip (nat (res detected)) then ret None
       else bind (sys (Property_set CHIP_PROPERTY (format_chip (nat (res detected))))) (\<lambda>p.
         ret (if res p \<noteq> 0 then None else Some (nat (res detected))))))"

definition loader_body :: "int \<Rightarrow> int posix" where
  "loader_body fd =
     bind (loader_chip fd) (\<lambda>chip.
     case chip of None \<Rightarrow> ret 1
     | Some chip \<Rightarrow>
       bind (initialize_driver fd chip) (\<lambda>failed.
       if failed \<noteq> 0 then ret 1
       else bind (sys (Property_set READY_PROPERTY (ascii ''yes''))) (\<lambda>p.
         ret (if res p \<noteq> 0 then 1 else 0))))"

definition loader_main :: "int posix" where
  "loader_main =
     bind (property_get READY_PROPERTY) (\<lambda>ready.
     if ready = ascii ''yes'' then ret 0
     else bind open_detector (\<lambda>fd.
       if fd < 0 then ret 1
       else bind (loader_body fd) (\<lambda>status.
         bind (sys (Close fd)) (\<lambda>_. ret status))))"


section \<open>Behaviour of the loader\<close>

text \<open>The three initialisation calls, all successful, for a supported chip.\<close>

definition initialised :: "(call \<times> response) list \<Rightarrow> bool" where
  "initialised t \<longleftrightarrow> (\<exists>fd chip r1 r2 r3. supported_chip chip \<and> res r1 = 0 \<and> res r2 = 0 \<and> res r3 = 0
     \<and> t = [(Ioctl fd WMT_SET_CHIP_ID (Scalar (int chip)), r1),
            (Ioctl fd WMT_MODULE_CLEANUP (Scalar 0x6755), r2),
            (Ioctl fd WMT_MODULE_INIT (Scalar 0x6755), r3)])"

text \<open>Every publication of readiness in the log directly follows them.\<close>

definition ready_after_init :: "(call \<times> response) list \<Rightarrow> bool" where
  "ready_after_init t \<longleftrightarrow> (\<forall>pre v r post. t = pre @ (Property_set READY_PROPERTY v, r) # post
     \<longrightarrow> v = ascii ''yes'' \<and> (\<exists>pre' mid. pre = pre' @ mid \<and> initialised mid))"

definition quiet :: "call \<Rightarrow> bool" where
  "quiet c \<longleftrightarrow> (\<forall>v. c \<noteq> Property_set READY_PROPERTY v)"

lemma ready_append_quiet:
  assumes "ready_after_init t" "\<forall>e\<in>set ext. quiet (fst e)"
  shows "ready_after_init (t @ ext)"
  unfolding ready_after_init_def
proof (intro allI impI)
  fix pre v r post
  assume eq: "t @ ext = pre @ (Property_set READY_PROPERTY v, r) # post"
  have "(Property_set READY_PROPERTY v, r) \<notin> set ext" using assms(2) by (auto simp: quiet_def)
  with eq have "\<exists>post'. t = pre @ (Property_set READY_PROPERTY v, r) # post'"
    by (auto simp: append_eq_append_conv2 Cons_eq_append_conv append_eq_Cons_conv)
  then show "v = ascii ''yes'' \<and> (\<exists>pre' mid. pre = pre' @ mid \<and> initialised mid)"
    using assms(1) unfolding ready_after_init_def by blast
qed


lemma ready_after_quiet:
  "after w c r w' \<Longrightarrow> quiet c \<Longrightarrow> ready_after_init (trace w) \<Longrightarrow> ready_after_init (trace w')"
  using ready_append_quiet [of "trace w" "[(c, r)]"] by (simp add: after_def)

lemma ready_publish:
  assumes "ready_after_init (pre @ mid)" "initialised mid"
  shows "ready_after_init (pre @ mid @ [(Property_set READY_PROPERTY (ascii ''yes''), r)])"
  unfolding ready_after_init_def
proof (intro allI impI)
  fix pre' v r' post
  assume eq: "pre @ mid @ [(Property_set READY_PROPERTY (ascii ''yes''), r)] = pre' @ (Property_set READY_PROPERTY v, r') # post"
  show "v = ascii ''yes'' \<and> (\<exists>p m. pre' = p @ m \<and> initialised m)"
  proof (cases post rule: rev_cases)
    case Nil
    then show ?thesis using eq assms(2) by auto
  next
    case (snoc q x)
    then have "pre @ mid = pre' @ (Property_set READY_PROPERTY v, r') # q" using eq by simp
    then show ?thesis using assms(1) unfolding ready_after_init_def by blast
  qed
qed

text \<open>Where the loader stands: readiness published only after initialisation, holding \<open>M\<close>.\<close>

definition loader_at :: "handle multiset \<Rightarrow> pworld \<Rightarrow> bool" where
  "loader_at M w \<longleftrightarrow> ready_after_init (trace w) \<and> holding (trace w) M"

abbreviation "ready_ok \<equiv> \<lambda>w::pworld. ready_after_init (trace w)"

lemma loader_at_call:
  "after w c r w' \<Longrightarrow> quiet c \<Longrightarrow> loader_at M w \<Longrightarrow> M + acquires (c, r) = releases (c, r) + M' \<Longrightarrow> loader_at M' w'"
  using ready_after_quiet after_holding unfolding loader_at_def by blast

lemma open_detector_wp:
  assumes "loader_at M w"
  shows "wp open_detector (\<lambda>fd. loader_at (M + (if fd < 0 then {#} else {#FD fd#}))) ready_ok w"
  unfolding open_detector_def
proof (rule wp_loop [where I = "\<lambda>_. loader_at M"], goal_cases)
  case (2 attempt v)
  show ?case
  proof (cases "attempt < NODE_ATTEMPTS")
    case True
    note at = 2
    show ?thesis
      unfolding if_P [OF True]
    proof (rule wp_call_B, goal_cases)
      case (2 f v1)
      have at1: "loader_at (M + (if res f < 0 then {#} else {#FD (res f)#})) v1"
        using loader_at_call [OF 2 _ at] by (auto simp: quiet_def)
      have len: "length (script v1) < length (script v)" using after_length [OF 2] .
      have sleep: "loader_at M v2 \<and> length (script v2) < length (script v)"
        if "after v1 (Usleep NODE_RETRY_US) r v2" "loader_at M v1" for r v2
        using loader_at_call [OF that(1) _ that(2)] after_length [OF that(1)] len by (auto simp: quiet_def)
      show ?case using at1 len sleep
        by (auto simp: wp_ret loader_at_def intro!: wp_call_B)
    qed (use at in \<open>simp add: loader_at_def\<close>)
  next
    case False
    then show ?thesis using 2 by (simp add: wp_ret)
  qed
qed (use assms in simp)


lemma parse_chip_supported: "parse_chip_id v = Some chip \<Longrightarrow> supported_chip chip"
  by (auto simp: parse_chip_id_def split: list.splits prod.splits if_splits)

lemma quiet_chip [simp]: "quiet (Property_set CHIP_PROPERTY v)"
  by (simp add: quiet_def CHIP_PROPERTY_def READY_PROPERTY_def)

lemma quiet_other [simp]:
  "quiet (Property_get k)" "quiet (Ioctl fd q a)" "quiet (Close fd)" "quiet (Open n)" "quiet (Usleep t)"
  by (simp_all add: quiet_def)

lemma loader_at_ready: "loader_at M w \<Longrightarrow> ready_after_init (trace w)"
  by (simp add: loader_at_def)

text \<open>A call that neither publishes readiness nor acquires or releases anything.\<close>

lemma wp_quiet_call:
  assumes "loader_at M w" "quiet c" "\<And>r. acquires (c, r) = {#}" "\<And>r. releases (c, r) = {#}"
    and "\<And>r w'. loader_at M w' \<Longrightarrow> trace w' = trace w @ [(c, r)] \<Longrightarrow> wp (f r) Q ready_ok w'"
  shows "wp (bind (sys c) f) Q ready_ok w"
proof (rule wp_call_B)
  fix r w'
  assume a: "after w c r w'"
  show "wp (f r) Q ready_ok w'"
    using loader_at_call [OF a assms(2,1)] assms(3,4) a by (intro assms(5)) (auto simp: after_def)
qed (use assms(1) in \<open>rule loader_at_ready\<close>)

lemma loader_chip_wp:
  assumes "loader_at M w"
  shows "wp (loader_chip fd) (\<lambda>c w'. loader_at M w' \<and> (\<forall>chip. c = Some chip \<longrightarrow> supported_chip chip)) ready_ok w"
proof -
  have detect: "wp (bind (sys (Ioctl fd WMT_GET_SOC_ID (Scalar 0))) (\<lambda>detected.
       if res detected < 0 \<or> \<not> supported_chip (nat (res detected)) then ret None
       else bind (sys (Property_set CHIP_PROPERTY (format_chip (nat (res detected))))) (\<lambda>p.
         ret (if res p \<noteq> 0 then None else Some (nat (res detected))))))
     (\<lambda>c w'. loader_at M w' \<and> (\<forall>chip. c = Some chip \<longrightarrow> supported_chip chip)) ready_ok v"
    if "loader_at M v" for v
    using that by (auto simp: wp_ret intro!: wp_quiet_call)
  show ?thesis
    unfolding loader_chip_def cached_chip_id_def property_get_def bind_assoc bind_ret
  proof (rule wp_quiet_call [OF assms], goal_cases)
    case (4 r w')
    then show ?case by (auto simp: wp_ret parse_chip_supported detect split: option.split)
  qed simp_all
qed

lemma initialize_driver_wp:
  assumes "loader_at M w" "supported_chip chip"
  shows "wp (initialize_driver fd chip) (\<lambda>failed w'. loader_at M w'
     \<and> (failed = 0 \<longrightarrow> (\<exists>pre mid. trace w' = pre @ mid \<and> initialised mid))) ready_ok w"
proof -
  have i: "(if chip = 0x0326 then 0x6755 else chip) = 0x6755"
    using assms(2) by (auto simp: supported_chip_def)
  have "\<exists>pre mid. t @ [(Ioctl fd WMT_SET_CHIP_ID (Scalar (int chip)), r1),
        (Ioctl fd WMT_MODULE_CLEANUP (Scalar 0x6755), r2),
        (Ioctl fd WMT_MODULE_INIT (Scalar 0x6755), r3)] = pre @ mid \<and> initialised mid"
    if "res r1 = 0" "res r2 = 0" "res r3 = 0" for t r1 r2 r3
    using that assms(2) by (intro exI [of _ t] exI conjI refl) (auto simp: initialised_def)
  then show ?thesis
    using assms(1) unfolding initialize_driver_def i
    by (auto simp: wp_ret intro!: wp_quiet_call)
qed


text \<open>The two ways to success: readiness was published already, or the loader published it.\<close>

definition is_ready :: "(call \<times> response) list \<Rightarrow> bool" where
  "is_ready t \<longleftrightarrow> (\<exists>r. (Property_get READY_PROPERTY, r) \<in> set t \<and> take 91 (str_of (dat r)) = ascii ''yes'')
     \<or> (\<exists>r. (Property_set READY_PROPERTY (ascii ''yes''), r) \<in> set t \<and> res r = 0)"

lemma loader_body_wp:
  assumes "loader_at M w"
  shows "wp (loader_body fd) (\<lambda>s w'. loader_at M w' \<and> s \<in> {0, 1} \<and> (s = 0 \<longrightarrow> is_ready (trace w'))) ready_ok w"
  unfolding loader_body_def
proof (rule wp_bind_B [OF loader_chip_wp [OF assms]], goal_cases)
  case (1 c w1)
  show ?case
  proof (cases c)
    case None
    then show ?thesis using 1 by (simp add: wp_ret)
  next
    case (Some chip)
    have "wp (bind (initialize_driver fd chip) (\<lambda>failed. if failed \<noteq> 0 then ret 1
        else bind (sys (Property_set READY_PROPERTY (ascii ''yes''))) (\<lambda>p. ret (if res p \<noteq> 0 then 1 else 0 :: int))))
      (\<lambda>s w'. loader_at M w' \<and> s \<in> {0, 1} \<and> (s = 0 \<longrightarrow> is_ready (trace w'))) ready_ok w1"
    proof (rule wp_bind_B [OF initialize_driver_wp [where M = M]], goal_cases)
      case (3 failed w2)
      have publish: "loader_at M w3 \<and> (res p = 0 \<longrightarrow> is_ready (trace w3))"
        if "after w2 (Property_set READY_PROPERTY (ascii ''yes'')) p w3" "failed = 0" for p w3
        using that 3 after_holding [OF that(1)] ready_publish
        by (auto simp: loader_at_def after_def is_ready_def)
      show ?case using 3 publish by (auto simp: wp_ret loader_at_def intro!: wp_call_B)
    qed (use 1 Some in simp_all)
    then show ?thesis using Some by simp
  qed
qed

lemma loader_main_wp:
  assumes "loader_at {#} w"
  shows "wp loader_main (\<lambda>s w'. loader_at {#} w' \<and> s \<in> {0, 1} \<and> (s = 0 \<longrightarrow> is_ready (trace w'))) ready_ok w"
  unfolding loader_main_def property_get_def bind_assoc bind_ret
proof (rule wp_quiet_call [OF assms], goal_cases)
  case (4 r w1)
  show ?case
  proof (cases "take (PROPERTY_VALUE_MAX - 1) (str_of (dat r)) = ascii ''yes''")
    case True
    then show ?thesis using 4 by (auto simp: wp_ret is_ready_def PROPERTY_VALUE_MAX_def)
  next
    case False
    show ?thesis
      unfolding if_not_P [OF False]
    proof (rule wp_bind_B [OF open_detector_wp [OF 4(1)]], goal_cases)
      case (1 fd w2)
      show ?case
      proof (cases "fd < 0")
        case True
        then show ?thesis using 1 by (simp add: wp_ret)
      next
        case fd: False
        show ?thesis
          unfolding if_not_P [OF fd]
        proof (rule wp_bind_B [OF loader_body_wp [where M = "{#FD fd#}"]], goal_cases)
          case (2 s w3)
          have "loader_at {#} w4 \<and> (s = 0 \<longrightarrow> is_ready (trace w4))" if "after w3 (Close fd) c w4" for c w4
            using 2 loader_at_call [OF that, of "{#FD fd#}" "{#}"] that by (auto simp: is_ready_def after_def)
          then show ?case using 2 by (auto simp: wp_ret intro!: wp_call_B intro: loader_at_ready)
        qed (use 1 fd in simp)
      qed
    qed
  qed
qed simp_all

lemma loader_start: "loader_at {#} (world0 rs)"
  by (simp add: loader_at_def ready_after_init_def world0_def)

lemma parse_format:
  assumes "n < 2 ^ 64"
  shows "parse_chip_id (format_chip n) = (if supported_chip n then Some n else None)"
proof -
  have x: "isxdigit (hd (format_chip n))" "format_chip n \<noteq> []"
    by (simp_all add: format_chip_def isxdigit_def)
  then show ?thesis
    using strtoul16_format [OF assms]
    by (cases "format_chip n") (auto simp: parse_chip_id_def supported_chip_def)
qed

section \<open>Properties\<close>

text \<open>C21: For every behaviour of the device and the property service, the loader publishes driver
  readiness only as the direct successor of the three successful initialisation calls for a
  supported chip, in the order set ID, clean up, initialise, also when it is still waiting for a
  call. It never accesses memory wrongly or spins. When it returns, the detector is closed, the
  status is 0 or 1, and 0 means that readiness was published, by an earlier run or by this one.\<close>

theorem loader_ready_sound:
  "wp loader_main (\<lambda>status w'. status \<in> {0, 1} \<and> holding (trace w') {#} \<and> ready_after_init (trace w')
       \<and> (status = 0 \<longrightarrow> is_ready (trace w')))
     (\<lambda>w'. ready_after_init (trace w')) (world0 rs)"
  using loader_main_wp [OF loader_start] by (rule wp_mono) (auto simp: loader_at_def)

definition answer :: "int \<Rightarrow> bytes \<Rightarrow> response" where
  "answer n d = \<lparr>res = n, err = ENOENT, dat = d, regular = False, fsize = 0, revents = 0\<rparr>"

definition sample_boot :: "response list" where
  "sample_boot = [answer 0 [], answer 5 [], answer 6 (format_chip 0x326),
     answer 0 [], answer 0 [], answer 0 [], answer 0 [], answer 0 []]"

lemma sample_boot_run: "\<exists>w'. loader_main (world0 sample_boot) = Done 0 w'"
proof -
  have "format_chip 0x326 = [48, 120, 48, 51, 50, 54]"
    by (simp add: format_chip_def hex_digits.simps xchar_def)
  then have "take 91 (str_of (format_chip 0x326)) = format_chip 0x326" by (simp add: str_of_def)
  then have chip: "parse_chip_id (take 91 (str_of (format_chip 0x326))) = Some 0x326"
    using parse_format [of "0x326"] by (simp add: supported_chip_def)
  have empty: "str_of [] = []" by (simp add: str_of_def)
  have node: "open_detector \<lparr>script = answer 5 [] # rs, trace = t\<rparr>
      = Done 5 \<lparr>script = rs, trace = t @ [(Open DETECT_NODE, answer 5 [])]\<rparr>" for rs t
    unfolding open_detector_def
    by (subst loop.simps) (simp add: bind_def sys_def ret_def answer_def NODE_ATTEMPTS_def)
  show ?thesis using chip
    by (simp add: loader_main_def loader_body_def loader_chip_def cached_chip_id_def property_get_def
        node empty initialize_driver_def Let_def bind_def sys_def ret_def world0_def sample_boot_def
        PROPERTY_VALUE_MAX_def ascii_def)
      (simp add: answer_def empty bind_def sys_def ret_def ascii_def)
qed

theorem loader_ready_sound_witness:
  "\<exists>w'. loader_main (world0 sample_boot) = Done 0 w' \<and> holding (trace w') {#}
     \<and> ready_after_init (trace w') \<and> is_ready (trace w')"
proof -
  obtain w' where run: "loader_main (world0 sample_boot) = Done 0 w'" using sample_boot_run by blast
  show ?thesis using run wp_DoneD [OF loader_ready_sound run] by blast
qed

text \<open>C23: The text the loader publishes for a chip ID is read back as the same ID, for every ID of
  64 bits; the cached-ID check accepts it exactly for the two supported chips.\<close>

theorem chip_id_roundtrip:
  assumes "n < 2 ^ 64"
  shows "strtoul16 (format_chip n) = (n, [], False)
    \<and> parse_chip_id (format_chip n) = (if supported_chip n then Some n else None)"
  using strtoul16_format [OF assms] parse_format [OF assms] by simp

theorem chip_id_roundtrip_witness:
  "(0x326::nat) < 2 ^ 64 \<and> parse_chip_id (format_chip 0x326) = Some 0x326"
  using chip_id_roundtrip [of "0x326"] by (simp add: supported_chip_def)


lemma open_detector_returns:
  assumes "399 \<le> length (script w)"
  shows "wp open_detector (\<lambda>_ w'. length (script w) \<le> length (script w') + 399) (\<lambda>_. False) w"
  unfolding open_detector_def
proof (rule wp_loop [where I = "\<lambda>attempt v. attempt \<le> 200
    \<and> length (script w) \<le> length (script v) + min (2 * attempt) 399"], goal_cases)
  case (2 attempt v)
  show ?case
  proof (cases "attempt < NODE_ATTEMPTS")
    case True
    then have a: "attempt < 200" by (simp add: NODE_ATTEMPTS_def)
    show ?thesis
      unfolding if_P [OF True]
    proof (rule wp_call_more, goal_cases)
      case 1
      then show ?case using 2 a assms by linarith
    next
      case (2 f v1)
      then show ?case using a assms \<open>attempt \<le> 200 \<and> _\<close>
        by (auto simp: wp_ret NODE_ATTEMPTS_def intro!: wp_call_more)
    qed
  next
    case False
    then show ?thesis using 2 by (auto simp: wp_ret)
  qed
qed (use assms in simp)

lemma loader_chip_returns:
  "3 \<le> length (script w) \<Longrightarrow>
     wp (loader_chip fd) (\<lambda>_ w'. length (script w) \<le> length (script w') + 3) (\<lambda>_. False) w"
  unfolding loader_chip_def cached_chip_id_def property_get_def bind_assoc bind_ret
  by (auto simp: wp_ret split: option.split intro!: wp_call_more)

lemma initialize_driver_returns:
  "3 \<le> length (script w) \<Longrightarrow>
     wp (initialize_driver fd chip) (\<lambda>_ w'. length (script w) \<le> length (script w') + 3) (\<lambda>_. False) w"
  unfolding initialize_driver_def by (auto simp: wp_ret Let_def intro!: wp_call_more)

lemma loader_body_returns:
  assumes "7 \<le> length (script w)"
  shows "wp (loader_body fd) (\<lambda>_ w'. length (script w) \<le> length (script w') + 7) (\<lambda>_. False) w"
  unfolding loader_body_def
proof (rule wp_bind_B [OF loader_chip_returns], goal_cases)
  case (2 c w1)
  have "wp (bind (initialize_driver fd chip) (\<lambda>failed. if failed \<noteq> 0 then ret 1
      else bind (sys (Property_set READY_PROPERTY (ascii ''yes''))) (\<lambda>p. ret (if res p \<noteq> 0 then 1 else 0 :: int))))
    (\<lambda>_ w'. length (script w) \<le> length (script w') + 7) (\<lambda>_. False) w1" for chip
    by (rule wp_bind_B [OF initialize_driver_returns])
      (use 2 assms in \<open>auto simp: wp_ret intro!: wp_call_more\<close>)
  then show ?case using 2 by (auto simp: wp_ret split: option.split)
qed (use assms in simp)

text \<open>C22: The loader always comes to an end: whatever the answers are, it returns after at most 408
  calls, of which at most 200 attempts to open the detector.\<close>

theorem loader_returns:
  assumes "408 \<le> length rs"
  shows "\<exists>status w'. loader_main (world0 rs) = Done status w'"
proof -
  have "wp loader_main (\<lambda>_ _. True) (\<lambda>_. False) (world0 rs)"
    unfolding loader_main_def property_get_def bind_assoc bind_ret
  proof (rule wp_call_more, goal_cases)
    case (2 r w1)
    then have "wp (bind open_detector (\<lambda>fd. if fd < 0 then ret 1
        else bind (loader_body fd) (\<lambda>status. bind (sys (Close fd)) (\<lambda>_. ret status))))
       (\<lambda>_ _. True) (\<lambda>_. False) w1"
      using assms
      by (intro wp_bind_B [OF open_detector_returns] wp_bind_B [OF loader_body_returns])
        (auto simp: wp_ret world0_def intro!: wp_call_more wp_bind_B [OF loader_body_returns])
    then show ?case by (simp add: wp_ret)
  qed (use assms in \<open>auto simp: world0_def\<close>)
  then show ?thesis by (auto simp: wp_def split: outcome.splits)
qed

theorem loader_returns_witness:
  "408 \<le> length (replicate 408 \<lparr>res = -1, err = ENOENT, dat = [], regular = False, fsize = 0, revents = 0\<rparr>)
   \<and> (\<exists>status w'. loader_main (world0 (replicate 408
        \<lparr>res = -1, err = ENOENT, dat = [], regular = False, fsize = 0, revents = 0\<rparr>)) = Done status w')"
  by (intro conjI loader_returns) simp_all

end
