(* ===== verification/Wmt_Launcher.thy ===== *)
theory Wmt_Launcher
  imports Wmt_Firmware Hex_Text
begin

text \<open>
  The WMT launcher service, \<open>wmt-launcher/main.c\<close>: waiting for the driver, the chip check, the power
  and firmware-log workers, the optional controls, the command loop and \<open>main\<close> with its shutdown.
  The device, the property service and everything another thread or a signal handler writes are
  answers of the environment; each thread is a program of its own. Log messages are left out.
\<close>

section \<open>Constants and data\<close>

definition WMT_NODE :: bytes where "WMT_NODE = cstr ''/dev/stpwmt''"
definition DRIVER_READY :: string where "DRIVER_READY = ''vendor.connsys.driver.ready''"
definition LAUNCHER_READY :: string where "LAUNCHER_READY = ''vendor.connsys.formeta.ready''"
definition LAUNCHER_CHIP_PROPERTY :: string where
  "LAUNCHER_CHIP_PROPERTY = ''persist.vendor.connsys.chipid''"
definition FWLOG_PROPERTY :: string where "FWLOG_PROPERTY = ''persist.vendor.connsys.fwlog.status''"
definition DUMP_PROPERTY :: string where "DUMP_PROPERTY = ''persist.vendor.connsys.dynamic.dump''"
definition PATCH_VERSION :: string where "PATCH_VERSION = ''persist.vendor.connsys.patch.version''"
definition WIFI_VERSION :: string where "WIFI_VERSION = ''persist.vendor.connsys.wifi_fw_ver''"
definition BT_VERSION :: string where "BT_VERSION = ''persist.vendor.connsys.bt_fw_ver''"
definition WMT_SET_HIF :: request where "WMT_SET_HIF = IOW 0xa0 5"
definition WMT_POWER :: request where "WMT_POWER = IOW 0xa0 7"
definition WMT_CHIP_INFO :: request where "WMT_CHIP_INFO = IOR 0xa0 12"
definition WMT_KILL_CLEAR :: request where "WMT_KILL_CLEAR = IOW 0xa0 13"
definition WMT_CHIP_ID :: request where "WMT_CHIP_ID = IOR 0xa0 22"
definition WMT_FWLOG :: request where "WMT_FWLOG = IOR 0xa0 29"
definition WMT_DYNAMIC_DUMP :: request where "WMT_DYNAMIC_DUMP = IOR 0xa0 30"
definition WMT_IOCTL_CMD2_SESSION :: request where "WMT_IOCTL_CMD2_SESSION = IOWR 0xa0 64"
definition DYNAMIC_DUMP_BYTES :: nat where "DYNAMIC_DUMP_BYTES = 109"
definition POLL_INTERVAL_MS :: int where "POLL_INTERVAL_MS = 1000"

text \<open>
  Of the log task, the atomics are read and written by two threads and live in the environment; the
  property texts are the strings in their buffers.
\<close>

record log_task =
  lt_fd :: int
  lt_enabled :: int
  lt_created :: bool

record optional_controls =
  oc_fwlog :: bytes
  oc_dump :: bytes
  oc_log :: log_task

record wmt_cmd2_session =
  cs_version :: u32
  cs_action :: u32
  cs_session_id :: u64
  cs_max_read_bytes :: u32
  cs_max_write_bytes :: u32
  cs_flags :: u32
  cs_reserved :: u32

section \<open>Start\<close>

definition publish :: "string \<Rightarrow> bytes \<Rightarrow> unit posix" where
  "publish key value = bind (sys (Property_set key value)) (\<lambda>_. ret ())"

definition stop_requested :: "bool posix" where
  "stop_requested = load_flag ''stop_requested''"

definition launcher_supported_chip :: "nat \<Rightarrow> bool" where
  "launcher_supported_chip chip \<longleftrightarrow> chip = 0x6755 \<or> chip = 0x0326"

text \<open>The decision of \<open>cached_chip\<close> on the property value.\<close>

definition cached_value :: "bytes \<Rightarrow> bool" where
  "cached_value value =
     (case value of [] \<Rightarrow> False
      | c # _ \<Rightarrow>
        if \<not> isxdigit c then False
        else (case strtoul16 value of (chip, rest, overflow) \<Rightarrow>
          \<not> overflow \<and> rest = [] \<and> launcher_supported_chip chip))"

definition cached_chip :: "bool posix" where
  "cached_chip = bind (property_get LAUNCHER_CHIP_PROPERTY) (\<lambda>value. ret (cached_value value))"

definition open_driver :: "int posix" where
  "open_driver = loop (\<lambda>_.
     bind stop_requested (\<lambda>stop.
     if stop then ret (Inr (-1))
     else bind (property_get DRIVER_READY) (\<lambda>ready.
     bind (if ready = ascii ''yes'' then
             bind (sys (Open WMT_NODE)) (\<lambda>f.
             ret (if res f \<ge> 0 then Some (res f)
                  else if err f \<noteq> ENOENT \<and> err f \<noteq> ENODEV \<and> err f \<noteq> EINTR then Some (-1)
                  else None))
           else ret None) (\<lambda>fd.
     case fd of Some fd \<Rightarrow> ret (Inr fd)
     | None \<Rightarrow> bind (sys (Usleep 300000)) (\<lambda>_. ret (Inl ())))))) ()"

definition check_chip :: "int \<Rightarrow> int posix" where
  "check_chip fd =
     bind cached_chip (\<lambda>cached.
     if cached then ret 0
     else loop (\<lambda>_.
       bind stop_requested (\<lambda>stop.
       if stop then ret (Inr (- EINTR))
       else bind (sys (Ioctl fd WMT_CHIP_ID (Scalar 0))) (\<lambda>r.
         if res r \<ge> 0 then ret (Inr (if launcher_supported_chip (nat (res r)) then 0 else - ENODEV))
         else if err r \<noteq> EAGAIN \<and> err r \<noteq> ENODEV \<and> err r \<noteq> EPERM \<and> err r \<noteq> EINTR
         then ret (Inr (- err r))
         else bind (sys (Usleep 300000)) (\<lambda>_. ret (Inl ()))))) ())"

section \<open>The worker threads\<close>

text \<open>One power attempt: the state is the attempt number and \<open>task->result\<close>.\<close>

definition power_attempt :: "int \<Rightarrow> int \<Rightarrow> nat \<times> int \<Rightarrow> (nat \<times> int + int) posix" where
  "power_attempt fd argument = (\<lambda>(attempt, result).
     if attempt < 20 then
       bind (load_flag ''power.stopping'') (\<lambda>stopping.
       if stopping then ret (Inr result)
       else bind (sys (Ioctl fd WMT_POWER (Scalar argument))) (\<lambda>r.
       if res r = 0 then ret (Inr 0)
       else let result = (if res r < 0 then - err r else - EIO) in
         bind (load_flag ''power.stopping'') (\<lambda>stopping.
         if stopping then ret (Inr result)
         else bind (sys (Ioctl fd WMT_POWER (Scalar 0))) (\<lambda>_.
         if attempt + 1 < 20 then bind (sys (Usleep 1000000)) (\<lambda>_. ret (Inl (attempt + 1, result)))
         else ret (Inl (attempt + 1, result))))))
     else ret (Inr result))"

definition power_on :: "int \<Rightarrow> int \<Rightarrow> int posix" where
  "power_on fd argument =
     bind (loop (power_attempt fd argument) (0, - ECANCELED)) (\<lambda>result.
     bind (sys (Store ''power.finished'' 1)) (\<lambda>_. ret result))"

definition set_firmware_log :: "log_task \<Rightarrow> unit posix" where
  "set_firmware_log task =
     bind (loop (\<lambda>_.
       bind (load_flag ''log.stopping'') (\<lambda>stopping.
       if stopping then ret (Inr ())
       else bind (sys (Ioctl (lt_fd task) WMT_FWLOG (Scalar (lt_enabled task)))) (\<lambda>r.
         if res r < 0 then ret (Inr ())
         else bind (sys (Usleep 100000)) (\<lambda>_. ret (Inl ()))))) ()) (\<lambda>_.
     bind (sys (Store ''log.finished'' 1)) (\<lambda>_. ret ()))"

section \<open>Optional controls\<close>

definition stop_firmware_log :: "int \<Rightarrow> log_task \<Rightarrow> (int \<times> log_task) posix" where
  "stop_firmware_log fd task =
     bind (if lt_created task then
             bind (sys (Store ''log.stopping'' 1)) (\<lambda>_.
             bind (sys (Thread_join ''log'')) (\<lambda>j.
             ret (if res j \<noteq> 0 then Inl (- res j) else Inr (task\<lparr>lt_created := False\<rparr>))))
           else ret (Inr task)) (\<lambda>joined.
     case joined of Inl error \<Rightarrow> ret (error, task)
     | Inr task \<Rightarrow>
       bind (sys (Ioctl fd WMT_FWLOG (Scalar 0))) (\<lambda>r.
       ret (if res r < 0 then - err r else 0, task)))"

text \<open>Firmware logging is wanted: reap a finished worker, start one if there is none.\<close>

definition reap_log :: "log_task \<Rightarrow> log_task posix" where
  "reap_log task =
     (if lt_created task then
        bind (load_flag ''log.finished'') (\<lambda>finished.
        if finished then bind (sys (Thread_join ''log'')) (\<lambda>j.
          ret (if res j \<noteq> 0 then task else task\<lparr>lt_created := False\<rparr>))
        else ret task)
      else ret task)"

definition start_log :: "int \<Rightarrow> bytes \<Rightarrow> optional_controls \<Rightarrow> optional_controls posix" where
  "start_log fd fwlog controls =
     (if \<not> lt_created (oc_log controls) then
        bind (sys (Store ''log.stopping'' 0)) (\<lambda>_.
        bind (sys (Store ''log.finished'' 0)) (\<lambda>_.
        bind (sys (Thread_create ''log'')) (\<lambda>t.
        ret (if res t \<noteq> 0 then controls\<lparr>oc_log := (oc_log controls)\<lparr>lt_fd := fd, lt_enabled := 1\<rparr>\<rparr>
             else controls\<lparr>oc_log := \<lparr>lt_fd = fd, lt_enabled = 1, lt_created = True\<rparr>, oc_fwlog := fwlog\<rparr>))))
      else ret controls)"

definition check_fwlog :: "int \<Rightarrow> optional_controls \<Rightarrow> optional_controls posix" where
  "check_fwlog fd controls =
     bind (property_get FWLOG_PROPERTY) (\<lambda>fwlog.
     if fwlog = ascii ''yes'' then
       bind (reap_log (oc_log controls)) (\<lambda>task.
       start_log fd fwlog (controls\<lparr>oc_log := task\<rparr>))
     else if fwlog \<noteq> oc_fwlog controls then
       bind (stop_firmware_log fd (oc_log controls)) (\<lambda>(result, task).
       ret (if result \<noteq> 0 then controls\<lparr>oc_log := task\<rparr>
            else controls\<lparr>oc_log := task, oc_fwlog := fwlog\<rparr>))
     else ret controls)"

text \<open>The dump text is handed over in a zeroed buffer of 110 bytes.\<close>

definition check_dump :: "int \<Rightarrow> optional_controls \<Rightarrow> optional_controls posix" where
  "check_dump fd controls =
     bind (property_get DUMP_PROPERTY) (\<lambda>dump.
     if dump \<noteq> oc_dump controls then
       bind (sys (Ioctl fd WMT_DYNAMIC_DUMP
              (Buffer (dump @ replicate (DYNAMIC_DUMP_BYTES + 1 - length dump) 0)))) (\<lambda>r.
       ret (if res r < 0 then controls else controls\<lparr>oc_dump := dump\<rparr>))
     else ret controls)"

definition check_optional_controls :: "int \<Rightarrow> optional_controls \<Rightarrow> optional_controls posix" where
  "check_optional_controls fd controls = bind (check_fwlog fd controls) (check_dump fd)"

section \<open>Commands\<close>

definition send_frame :: "int \<Rightarrow> bytes \<Rightarrow> nat \<Rightarrow> int posix" where
  "send_frame fd buf sz =
     bind (mem (slice buf 0 sz)) (\<lambda>data.
     loop (\<lambda>_.
       bind (sys (Write fd data)) (\<lambda>r.
       if res r < 0 \<and> err r = EINTR then
         bind stop_requested (\<lambda>stop. ret (if stop then Inr (- EINTR) else Inl ()))
       else ret (Inr (if res r < 0 then - err r else if res r = int sz then 0 else - EPROTO)))) ())"

text \<open>The search a command asks for; a field of the result that no search filled is still zero.\<close>

definition handle_search ::
  "int \<Rightarrow> bytes \<Rightarrow> bool \<Rightarrow> (int \<times> wmt_firmware_result \<times> wmt_rom_set) posix" where
  "handle_search fd directory normal =
     bind (sys (Ioctl fd WMT_CHIP_INFO (Scalar 0))) (\<lambda>chip.
     if res chip < 0 then ret (- err chip, zero_firmware_result, zero_rom_set)
     else if \<not> launcher_supported_chip (nat (res chip)) then ret (- ENODEV, zero_firmware_result, zero_rom_set)
     else bind (sys (Ioctl fd WMT_CHIP_INFO (Scalar 2))) (\<lambda>version.
       if res version < 0 then ret (- err version, zero_firmware_result, zero_rom_set)
       else if res version > 65535 then ret (- ERANGE, zero_firmware_result, zero_rom_set)
       else if normal then
         bind (wmt_firmware_search (Some directory) (word_of_int (res version)) (Some zero_firmware_result))
           (\<lambda>(result, firmware). bind (mem firmware) (\<lambda>firmware. ret (result, firmware, zero_rom_set)))
       else
         bind (wmt_rom_search (Some directory) (word_of_int (res version)) (Some zero_rom_set))
           (\<lambda>(result, rom). bind (mem rom) (\<lambda>rom. ret (result, zero_firmware_result, rom)))))"

definition copy_record :: "u32 \<Rightarrow> bytes \<Rightarrow> bytes \<Rightarrow> wmt_cmd2_record option" where
  "copy_record index address name = do {
     address \<leftarrow> slice address 0 4;
     name \<leftarrow> slice name 0 256;
     Some \<lparr>rec_index = index, rec_address = address, rec_name = name\<rparr>
   }"

function fill_patches ::
  "wmt_patch_info list \<Rightarrow> nat \<Rightarrow> nat \<Rightarrow> wmt_cmd2_record list \<Rightarrow> wmt_cmd2_record list option" where
  "fill_patches infos n i records =
     (if i < n then do {
        p \<leftarrow> rd infos i;
        r \<leftarrow> copy_record (pi_sequence p) (pi_address p) (pi_name p);
        records \<leftarrow> wr records i r;
        fill_patches infos n (Suc i) records
      } else Some records)"
  by pat_completeness auto
termination
  by (relation "measure (\<lambda>(infos, n, i, records). n - i)") auto

function fill_roms ::
  "wmt_rom_set \<Rightarrow> nat \<Rightarrow> wmt_cmd2_record list \<Rightarrow> nat \<Rightarrow> (wmt_cmd2_record list \<times> nat) option" where
  "fill_roms rom type records n =
     (if type < WMT_ROM_TYPES then
        if rs_seen rom AND push_bit type 1 = 0 then fill_roms rom (Suc type) records n
        else do {
          p \<leftarrow> rd (rs_records rom) type;
          r \<leftarrow> copy_record (of_nat type) (ri_address p) (ri_name p);
          records \<leftarrow> wr records n r;
          fill_roms rom (Suc type) records (Suc n)
        }
      else Some (records, n))"
  by pat_completeness auto
termination
  by (relation "measure (\<lambda>(rom, type, records, n). WMT_ROM_TYPES - type)") auto

declare fill_patches.simps [simp del] fill_roms.simps [simp del]

definition zero_record :: wmt_cmd2_record where
  "zero_record = \<lparr>rec_index = 0, rec_address = replicate 4 0, rec_name = replicate 256 0\<rparr>"

text \<open>The reply for the outcome of the search: its size, the final result and the frame.\<close>

definition build_reply ::
  "wmt_command \<Rightarrow> bool \<Rightarrow> int \<Rightarrow> wmt_firmware_result \<Rightarrow> wmt_rom_set \<Rightarrow> bytes
     \<Rightarrow> (int \<times> int \<times> bytes option) option" where
  "build_reply command normal result firmware rom buf = do {
     (sz, result, buf) \<leftarrow>
       (if result = 0 then do {
          (records, n) \<leftarrow>
            (if normal then do {
               let n = unat (ps_count (fr_patches firmware));
               records \<leftarrow> fill_patches (ps_records (fr_patches firmware)) n 0
                 (replicate WMT_CMD2_PATCH_MAX zero_record);
               Some (records, n)
             }
             else fill_roms rom 0 (replicate WMT_CMD2_PATCH_MAX zero_record) 0);
          (sz, buf) \<leftarrow> wmt_reply_list (Some command)
             (if normal then WMT_CMD2_PATCH_LIST else WMT_CMD2_ROM_LIST) (Some records) n
             (Some buf) WMT_CMD2_WRITE_MAX;
          Some (sz, if sz < 0 then sz else 0, buf)
        }
        else Some (0, result, Some buf));
     if result \<noteq> 0 then do {
       (sz, buf) \<leftarrow> wmt_reply_status (Some command) result buf WMT_CMD2_WRITE_MAX;
       Some (sz, result, buf)
     }
     else Some (sz, result, buf)
   }"

text \<open>What is published once the driver took the reply.\<close>

definition publish_versions ::
  "bool \<Rightarrow> bool \<Rightarrow> int \<Rightarrow> wmt_firmware_result \<Rightarrow> wmt_rom_set \<Rightarrow> unit posix" where
  "publish_versions normal is_rom result firmware rom =
     bind (if result = 0 \<and> normal then
             bind (mem (rd (fr_versions firmware) 0)) (\<lambda>v. publish PATCH_VERSION (str_of v))
           else ret ()) (\<lambda>_.
     bind (if result = 0 \<and> is_rom \<and> has_wifi_version rom
           then publish WIFI_VERSION (str_of (wifi_version rom)) else ret ()) (\<lambda>_.
     if result = 0 \<and> is_rom \<and> has_bt_version rom
     then publish BT_VERSION (str_of (rs_bt_version rom)) else ret ()))"

text \<open>\<open>buf\<close> is what the uninitialised array holds when the function is entered.\<close>

definition handle_command :: "bytes \<Rightarrow> int \<Rightarrow> bytes \<Rightarrow> wmt_command \<Rightarrow> int posix" where
  "handle_command buf fd directory command =
     bind (mem (streq (cmd_text command) (cstr ''srh_patch''))) (\<lambda>normal.
     bind (mem (streq (cmd_text command) (cstr ''srh_rom_patch''))) (\<lambda>is_rom.
     bind (if normal \<or> is_rom then handle_search fd directory normal
           else ret (- EOPNOTSUPP, zero_firmware_result, zero_rom_set)) (\<lambda>(result, firmware, rom).
     bind (mem (build_reply command normal result firmware rom buf)) (\<lambda>(sz, result, buf).
     if sz < 0 then ret sz
     else bind (mem buf) (\<lambda>buf.
     bind (send_frame fd buf (nat sz)) (\<lambda>sent.
     if sent \<noteq> 0 then ret sent
     else bind (publish_versions normal is_rom result firmware rom) (\<lambda>_. ret 0)))))))"

definition POLLIN :: nat where "POLLIN = 0"
definition POLLERR :: nat where "POLLERR = 3"
definition POLLHUP :: nat where "POLLHUP = 4"
definition POLLNVAL :: nat where "POLLNVAL = 5"

text \<open>
  The results after which a transaction is given up and the loop goes on. The event bits of
  \<open>poll\<close> above are bit positions.
\<close>

definition discarded :: "int \<Rightarrow> bool" where
  "discarded result \<longleftrightarrow> result = - ESTALE \<or> result = - ECANCELED \<or> result = - ETIMEDOUT \<or> result = - ENOENT"

text \<open>One poll and, if there is one, one command: \<open>None\<close> goes on, \<open>Some\<close> leaves the loop.\<close>

definition poll_command :: "bytes \<Rightarrow> int \<Rightarrow> u64 \<Rightarrow> bytes \<Rightarrow> int option posix" where
  "poll_command buf fd session directory =
     bind (sys (Poll fd POLL_INTERVAL_MS)) (\<lambda>p.
     if res p < 0 then ret (if err p = EINTR then None else Some (- err p))
     else if bit (revents p) POLLERR \<or> bit (revents p) POLLHUP \<or> bit (revents p) POLLNVAL
     then ret (Some (- ENODEV))
     else if \<not> bit (revents p) POLLIN then ret None
     else bind (sys (Read fd WMT_CMD2_READ_MAX)) (\<lambda>r.
       if res r < 0 then
         ret (if err r = EINTR \<or> err r = EAGAIN \<or> err r = ETIMEDOUT then None else Some (- err r))
       else let data = delivered r WMT_CMD2_READ_MAX in
       bind (mem (wmt_command_decode (Some data) (length data) session
               (Some \<lparr>cmd_session = 0, cmd_transaction = 0, cmd_text = replicate 256 0\<rparr>))) (\<lambda>(result, command).
       if result \<noteq> 0 then ret (Some result)
       else bind (mem command) (\<lambda>command.
         bind (handle_command buf fd directory command) (\<lambda>result.
         ret (if discarded result then None else if result \<noteq> 0 then Some result else None))))))"

text \<open>
  One turn of \<open>command_loop\<close>, after the test of the stop flag and with it; the state is
  \<open>power_checked\<close> and the controls.
\<close>

definition command_turn ::
  "bytes \<Rightarrow> int \<Rightarrow> u64 \<Rightarrow> bytes \<Rightarrow> bool \<Rightarrow> optional_controls
     \<Rightarrow> (bool \<times> optional_controls + int \<times> optional_controls) posix" where
  "command_turn buf fd session directory power_checked controls =
     bind (load_flag ''power.finished'') (\<lambda>finished.
     bind (if finished then
             bind (if power_checked then ret 0
                   else bind (sys (Load ''power.result'')) (\<lambda>r. ret (res r))) (\<lambda>result.
             if result \<noteq> 0 then ret (Inr result)
             else bind (check_optional_controls fd controls) (\<lambda>controls. ret (Inl (True, controls))))
           else ret (Inl (power_checked, controls))) (\<lambda>checked.
     case checked of Inr result \<Rightarrow> ret (Inr (result, controls))
     | Inl (power_checked, controls) \<Rightarrow>
       bind (poll_command buf fd session directory) (\<lambda>left.
       ret (case left of None \<Rightarrow> Inl (power_checked, controls)
            | Some result \<Rightarrow> Inr (result, controls)))))"

definition command_step ::
  "bytes \<Rightarrow> int \<Rightarrow> u64 \<Rightarrow> bytes \<Rightarrow> bool \<times> optional_controls
     \<Rightarrow> (bool \<times> optional_controls + int \<times> optional_controls) posix" where
  "command_step buf fd session directory = (\<lambda>(power_checked, controls).
     bind stop_requested (\<lambda>stop.
     if stop then ret (Inr (0, controls))
     else command_turn buf fd session directory power_checked controls))"

definition command_loop ::
  "bytes \<Rightarrow> int \<Rightarrow> u64 \<Rightarrow> bytes \<Rightarrow> optional_controls \<Rightarrow> (int \<times> optional_controls) posix" where
  "command_loop buf fd session directory controls =
     loop (command_step buf fd session directory) (False, controls)"

section \<open>The session\<close>

definition WMT_CMD2_BIND :: u32 where "WMT_CMD2_BIND = 1"
definition WMT_CMD2_UNBIND :: u32 where "WMT_CMD2_UNBIND = 2"

definition session_request :: "u32 \<Rightarrow> u64 \<Rightarrow> wmt_cmd2_session" where
  "session_request action session_id =
     \<lparr>cs_version = ucast WMT_CMD2_VERSION, cs_action = action, cs_session_id = session_id,
      cs_max_read_bytes = 0, cs_max_write_bytes = 0, cs_flags = 0, cs_reserved = 0\<rparr>"

text \<open>The 32 bytes of the structure in memory.\<close>

definition session_bytes :: "wmt_cmd2_session \<Rightarrow> bytes" where
  "session_bytes s = le32 (cs_version s) @ le32 (cs_action s) @ le64 (cs_session_id s)
     @ le32 (cs_max_read_bytes s) @ le32 (cs_max_write_bytes s) @ le32 (cs_flags s) @ le32 (cs_reserved s)"

definition session_of_bytes :: "bytes \<Rightarrow> wmt_cmd2_session option" where
  "session_of_bytes b = do {
     version \<leftarrow> read32 b 0; action \<leftarrow> read32 b 4; session_id \<leftarrow> read64 b 8;
     max_read \<leftarrow> read32 b 16; max_write \<leftarrow> read32 b 20; flags \<leftarrow> read32 b 24; reserved \<leftarrow> read32 b 28;
     Some \<lparr>cs_version = version, cs_action = action, cs_session_id = session_id,
           cs_max_read_bytes = max_read, cs_max_write_bytes = max_write, cs_flags = flags,
           cs_reserved = reserved\<rparr>
   }"

definition session_ok :: "wmt_cmd2_session \<Rightarrow> bool" where
  "session_ok s \<longleftrightarrow> \<not> (cs_version s \<noteq> ucast WMT_CMD2_VERSION \<or> cs_session_id s = 0
     \<or> unat (cs_max_read_bytes s) \<noteq> WMT_CMD2_READ_MAX \<or> unat (cs_max_write_bytes s) \<noteq> WMT_CMD2_WRITE_MAX
     \<or> cs_flags s \<noteq> 0 \<or> cs_reserved s \<noteq> 0)"

text \<open>The kernel may overwrite the structure a bind request points to.\<close>

definition bind_session :: "int \<Rightarrow> (int \<times> wmt_cmd2_session option) posix" where
  "bind_session fd =
     (let request = session_bytes (session_request WMT_CMD2_BIND 0) in
      bind (sys (Ioctl fd WMT_IOCTL_CMD2_SESSION (Buffer request))) (\<lambda>r.
      if res r < 0 then ret (- err r, None)
      else bind (mem (do {
          bytes \<leftarrow> blit request 0 (take 32 (dat r));
          session_of_bytes bytes
        })) (\<lambda>session. ret (if session_ok session then 0 else - EPROTO, Some session))))"

section \<open>The program\<close>

text \<open>The local variables of \<open>main\<close> that the cleanup reads; \<open>bound\<close> is the presence of a session.\<close>

record launcher_state =
  ls_session :: "wmt_cmd2_session option"
  ls_started :: bool
  ls_advertised :: bool
  ls_controls :: optional_controls

definition launcher_state0 :: launcher_state where
  "launcher_state0 = \<lparr>ls_session = None, ls_started = False, ls_advertised = False,
     ls_controls = \<lparr>oc_fwlog = [], oc_dump = [], oc_log = \<lparr>lt_fd = 0, lt_enabled = 0, lt_created = False\<rparr>\<rparr>\<rparr>"

text \<open>The advertised launcher starts the power worker and serves commands.\<close>

definition launcher_work ::
  "bytes \<Rightarrow> int \<Rightarrow> bytes \<Rightarrow> u64 \<Rightarrow> launcher_state \<Rightarrow> (int \<times> launcher_state) posix" where
  "launcher_work buf fd directory session st =
     bind (sys (Store ''power.fd'' fd)) (\<lambda>_.
     bind (sys (Thread_create ''power'')) (\<lambda>t.
     if res t \<noteq> 0 then ret (- res t, st)
     else bind (command_loop buf fd session directory (ls_controls st)) (\<lambda>(result, controls).
       ret (result, st\<lparr>ls_started := True, ls_controls := controls\<rparr>))))"

text \<open>From the accepted session on.\<close>

definition launcher_serve ::
  "bytes \<Rightarrow> int \<Rightarrow> bytes \<Rightarrow> wmt_cmd2_session \<Rightarrow> (int \<times> launcher_state) posix" where
  "launcher_serve buf fd directory session =
     (let st = launcher_state0\<lparr>ls_session := Some session\<rparr> in
      bind (sys (Ioctl fd WMT_SET_HIF (Scalar 0x23))) (\<lambda>r.
      if res r < 0 then ret (- err r, st)
      else bind (sys (Ioctl fd WMT_KILL_CLEAR (Scalar 0))) (\<lambda>r.
      if res r < 0 then ret (- err r, st)
      else bind (sys (Property_set LAUNCHER_READY (ascii ''yes''))) (\<lambda>r.
      if res r \<noteq> 0 then ret (- EIO, st)
      else launcher_work buf fd directory (cs_session_id session) (st\<lparr>ls_advertised := True\<rparr>)))))"

text \<open>Everything between \<open>open_driver\<close> and the label \<open>out\<close>.\<close>

definition launcher_run :: "bytes \<Rightarrow> int \<Rightarrow> bytes \<Rightarrow> (int \<times> launcher_state) posix" where
  "launcher_run buf fd directory =
     bind (check_chip fd) (\<lambda>result.
     if result \<noteq> 0 then ret (result, launcher_state0)
     else bind (bind_session fd) (\<lambda>(result, session).
     case session of None \<Rightarrow> ret (result, launcher_state0)
     | Some s \<Rightarrow>
       if result \<noteq> 0 then ret (result, launcher_state0\<lparr>ls_session := Some s\<rparr>)
       else launcher_serve buf fd directory s))"

text \<open>From the label \<open>out\<close> to the end.\<close>

definition launcher_out :: "int \<Rightarrow> int \<Rightarrow> launcher_state \<Rightarrow> int posix" where
  "launcher_out fd result st =
     bind (sys (Store ''power.stopping'' 1)) (\<lambda>_.
     bind (case ls_session st of None \<Rightarrow> ret ()
           | Some s \<Rightarrow> bind (sys (Ioctl fd WMT_IOCTL_CMD2_SESSION
               (Buffer (session_bytes (session_request WMT_CMD2_UNBIND (cs_session_id s)))))) (\<lambda>_. ret ())) (\<lambda>_.
     bind (if ls_started st then bind (sys (Thread_join ''power'')) (\<lambda>_. ret ()) else ret ()) (\<lambda>_.
     bind (if lt_created (oc_log (ls_controls st)) \<or> oc_fwlog (ls_controls st) = ascii ''yes''
           then bind (stop_firmware_log fd (oc_log (ls_controls st))) (\<lambda>_. ret ()) else ret ()) (\<lambda>_.
     bind (if ls_advertised st then publish LAUNCHER_READY (ascii ''no'') else ret ()) (\<lambda>_.
     bind (sys (Close fd)) (\<lambda>_.
     if result = 0 then ret 0
     else bind stop_requested (\<lambda>stop. ret (if stop then 0 else 1))))))))"

text \<open>
  The option loop: \<open>getopt\<close> answers with the option character or -1 and \<open>optarg\<close>. The result is
  the exit status, or the directory.
\<close>

definition launcher_options :: "(int + bytes) posix" where
  "launcher_options = loop (\<lambda>directory.
     bind (sys Getopt) (\<lambda>option.
     let optarg = str_of (dat option) in
     if res option = -1 then ret (Inr (Inr directory))
     else if res option = of_char CHR ''p'' then ret (Inl (optarg @ [0]))
     else if res option = of_char CHR ''o'' \<and> (optarg = ascii ''0'' \<or> optarg = ascii ''1'') then
       bind (sys (Store ''power.argument'' (if optarg = ascii ''1'' then 2 else 1))) (\<lambda>_. ret (Inl directory))
     else ret (Inr (Inl (if res option = of_char CHR ''h'' then 0 else 2)))))
     (cstr ''/vendor/firmware/'')"

definition PATH_MAX :: nat where "PATH_MAX = 4096"

definition launcher_main :: "bytes \<Rightarrow> int posix" where
  "launcher_main buf =
     bind launcher_options (\<lambda>options.
     case options of Inl status \<Rightarrow> ret status
     | Inr directory \<Rightarrow>
       bind (sys Extra_arguments) (\<lambda>extra.
       if res extra \<noteq> 0 then ret 2
       else bind (mem (do { c \<leftarrow> rd directory 0; n \<leftarrow> strnlen directory PATH_MAX; Some (c = 0 \<or> n = PATH_MAX) })) (\<lambda>bad.
       if bad then ret 2
       else bind (sys (Sigaction ''SIGTERM'')) (\<lambda>s.
       bind (if res s \<noteq> 0 then ret False
             else bind (sys (Sigaction ''SIGINT'')) (\<lambda>s. ret (res s = 0))) (\<lambda>installed.
       if \<not> installed then ret 1
       else bind open_driver (\<lambda>fd.
       if fd < 0 then bind stop_requested (\<lambda>stop. ret (if stop then 0 else 1))
       else bind (launcher_run buf fd directory) (\<lambda>(result, st). launcher_out fd result st)))))))"

section \<open>Building a reply\<close>

definition patch_record :: "wmt_patch_info \<Rightarrow> wmt_cmd2_record" where
  "patch_record p = \<lparr>rec_index = pi_sequence p, rec_address = pi_address p, rec_name = pi_name p\<rparr>"

definition rom_record :: "wmt_rom_set \<Rightarrow> nat \<Rightarrow> wmt_cmd2_record" where
  "rom_record rom k = \<lparr>rec_index = of_nat k, rec_address = ri_address (rs_records rom ! k),
     rec_name = ri_name (rs_records rom ! k)\<rparr>"

lemma copy_record_eq:
  "length address = 4 \<Longrightarrow> length name = 256 \<Longrightarrow>
     copy_record index address name = Some \<lparr>rec_index = index, rec_address = address, rec_name = name\<rparr>"
  by (simp add: copy_record_def)

lemma fill_patches_eq:
  assumes "n \<le> length infos" "\<forall>p\<in>set infos. wf_info p"
  shows "i \<le> n \<Longrightarrow> n \<le> length records \<Longrightarrow> fill_patches infos n i records =
    Some (take i records @ map patch_record (drop i (take n infos)) @ drop n records)"
proof (induction "n - i" arbitrary: i records)
  case 0
  then show ?case by (subst fill_patches.simps) simp
next
  case (Suc k)
  then have i: "i < n" "i < length infos" "i < length records" using assms(1) by auto
  have d: "drop i (take n infos) = infos ! i # drop (Suc i) (take n infos)"
    using i by (metis Cons_nth_drop_Suc length_take min_less_iff_conj nth_take)
  have wf: "wf_info (infos ! i)" using assms(2) i by simp
  then have "fill_patches infos n i records = fill_patches infos n (Suc i) (records[i := patch_record (infos ! i)])"
    using i by (subst fill_patches.simps) (simp add: copy_record_eq wf_info_def patch_record_def)
  also have "\<dots> = Some (take (Suc i) (records[i := patch_record (infos ! i)])
      @ map patch_record (drop (Suc i) (take n infos)) @ drop n (records[i := patch_record (infos ! i)]))"
    using Suc i by (intro Suc.hyps) auto
  finally show ?case using i by (simp add: d take_Suc_conv_app_nth)
qed

definition rom_slots :: "wmt_rom_set \<Rightarrow> nat \<Rightarrow> nat list" where
  "rom_slots rom type = filter (bit (rs_seen rom)) [type..<5]"

lemma rom_slots_step:
  "type < 5 \<Longrightarrow> rom_slots rom type =
     (if bit (rs_seen rom) type then type # rom_slots rom (Suc type) else rom_slots rom (Suc type))"
  by (simp add: rom_slots_def upt_conv_Cons)

lemma fill_roms_eq:
  assumes "wf_rom rom"
  shows "type \<le> 5 \<Longrightarrow> n + 5 \<le> length records + type \<Longrightarrow> fill_roms rom type records n =
    Some (take n records @ map (rom_record rom) (rom_slots rom type)
            @ drop (n + length (rom_slots rom type)) records, n + length (rom_slots rom type))"
proof (induction "5 - type" arbitrary: type n records)
  case 0
  then show ?case by (subst fill_roms.simps) (simp add: rom_const_defs rom_slots_def)
next
  case (Suc k)
  then have t: "type < 5" "n < length records" by auto
  have wf: "wf_rom_info (rs_records rom ! type)" "length (rs_records rom) = 5"
    using assms t by (auto simp: wf_rom_def)
  show ?case
  proof (cases "bit (rs_seen rom) type")
    case True
    let ?r = "rom_record rom type"
    have "fill_roms rom type records n = fill_roms rom (Suc type) (records[n := ?r]) (Suc n)"
      using t wf True by (subst fill_roms.simps)
        (simp add: rom_const_defs and_exp_eq_0_iff_not_bit copy_record_eq wf_rom_info_def rom_record_def)
    also have "\<dots> = Some (take (Suc n) (records[n := ?r]) @ map (rom_record rom) (rom_slots rom (Suc type))
        @ drop (Suc n + length (rom_slots rom (Suc type))) (records[n := ?r]), Suc n + length (rom_slots rom (Suc type)))"
      using Suc t by (intro Suc.hyps) auto
    finally show ?thesis using t True by (simp add: rom_slots_step take_Suc_conv_app_nth)
  next
    case False
    then have "fill_roms rom type records n = fill_roms rom (Suc type) records n"
      using t by (subst fill_roms.simps) (simp add: rom_const_defs and_exp_eq_0_iff_not_bit)
    then show ?thesis using Suc.hyps(1) [of "Suc type" n records] Suc.hyps(2) Suc.prems t False
      by (simp add: rom_slots_step)
  qed
qed


lemma build_reply_status:
  assumes "cmd_session c \<noteq> 0" "cmd_transaction c \<noteq> 0" "length buf = 2680"
    and "result \<noteq> 0" "-4095 \<le> result" "result \<le> 0"
  shows "build_reply c normal result firmware rom buf
    = Some (32, result, Some (reply_bytes c WMT_CMD2_STATUS 0 result @ drop 32 buf))"
  using assms reply_status_eq [of c result 2680 buf]
  by (simp add: build_reply_def wmt_const_defs)

text \<open>The records of a complete set, and of the present ROM types, are a list the driver accepts.\<close>

definition patch_records :: "wmt_firmware_result \<Rightarrow> wmt_cmd2_record list" where
  "patch_records firmware = map patch_record
     (take (unat (ps_count (fr_patches firmware))) (ps_records (fr_patches firmware)))"

definition rom_records :: "wmt_rom_set \<Rightarrow> wmt_cmd2_record list" where
  "rom_records rom = map (rom_record rom) (rom_slots rom 0)"

lemma patch_records_valid:
  assumes wf: "wf_firmware r" and full: "wmt_patch_set_complete (Some (fr_patches r)) = 0"
  shows "valid_list WMT_CMD2_PATCH_LIST (patch_records r)" "\<forall>x\<in>set (patch_records r). wf_record x"
    "length (patch_records r) = unat (ps_count (fr_patches r))"
    "unat (ps_count (fr_patches r)) \<le> 10" "unat (ps_count (fr_patches r)) \<noteq> 0"
proof -
  let ?s = "fr_patches r" and ?n = "unat (ps_count (fr_patches r))"
  have ps: "wf_patch_set ?s" "\<forall>i\<in>set (ps_records ?s). wf_info i"
    using wf by (auto simp: wf_firmware_def)
  then have n: "?n \<le> 10" "length (ps_records ?s) = 10" by (auto simp: wf_patch_set_def)
  then show len: "length (patch_records r) = ?n" and "?n \<le> 10" by (auto simp: patch_records_def)
  have full': "ps_count ?s \<noteq> 0" "dom (patch_lookup ?s) = {..<?n}"
    using full patch_set_complete_iff [OF ps(1)] by auto
  then show "?n \<noteq> 0" by (simp add: unsigned_eq_0_iff)
  have at: "unat (pi_sequence (ps_records ?s ! k)) = Suc k" "valid_name (pi_name (ps_records ?s ! k))" if "k < ?n" for k
  proof -
    have "k \<in> dom (patch_lookup ?s)" using full' that by simp
    then have b: "bit (ps_seen ?s) k" by (auto simp: patch_lookup_def split: if_splits)
    then show "unat (pi_sequence (ps_records ?s ! k)) = Suc k" using ps(1) by (simp add: wf_patch_set_def)
    have "patch_lookup ?s k = Some (ps_records ?s ! k)" using b by (simp add: patch_lookup_def)
    then show "valid_name (pi_name (ps_records ?s ! k))" using wf by (simp add: wf_firmware_def)
  qed
  have rec: "patch_records r ! k = patch_record (ps_records ?s ! k)" if "k < ?n" for k
    using that n by (simp add: patch_records_def)
  show "\<forall>x\<in>set (patch_records r). wf_record x"
    using ps(2) by (auto simp: patch_records_def wf_record_def patch_record_def wf_info_def dest!: in_set_takeD)
  have "map (unat \<circ> rec_index) (patch_records r) = map Suc [0..<?n]"
    using len rec at by (intro nth_equalityI) (auto simp: patch_record_def)
  then have "distinct (map unat (map rec_index (patch_records r)))" by (simp add: distinct_map)
  then have "distinct (map rec_index (patch_records r))" by (simp only: distinct_map)
  moreover have "index_ok WMT_CMD2_PATCH_LIST ?n (rec_index (patch_records r ! k)) \<and>
      valid_name (rec_name (patch_records r ! k))" if "k < ?n" for k
    using at [OF that] rec [OF that] that by (auto simp: index_ok_def patch_record_def)
  ultimately show "valid_list WMT_CMD2_PATCH_LIST (patch_records r)"
    by (auto simp: valid_list_def len in_set_conv_nth)
qed

lemma rom_records_valid:
  assumes wf: "wf_rom rom"
  shows "valid_list WMT_CMD2_ROM_LIST (rom_records rom)" "\<forall>x\<in>set (rom_records rom). wf_record x"
    "length (rom_records rom) \<le> 5"
proof -
  have slots: "k < 5" "valid_name (ri_name (rs_records rom ! k))" "wf_rom_info (rs_records rom ! k)"
    if "k \<in> set (rom_slots rom 0)" for k
    using that wf by (auto simp: rom_slots_def wf_rom_def)
  then show "\<forall>x\<in>set (rom_records rom). wf_record x"
    by (auto simp: rom_records_def rom_record_def wf_record_def wf_rom_info_def)
  show "length (rom_records rom) \<le> 5"
    using length_filter_le [of "bit (rs_seen rom)" "[0..<5]"] by (simp add: rom_records_def rom_slots_def)
  have small: "unat (of_nat k :: u32) = k" if "k < 5" for k
    using that by (simp add: unsigned_of_nat take_bit_nat_eq_self)
  have "inj_on (of_nat :: nat \<Rightarrow> u32) {..<5}"
    using small by (metis inj_onI lessThan_iff)
  then have "distinct (map of_nat (rom_slots rom 0) :: u32 list)"
    by (auto simp: distinct_map rom_slots_def intro: inj_on_subset)
  then show "valid_list WMT_CMD2_ROM_LIST (rom_records rom)"
    using slots small
    by (auto simp: valid_list_def rom_records_def rom_record_def index_ok_def wmt_const_defs comp_def)
qed

lemma build_reply_patches:
  assumes c: "cmd_session c \<noteq> 0" "cmd_transaction c \<noteq> 0" "length buf = 2680"
    and r: "wf_firmware r" "wmt_patch_set_complete (Some (fr_patches r)) = 0"
  shows "build_reply c True 0 r rom buf = Some (40 + int (length (patch_records r)) * 264, 0,
    Some (list_bytes c WMT_CMD2_PATCH_LIST (patch_records r) @ drop (40 + length (patch_records r) * 264) buf))"
proof -
  obtain n where n: "unat (ps_count (fr_patches r)) = n" by blast
  let ?rest = "drop n (replicate 10 zero_record)"
  note v = patch_records_valid [OF r, unfolded n]
  have "fill_patches (ps_records (fr_patches r)) n 0 (replicate 10 zero_record) = Some (patch_records r @ ?rest)"
    using r(1) v(4) n fill_patches_eq [of n "ps_records (fr_patches r)" 0 "replicate 10 zero_record"]
    by (simp add: wf_firmware_def wf_patch_set_def patch_records_def)
  then show ?thesis
    using reply_list_accepts [of c WMT_CMD2_PATCH_LIST n "patch_records r @ ?rest" 2680 buf] c v n
    by (simp add: build_reply_def wmt_const_defs Let_def)
qed

lemma build_reply_roms:
  assumes c: "cmd_session c \<noteq> 0" "cmd_transaction c \<noteq> 0" "length buf = 2680" and r: "wf_rom rom"
  shows "build_reply c False 0 firmware rom buf = Some (40 + int (length (rom_records rom)) * 264, 0,
    Some (list_bytes c WMT_CMD2_ROM_LIST (rom_records rom) @ drop (40 + length (rom_records rom) * 264) buf))"
proof -
  let ?n = "length (rom_records rom)" and ?rest = "drop (length (rom_records rom)) (replicate 10 zero_record)"
  note v = rom_records_valid [OF r]
  have "fill_roms rom 0 (replicate 10 zero_record) 0 = Some (rom_records rom @ ?rest, ?n)"
    using fill_roms_eq [OF r, of 0 0 "replicate 10 zero_record"] by (simp add: rom_records_def)
  then show ?thesis
    using reply_list_accepts [of c WMT_CMD2_ROM_LIST ?n "rom_records rom @ ?rest" 2680 buf] c v
    by (simp add: build_reply_def wmt_const_defs)
qed


section \<open>Sending a reply\<close>

text \<open>Neither a reply, nor a publication, nor the start or end of a thread.\<close>

fun silent :: "call \<Rightarrow> bool" where
  "silent (Write fd data) = False"
| "silent (Property_set key v) = False"
| "silent (Thread_create name) = False"
| "silent (Thread_join name) = False"
| "silent c = True"

lemma firmware_search_silent: "calls silent (wmt_firmware_search d fw out)"
  unfolding wmt_firmware_search_def search_directory_def search_step_def search_candidate_def
    read_patch_def read_exact_def Let_def
  by (intro calls_intros) simp_all

lemma rom_search_silent: "calls silent (wmt_rom_search d fw out)"
  unfolding wmt_rom_search_def search_directory_def search_step_def search_candidate_def
    read_rom_def rom_take_def rom_bt_def read_bt_version_def read_bt_data_def read_extra_def read_exact_def
  by (intro calls_intros) simp_all

lemma handle_search_silent: "calls silent (handle_search fd d normal)"
  unfolding handle_search_def
  by (intro calls_intros firmware_search_silent rom_search_silent) simp_all

lemma handle_search_wp:
  assumes ok: "errno_ok w" and d: "d \<noteq> []"
  shows "wp (handle_search fd d normal) (\<lambda>(rc, firmware, rom) w'. - 4095 \<le> rc \<and> rc \<le> 0 \<and> frame w w'
    \<and> length (fr_versions firmware) = 10
    \<and> (rc = 0 \<longrightarrow> (if normal then wf_firmware firmware \<and> wmt_patch_set_complete (Some (fr_patches firmware)) = 0
        else wf_rom rom))) (\<lambda>_. True) w"
  unfolding handle_search_def
proof (intro wp_call_ok [OF ok], goal_cases)
  case a: (1 r v)
  then have fr: "frame w v" by simp
  have zero: "length (fr_versions zero_firmware_result) = 10" by (simp add: zero_firmware_result_def)
  have second: "wp (bind (sys (Ioctl fd WMT_CHIP_INFO (Scalar 2))) (\<lambda>version.
       if res version < 0 then ret (- err version, zero_firmware_result, zero_rom_set)
       else if res version > 65535 then ret (- ERANGE, zero_firmware_result, zero_rom_set)
       else if normal then
         bind (wmt_firmware_search (Some d) (word_of_int (res version)) (Some zero_firmware_result))
           (\<lambda>(result, firmware). bind (mem firmware) (\<lambda>firmware. ret (result, firmware, zero_rom_set)))
       else
         bind (wmt_rom_search (Some d) (word_of_int (res version)) (Some zero_rom_set))
           (\<lambda>(result, rom). bind (mem rom) (\<lambda>rom. ret (result, zero_firmware_result, rom)))))
     (\<lambda>(rc, firmware, rom) w'. - 4095 \<le> rc \<and> rc \<le> 0 \<and> frame w w' \<and> length (fr_versions firmware) = 10
       \<and> (rc = 0 \<longrightarrow> (if normal then wf_firmware firmware \<and> wmt_patch_set_complete (Some (fr_patches firmware)) = 0
          else wf_rom rom))) (\<lambda>_. True) v"
  proof (intro wp_call_ok [OF a(2)], goal_cases)
    case b: (1 r v')
    then have fr': "frame w v'" using frame_trans [OF fr] by simp
    then have tr: "frame v' u \<Longrightarrow> frame w u" for u using frame_trans by blast
    have "wp (bind (wmt_firmware_search (Some d) fw (Some zero_firmware_result))
        (\<lambda>(result, firmware). bind (mem firmware) (\<lambda>firmware. ret (result, firmware, zero_rom_set))))
       (\<lambda>(rc, firmware, rom) w'. - 4095 \<le> rc \<and> rc \<le> 0 \<and> frame w w' \<and> length (fr_versions firmware) = 10
         \<and> (rc = 0 \<longrightarrow> wf_firmware firmware \<and> wmt_patch_set_complete (Some (fr_patches firmware)) = 0))
       (\<lambda>_. True) v'" for fw
      by (rule wp_bindI [OF firmware_search_wp [OF b(2) d]])
        (auto simp: wp_simps zero wf_firmware_def tr split: if_splits)
    moreover have "wp (bind (wmt_rom_search (Some d) fw (Some zero_rom_set))
        (\<lambda>(result, rom). bind (mem rom) (\<lambda>rom. ret (result, zero_firmware_result, rom))))
       (\<lambda>(rc, firmware, rom) w'. - 4095 \<le> rc \<and> rc \<le> 0 \<and> frame w w' \<and> length (fr_versions firmware) = 10
         \<and> (rc = 0 \<longrightarrow> wf_rom rom)) (\<lambda>_. True) v'" for fw
      by (rule wp_bindI [OF rom_search_wp [OF b(2) d]])
        (auto simp: wp_simps zero tr split: if_splits)
    ultimately show ?case using b fr' by (cases normal) (auto simp: wp_ret zero)
  qed
  then show ?case using a fr by (auto simp: wp_ret zero)
qed

text \<open>Attempts to write \<open>data\<close>; the outcome is 0 exactly when the last one took all of it.\<close>

definition sending :: "int \<Rightarrow> bytes \<Rightarrow> (call \<times> response) list \<Rightarrow> bool" where
  "sending fd data t \<longleftrightarrow> (\<forall>e\<in>set t. fst e = Write fd data \<or> fst e = Load ''stop_requested'')"

definition sent :: "int \<Rightarrow> bytes \<Rightarrow> int \<Rightarrow> (call \<times> response) list \<Rightarrow> bool" where
  "sent fd data rc t \<longleftrightarrow> t \<noteq> [] \<and> sending fd data t
     \<and> (rc = 0 \<longleftrightarrow> fst (last t) = Write fd data \<and> res (snd (last t)) = int (length data))"

lemma sending_snoc: "sending fd data t \<Longrightarrow> c = Write fd data \<or> c = Load ''stop_requested'' \<Longrightarrow> sending fd data (t @ [(c, r)])"
  by (auto simp: sending_def)

lemma send_frame_wp:
  assumes ok: "errno_ok w" and sz: "sz \<le> length buf"
  shows "wp (send_frame fd buf sz) (\<lambda>rc w'. - 4095 \<le> rc \<and> rc \<le> 0 \<and> frame w w'
    \<and> (\<exists>t. trace w' = trace w @ t \<and> sent fd (take sz buf) rc t)) (\<lambda>_. True) w"
proof -
  let ?data = "take sz buf"
  let ?I = "\<lambda>v. frame w v \<and> (\<exists>t. trace v = trace w @ t \<and> sending fd ?data t)"
  let ?Q = "\<lambda>rc w'. - 4095 \<le> rc \<and> rc \<le> 0 \<and> frame w w' \<and> (\<exists>t. trace w' = trace w @ t \<and> sent fd ?data rc t)"
  have len: "length ?data = sz" using sz by simp
  have "wp (loop (\<lambda>_. bind (sys (Write fd ?data)) (\<lambda>r.
       if res r < 0 \<and> err r = EINTR then
         bind stop_requested (\<lambda>stop. ret (if stop then Inr (- EINTR) else Inl ()))
       else ret (Inr (if res r < 0 then - err r else if res r = int sz then 0 else - EPROTO)))) ())
     ?Q (\<lambda>_. True) w"
  proof (rule wp_loop [where I = "\<lambda>_. ?I"], goal_cases)
    case (2 s v)
    then obtain t where t: "frame w v" "trace v = trace w @ t" "sending fd ?data t" by blast
    have okv: "errno_ok v" using frame_errno_ok [OF t(1) ok] .
    show ?case
    proof (intro wp_call_ok [OF okv], goal_cases)
      case a: (1 r v')
      then have fr: "frame w v'" using frame_trans [OF t(1)] by simp
      have tr: "trace v' = trace w @ (t @ [(Write fd ?data, r)])" using a t by (simp add: after_def)
      note snd' = sending_snoc [OF t(3), of "Write fd ?data" r, simplified]
      have "wp (bind stop_requested (\<lambda>stop. ret (if stop then Inr (- EINTR) else Inl ())))
         (\<lambda>x w'. case x of Inl s' \<Rightarrow> ?I w' \<and> length (script w') < length (script v) | Inr rc \<Rightarrow> ?Q rc w') (\<lambda>_. True) v'"
        unfolding stop_requested_def load_flag_def bind_assoc bind_ret
      proof (intro wp_call_ok [OF a(2)], goal_cases)
        case b: (1 r' v'')
        let ?t = "(t @ [(Write fd ?data, r)]) @ [(Load ''stop_requested'', r')]"
        have "trace v'' = trace w @ ?t" "sending fd ?data ?t"
          using b tr sending_snoc [OF snd'] by (simp_all add: after_def)
        moreover have "frame w v''" using frame_trans [OF fr] b by simp
        moreover have "length (script v'') < length (script v)" using a b by simp
        moreover have "sent fd ?data (- EINTR) ?t" using calculation(2) by (simp add: sent_def)
        ultimately show ?case by (auto simp: wp_ret)
      qed
      moreover have "?Q (if res r < 0 then - err r else if res r = int sz then 0 else - EPROTO) v'"
        unfolding tr using fr a snd' len by (auto simp: sent_def)
      ultimately show ?case by (simp add: wp_ret)
    qed
  qed (simp add: sending_def)
  then show ?thesis using sz by (simp add: send_frame_def)
qed

section \<open>Handling a command\<close>

text \<open>A frame that answers \<open>c\<close>: a status with an error number, or a list the protocol accepts.\<close>

definition status_reply :: "wmt_command \<Rightarrow> bytes \<Rightarrow> bool" where
  "status_reply c data \<longleftrightarrow> (\<exists>e. - 4095 \<le> e \<and> e < 0 \<and> data = reply_bytes c WMT_CMD2_STATUS 0 e)"

definition list_reply :: "wmt_command \<Rightarrow> bytes \<Rightarrow> bool" where
  "list_reply c data \<longleftrightarrow> (\<exists>kind recs. kind \<in> {WMT_CMD2_PATCH_LIST, WMT_CMD2_ROM_LIST} \<and> valid_list kind recs
     \<and> (\<forall>r\<in>set recs. wf_record r) \<and> length recs \<le> 10 \<and> data = list_bytes c kind recs)"

definition version_key :: "call \<Rightarrow> bool" where
  "version_key call \<longleftrightarrow> (\<exists>v. call = Property_set PATCH_VERSION v \<or> call = Property_set WIFI_VERSION v
     \<or> call = Property_set BT_VERSION v)"

lemma publish_versions_calls: "calls version_key (publish_versions normal is_rom result firmware rom)"
  unfolding publish_versions_def publish_def by (intro calls_intros) (auto simp: version_key_def)

lemma publish_versions_wp:
  assumes "length (fr_versions firmware) = 10"
  shows "wp (publish_versions normal is_rom result firmware rom) (\<lambda>_ w'. frame w w' \<and> (\<exists>t.
    trace w' = trace w @ t \<and> (\<forall>e\<in>set t. version_key (fst e)) \<and> (t \<noteq> [] \<longrightarrow> result = 0))) (\<lambda>_. True) w"
proof -
  have "wp (publish_versions normal is_rom result firmware rom)
    (\<lambda>_ w'. result \<noteq> 0 \<longrightarrow> w' = w) (\<lambda>_. True) w"
    using assms by (simp add: publish_versions_def publish_def wp_simps split: list.split)
  from wp_calls [OF this publish_versions_calls] show ?thesis
    by (rule wp_mono) (auto simp: made_def version_key_def neutral_def intro!: made_frame)
qed


text \<open>The log of one command: the search, the attempts to send the reply, the publications.\<close>

definition command_log :: "int \<Rightarrow> wmt_command \<Rightarrow> int \<Rightarrow> (call \<times> response) list \<Rightarrow> bool" where
  "command_log fd c rc t \<longleftrightarrow> (\<exists>search sends pubs data. t = search @ sends @ pubs
     \<and> (\<forall>e\<in>set search. silent (fst e)) \<and> sent fd data rc sends \<and> (\<forall>e\<in>set pubs. version_key (fst e))
     \<and> (status_reply c data \<or> list_reply c data)
     \<and> (pubs \<noteq> [] \<longrightarrow> rc = 0 \<and> list_reply c data))"

lemma list_bytes_length:
  "\<forall>r\<in>set recs. wf_record r \<Longrightarrow> valid_list kind recs \<Longrightarrow> length (list_bytes c kind recs) = 40 + length recs * 264"
proof -
  assume a: "\<forall>r\<in>set recs. wf_record r" "valid_list kind recs"
  have "length (record_bytes r) = 264" if "r \<in> set recs" for r
    using a that record_bytes_length by (simp add: valid_list_def)
  then have "length (concat (map record_bytes recs)) = length recs * 264"
    by (induction recs) auto
  then show ?thesis by (simp add: list_bytes_def)
qed

lemma build_reply_ok:
  assumes c: "cmd_session c \<noteq> 0" "cmd_transaction c \<noteq> 0" "length buf = 2680"
    and rc: "- 4095 \<le> rc" "rc \<le> 0"
    and search: "rc = 0 \<longrightarrow> (if normal then wf_firmware firmware \<and> wmt_patch_set_complete (Some (fr_patches firmware)) = 0
        else wf_rom rom)"
  obtains sz g where "build_reply c normal rc firmware rom buf = Some (sz, rc, Some g)"
    "0 \<le> sz" "nat sz \<le> length g" "if rc = 0 then list_reply c (take (nat sz) g) else status_reply c (take (nat sz) g)"
proof (cases "rc = 0")
  case True
  let ?recs = "if normal then patch_records firmware else rom_records rom"
  let ?kind = "if normal then WMT_CMD2_PATCH_LIST else WMT_CMD2_ROM_LIST"
  let ?data = "list_bytes c ?kind ?recs"
  have r: "valid_list ?kind ?recs" "\<forall>r\<in>set ?recs. wf_record r" "length ?recs \<le> 10"
    using patch_records_valid [of firmware] rom_records_valid [of rom] search True by auto
  have reply: "build_reply c normal rc firmware rom buf
      = Some (40 + int (length ?recs) * 264, rc, Some (?data @ drop (40 + length ?recs * 264) buf))"
    using build_reply_patches [OF c, of firmware rom] build_reply_roms [OF c, of rom firmware] search True
    by (cases normal) auto
  have sz: "nat (40 + int (length ?recs) * 264) = length ?data"
    unfolding list_bytes_length [OF r(2,1)] by simp
  have "list_reply c ?data" unfolding list_reply_def
    by (rule exI [of _ ?kind], rule exI [of _ ?recs]) (use r in auto)
  then show thesis using that [OF reply] True sz by simp
next
  case False
  then have "status_reply c (reply_bytes c WMT_CMD2_STATUS 0 rc)" using rc by (auto simp: status_reply_def)
  then show thesis using that [OF build_reply_status [OF c False rc]] False c(3) by simp
qed

lemma handle_command_wp:
  assumes ok: "errno_ok w" and d: "d \<noteq> []" and nul: "0 \<in> set (cmd_text c)"
    and c: "cmd_session c \<noteq> 0" "cmd_transaction c \<noteq> 0" "length buf = 2680"
  shows "wp (handle_command buf fd d c) (\<lambda>rc w'. - 4095 \<le> rc \<and> rc \<le> 0 \<and> frame w w'
    \<and> (\<exists>t. trace w' = trace w @ t \<and> command_log fd c rc t)) (\<lambda>_. True) w"
proof -
  obtain normal is_rom where eq: "streq (cmd_text c) (cstr ''srh_patch'') = Some normal"
    "streq (cmd_text c) (cstr ''srh_rom_patch'') = Some is_rom"
    using streq_iff [OF nul] by (simp add: cstr_def)
  let ?search = "if normal \<or> is_rom then handle_search fd d normal
           else ret (- EOPNOTSUPP, zero_firmware_result, zero_rom_set)"
  have "wp ?search (\<lambda>(rc, firmware, rom) w'. - 4095 \<le> rc \<and> rc \<le> 0 \<and> frame w w' \<and> length (fr_versions firmware) = 10
    \<and> (rc = 0 \<longrightarrow> (if normal then wf_firmware firmware \<and> wmt_patch_set_complete (Some (fr_patches firmware)) = 0
        else wf_rom rom))) (\<lambda>_. True) w"
    using handle_search_wp [OF ok d, of fd normal] by (auto simp: wp_ret zero_firmware_result_def)
  note search = wp_calls [OF this, of silent]
  have silent: "calls silent ?search" by (intro calls_intros handle_search_silent)
  show ?thesis unfolding handle_command_def eq bind_mem
  proof (rule wp_bindI [OF search [OF silent]], goal_cases)
    case (1 x w1)
    obtain rc firmware rom where x: "x = (rc, firmware, rom)" by (cases x)
    from 1 x obtain t1 where s: "- 4095 \<le> rc" "rc \<le> 0" "frame w w1" "length (fr_versions firmware) = 10"
      "rc = 0 \<longrightarrow> (if normal then wf_firmware firmware \<and> wmt_patch_set_complete (Some (fr_patches firmware)) = 0
        else wf_rom rom)" "trace w1 = trace w @ t1" "\<forall>e\<in>set t1. silent (fst e)"
      by (auto simp: made_def)
    obtain sz g where b: "build_reply c normal rc firmware rom buf = Some (sz, rc, Some g)" "0 \<le> sz" "nat sz \<le> length g"
      "if rc = 0 then list_reply c (take (nat sz) g) else status_reply c (take (nat sz) g)"
      using build_reply_ok [OF c s(1,2,5)] by blast
    note ok1 = frame_errno_ok [OF s(3) ok]
    have "wp (bind (send_frame fd g (nat sz)) (\<lambda>snt. if snt \<noteq> 0 then ret snt
        else bind (publish_versions normal is_rom rc firmware rom) (\<lambda>_. ret 0)))
      (\<lambda>rc w'. - 4095 \<le> rc \<and> rc \<le> 0 \<and> frame w w' \<and> (\<exists>t. trace w' = trace w @ t \<and> command_log fd c rc t)) (\<lambda>_. True) w1"
    proof (rule wp_bindI [OF send_frame_wp [OF ok1 b(3)]], goal_cases)
      case (1 snt w2)
      then obtain t2 where s2: "- 4095 \<le> snt" "snt \<le> 0" "frame w w2" "trace w2 = trace w1 @ t2" "sent fd (take (nat sz) g) snt t2"
        using frame_trans [OF s(3)] by blast
      have log: "command_log fd c snt (t1 @ t2 @ t3)" if "\<forall>e\<in>set t3. version_key (fst e)" "t3 \<noteq> [] \<longrightarrow> snt = 0 \<and> rc = 0" for t3
        unfolding command_log_def using s(7) s2(5) b(4) that by (intro exI conjI) (auto split: if_splits)
      show ?case
      proof (cases "snt = 0")
        case True
        have "wp (bind (publish_versions normal is_rom rc firmware rom) (\<lambda>_. ret 0)) (\<lambda>rc w'. - 4095 \<le> rc \<and> rc \<le> 0
            \<and> frame w w' \<and> (\<exists>t. trace w' = trace w @ t \<and> command_log fd c rc t)) (\<lambda>_. True) w2"
        proof (rule wp_bindI [OF publish_versions_wp [OF s(4)]], goal_cases)
          case (1 u w3)
          then obtain t3 where "frame w w3" "trace w3 = trace w @ (t1 @ t2 @ t3)" "\<forall>e\<in>set t3. version_key (fst e)"
            "t3 \<noteq> [] \<longrightarrow> rc = 0"
            using frame_trans [OF s2(3)] s(6) s2(4) by auto
          then show ?case using log [of t3] True by (auto simp: wp_ret)
        qed
        then show ?thesis using True by simp
      next
        case False
        then show ?thesis using s2 s(6) log [of "[]"] by (simp add: wp_ret)
      qed
    qed
    then show ?case using x b by simp
  qed
qed

text \<open>C4: Whatever the driver and the file system answer, handling a decoded command neither leaves an
  object nor loops without a call, and closes what it opened. It first searches, making no reply and
  no publication, then sends one frame, repeated only while interrupted: a status carrying an error
  number, or a list with valid, distinct records, in both cases for the command's own session and
  transaction and without any byte of the uninitialised buffer. Result zero means that the driver took
  the whole frame; versions are published only after that, and only for a list.\<close>

theorem handle_command_replies:
  assumes "\<forall>r\<in>set rs. 0 < err r \<and> err r \<le> 4095" "d \<noteq> []" "0 \<in> set (cmd_text c)"
    and "cmd_session c \<noteq> 0" "cmd_transaction c \<noteq> 0" "length buf = WMT_CMD2_WRITE_MAX"
  shows "wp (handle_command buf fd d c) (\<lambda>rc w'. - 4095 \<le> rc \<and> rc \<le> 0 \<and> holding (trace w') {#}
    \<and> command_log fd c rc (trace w')) (\<lambda>_. True) (world0 rs)"
proof -
  have ok: "errno_ok (world0 rs)" using assms(1) by (simp add: errno_ok_def world0_def)
  show ?thesis
    by (rule wp_mono [OF handle_command_wp [OF ok assms(2-5)]])
      (use assms(6) in \<open>auto simp: wmt_const_defs world0_def dest: frame_world0 [unfolded world0_def]\<close>)
qed


definition done_with :: "int \<Rightarrow> response" where
  "done_with n = \<lparr>res = n, err = 1, dat = [], regular = False, fsize = 0, revents = 0\<rparr>"

theorem handle_command_replies_witness:
  "\<exists>w'. handle_command (replicate WMT_CMD2_WRITE_MAX 7) 3 (cstr ''/fw'')
      \<lparr>cmd_session = 5, cmd_transaction = 9, cmd_text = cstr ''stop''\<rparr> (world0 [done_with 32]) = Done 0 w'
    \<and> command_log 3 \<lparr>cmd_session = 5, cmd_transaction = 9, cmd_text = cstr ''stop''\<rparr> 0 (trace w')
    \<and> map fst (trace w') = [Write 3 (reply_bytes \<lparr>cmd_session = 5, cmd_transaction = 9, cmd_text = cstr ''stop''\<rparr>
         WMT_CMD2_STATUS 0 (- EOPNOTSUPP))]"
proof -
  let ?c = "\<lparr>cmd_session = 5, cmd_transaction = 9, cmd_text = cstr ''stop''\<rparr>"
  let ?buf = "replicate WMT_CMD2_WRITE_MAX 7"
  let ?data = "reply_bytes ?c WMT_CMD2_STATUS 0 (- EOPNOTSUPP)"
  let ?w = "\<lparr>script = [], trace = [(Write 3 ?data, done_with 32)]\<rparr>"
  have len: "length ?buf = 2680" by (simp add: wmt_const_defs)
  have reply: "build_reply ?c False (- EOPNOTSUPP) zero_firmware_result zero_rom_set ?buf
      = Some (32, - EOPNOTSUPP, Some (?data @ drop 32 ?buf))"
    using build_reply_status [OF _ _ len, of ?c "- EOPNOTSUPP"] by simp
  have "loop (\<lambda>_. bind (sys (Write 3 ?data)) (\<lambda>r.
       if res r < 0 \<and> err r = EINTR then
         bind stop_requested (\<lambda>stop. ret (if stop then Inr (- EINTR) else Inl ()))
       else ret (Inr (if res r < 0 then - err r else if res r = int 32 then 0 else - EPROTO)))) ()
     (world0 [done_with 32]) = Done 0 ?w"
    by (rule loop_exit) (simp add: bind_def sys_def ret_def world0_def done_with_def)
  then have "send_frame 3 (?data @ drop 32 ?buf) 32 (world0 [done_with 32]) = Done 0 ?w"
    by (simp add: send_frame_def)
  moreover have "streq (cmd_text ?c) (cstr ''srh_patch'') = Some False" "streq (cmd_text ?c) (cstr ''srh_rom_patch'') = Some False"
    by (simp_all add: cstr_def ascii_def)
  ultimately have run: "handle_command ?buf 3 (cstr ''/fw'') ?c (world0 [done_with 32]) = Done 0 ?w"
    using reply by (simp add: handle_command_def bind_def publish_versions_def ret_def)
  show ?thesis
    using wp_DoneD [OF handle_command_replies run] run
    by (simp add: cstr_def ascii_def done_with_def)
qed

section \<open>Threads and the ready property\<close>

text \<open>
  The threads of a name that are running, and whether the ready property stands at yes by the launcher's doing: only a
  \<open>property_set\<close> that succeeds changes the property.
\<close>

fun thread_delta :: "string \<Rightarrow> call \<times> response \<Rightarrow> int" where
  "thread_delta n (Thread_create m, r) = of_bool (m = n \<and> res r = 0)"
| "thread_delta n (Thread_join m, r) = - of_bool (m = n \<and> res r = 0)"
| "thread_delta n e = 0"

definition alive :: "string \<Rightarrow> (call \<times> response) list \<Rightarrow> int" where
  "alive n t = sum_list (map (thread_delta n) t)"

fun ready_event :: "call \<times> response \<Rightarrow> bool \<Rightarrow> bool" where
  "ready_event (Property_set key v, r) b = (if key = LAUNCHER_READY \<and> res r = 0 then v = ascii ''yes'' else b)"
| "ready_event e b = b"

definition advertised :: "(call \<times> response) list \<Rightarrow> bool" where
  "advertised t = fold ready_event t False"

fun steady :: "call \<Rightarrow> bool" where
  "steady (Thread_create n) = False"
| "steady (Thread_join n) = False"
| "steady (Property_set key v) = (key \<noteq> LAUNCHER_READY)"
| "steady c = True"

lemma steady_delta: "steady c \<Longrightarrow> thread_delta n (c, r) = 0" "steady c \<Longrightarrow> ready_event (c, r) b = b"
  by (cases c; simp)+

lemma alive_snoc: "alive n (t @ [e]) = alive n t + thread_delta n e"
  by (simp add: alive_def)

lemma advertised_snoc: "advertised (t @ [e]) = ready_event e (advertised t)"
  by (simp add: advertised_def)

lemma steady_trace:
  "\<forall>e\<in>set u. steady (fst e) \<Longrightarrow> alive n (t @ u) = alive n t \<and> advertised (t @ u) = advertised t"
proof (induction u rule: rev_induct)
  case (snoc e u)
  obtain c r where e: "e = (c, r)" by (cases e)
  have "alive n (t @ u @ [e]) = alive n ((t @ u) @ [e])" "advertised (t @ u @ [e]) = advertised ((t @ u) @ [e])"
    by simp_all
  then show ?case using snoc e
    by (simp only: alive_snoc advertised_snoc) (simp add: steady_delta)
qed simp

text \<open>
  From \<open>w\<close> to \<open>w'\<close> handles are returned, the power worker and the ready property are as before, and
  the running log worker is what the flag \<open>created\<close> says of it at both ends.
\<close>

definition kept :: "pworld \<Rightarrow> bool \<Rightarrow> bool \<Rightarrow> pworld \<Rightarrow> bool" where
  "kept w a b w' \<longleftrightarrow> frame w w' \<and> alive ''power'' (trace w') = alive ''power'' (trace w)
     \<and> advertised (trace w') = advertised (trace w)
     \<and> alive ''log'' (trace w') - alive ''log'' (trace w) = of_bool b - of_bool a"

lemma kept_refl [simp]: "kept w a a w"
  by (simp add: kept_def)

lemma kept_trans: "kept w a b w' \<Longrightarrow> kept w' b c w'' \<Longrightarrow> kept w a c w''"
  by (auto simp: kept_def intro: frame_trans)

lemma kept_frame: "kept w a b w' \<Longrightarrow> frame w w'"
  by (simp add: kept_def)

lemma kept_steady:
  assumes "kept w a b w'" "frame w' w''" "trace w'' = trace w' @ t" "\<forall>e\<in>set t. steady (fst e)"
  shows "kept w a b w''"
  using assms steady_trace [OF assms(4), of _ "trace w'"] frame_trans [of w w' w'']
  by (simp add: kept_def)

lemma kept_call:
  assumes "kept w a b w'" "after w' c r w''" "steady c" "acquires (c, r) = {#}" "releases (c, r) = {#}"
  shows "kept w a b w''"
  using kept_steady [OF assms(1) after_frame [OF assms(2,4,5)], of "[(c, r)]"] assms(2,3)
  by (simp add: after_def)

lemma kept_create:
  assumes "kept w a False w'" "after w' (Thread_create ''log'') r w''"
  shows "kept w a (res r = 0) w''"
  using assms after_frame [OF assms(2)] frame_trans [of w w' w'']
  by (simp add: kept_def after_def alive_snoc advertised_snoc)

lemma kept_join:
  assumes "kept w a True w'" "after w' (Thread_join ''log'') r w''"
  shows "kept w a (res r \<noteq> 0) w''"
  using assms after_frame [OF assms(2)] frame_trans [of w w' w'']
  by (auto simp: kept_def after_def alive_snoc advertised_snoc)


section \<open>The log worker\<close>

text \<open>A call in the middle of a run that keeps the worker in step.\<close>

lemma wp_kept_call:
  assumes "kept w a b v" "steady c" "\<And>r. acquires (c, r) = {#}" "\<And>r. releases (c, r) = {#}"
    and "\<And>r v'. kept w a b v' \<Longrightarrow> after v c r v' \<Longrightarrow> wp (f r) Q (\<lambda>_. True) v'"
  shows "wp (bind (sys c) f) Q (\<lambda>_. True) v"
  using assms kept_call [of w a b v c] by (intro wp_call_bind) blast

lemma wp_kept_create:
  assumes "kept w a False v" and "\<And>r v'. kept w a (res r = 0) v' \<Longrightarrow> wp (f r) Q (\<lambda>_. True) v'"
  shows "wp (bind (sys (Thread_create ''log'')) f) Q (\<lambda>_. True) v"
  using assms kept_create [of w a v] by (intro wp_call_bind) blast

lemma wp_kept_join:
  assumes "kept w a True v" and "\<And>r v'. kept w a (res r \<noteq> 0) v' \<Longrightarrow> wp (f r) Q (\<lambda>_. True) v'"
  shows "wp (bind (sys (Thread_join ''log'')) f) Q (\<lambda>_. True) v"
  using assms kept_join [of w a v] by (intro wp_call_bind) blast

lemma stop_firmware_log_wp:
  assumes "kept w a (lt_created task) v"
  shows "wp (stop_firmware_log fd task) (\<lambda>(rc, task') w'. kept w a (lt_created task') w'
    \<and> (rc = 0 \<longrightarrow> \<not> lt_created task')) (\<lambda>_. True) v"
proof (cases "lt_created task")
  case True
  then have k: "kept w a True v" using assms by simp
  have disable: "wp (bind (sys (Ioctl fd WMT_FWLOG (Scalar 0))) (\<lambda>r. ret (if res r < 0 then - err r else 0, task')))
      (\<lambda>(rc, task') w'. kept w a (lt_created task') w' \<and> (rc = 0 \<longrightarrow> \<not> lt_created task')) (\<lambda>_. True) v'"
    if "kept w a False v'" "\<not> lt_created task'" for v' and task' :: log_task
    by (rule wp_kept_call [OF that(1)]) (simp_all add: wp_ret that(2))
  show ?thesis using True unfolding stop_firmware_log_def
    by (simp add: bind_assoc)
      (intro wp_kept_call [OF k] wp_kept_join; auto simp: wp_ret intro!: disable)
next
  case False
  then have k: "kept w a False v" using assms by simp
  show ?thesis using False unfolding stop_firmware_log_def
    by (simp, intro wp_kept_call [OF k]) (simp_all add: wp_ret)
qed

lemma reap_log_wp:
  assumes "kept w a (lt_created task) v"
  shows "wp (reap_log task) (\<lambda>task' w'. kept w a (lt_created task') w') (\<lambda>_. True) v"
proof (cases "lt_created task")
  case True
  then have k: "kept w a True v" using assms by simp
  show ?thesis using True unfolding reap_log_def load_flag_def
    by (simp add: bind_assoc, intro wp_kept_call [OF k]) (auto simp: wp_ret intro!: wp_kept_join)
qed (use assms in \<open>simp add: reap_log_def wp_ret\<close>)

lemma start_log_wp:
  assumes "kept w a (lt_created (oc_log controls)) v"
  shows "wp (start_log fd fwlog controls) (\<lambda>controls' w'. kept w a (lt_created (oc_log controls')) w') (\<lambda>_. True) v"
proof (cases "lt_created (oc_log controls)")
  case False
  then have k: "kept w a False v" using assms by simp
  show ?thesis using False unfolding start_log_def
    by (simp, intro wp_kept_call [OF k])
      (auto simp: wp_ret intro!: wp_kept_call [where w = w and a = a and b = False] wp_kept_create)
qed (use assms in \<open>simp add: start_log_def wp_ret\<close>)

lemma check_fwlog_wp:
  assumes k: "kept w a (lt_created (oc_log controls)) v"
  shows "wp (check_fwlog fd controls) (\<lambda>controls' w'. kept w a (lt_created (oc_log controls')) w') (\<lambda>_. True) v"
  unfolding check_fwlog_def property_get_def bind_assoc bind_ret
proof (rule wp_kept_call [OF k], goal_cases)
  case (4 r v')
  have yes: "wp (bind (reap_log (oc_log controls)) (\<lambda>task. start_log fd fwlog (controls\<lparr>oc_log := task\<rparr>)))
     (\<lambda>controls' w'. kept w a (lt_created (oc_log controls')) w') (\<lambda>_. True) v'" for fwlog
    by (rule wp_bindI [OF reap_log_wp [OF 4(1)]]) (simp add: start_log_wp)
  have no: "wp (bind (stop_firmware_log fd (oc_log controls)) (\<lambda>(result, task).
       ret (if result \<noteq> 0 then controls\<lparr>oc_log := task\<rparr> else controls\<lparr>oc_log := task, oc_fwlog := fwlog\<rparr>)))
     (\<lambda>controls' w'. kept w a (lt_created (oc_log controls')) w') (\<lambda>_. True) v'" for fwlog
    by (rule wp_bindI [OF stop_firmware_log_wp [OF 4(1)]]) (auto simp: wp_ret)
  show ?case using yes no 4(1) by (simp add: wp_ret)
qed simp_all

lemma check_dump_wp:
  assumes k: "kept w a (lt_created (oc_log controls)) v"
  shows "wp (check_dump fd controls) (\<lambda>controls' w'. kept w a (lt_created (oc_log controls')) w') (\<lambda>_. True) v"
  unfolding check_dump_def property_get_def bind_assoc bind_ret
proof (rule wp_kept_call [OF k], goal_cases)
  case (4 r v')
  then show ?case by (auto simp: wp_ret intro!: wp_kept_call [OF 4(1)])
qed simp_all

lemma check_optional_controls_wp:
  assumes "kept w a (lt_created (oc_log controls)) v"
  shows "wp (check_optional_controls fd controls) (\<lambda>controls' w'. kept w a (lt_created (oc_log controls')) w') (\<lambda>_. True) v"
  unfolding check_optional_controls_def
  by (rule wp_bindI [OF check_fwlog_wp [OF assms] check_dump_wp])

section \<open>The command loop\<close>

lemma command_log_steady:
  assumes "command_log fd c rc t" "e \<in> set t"
  shows "steady (fst e)"
proof -
  have q: "silent x \<Longrightarrow> steady x" for x by (cases x) simp_all
  have v: "version_key x \<Longrightarrow> steady x" for x
    by (auto simp: version_key_def PATCH_VERSION_def WIFI_VERSION_def BT_VERSION_def LAUNCHER_READY_def)
  have s: "sending fd data u \<Longrightarrow> x \<in> set u \<Longrightarrow> steady (fst x)" for data u x
    by (auto simp: sending_def)
  obtain search sends pubs data where t: "t = search @ sends @ pubs" "\<forall>e\<in>set search. silent (fst e)"
    "sending fd data sends" "\<forall>e\<in>set pubs. version_key (fst e)"
    using assms(1) unfolding command_log_def sent_def by blast
  then consider "e \<in> set search" | "e \<in> set sends" | "e \<in> set pubs" using assms(2) by auto
  then show ?thesis using t q v s by cases blast+
qed

lemma poll_command_wp:
  assumes k: "kept w a b v" and ok: "errno_ok w" and d: "d \<noteq> []" and buf: "length buf = 2680"
  shows "wp (poll_command buf fd session d) (\<lambda>_ w'. kept w a b w') (\<lambda>_. True) v"
  unfolding poll_command_def
proof (rule wp_kept_call [OF k], goal_cases)
  case (4 p v1)
  have "wp (bind (sys (Read fd WMT_CMD2_READ_MAX)) (\<lambda>r.
       if res r < 0 then
         ret (if err r = EINTR \<or> err r = EAGAIN \<or> err r = ETIMEDOUT then None else Some (- err r))
       else let data = delivered r WMT_CMD2_READ_MAX in
       bind (mem (wmt_command_decode (Some data) (length data) session
               (Some \<lparr>cmd_session = 0, cmd_transaction = 0, cmd_text = replicate 256 0\<rparr>))) (\<lambda>(result, command).
       if result \<noteq> 0 then ret (Some result)
       else bind (mem command) (\<lambda>command.
         bind (handle_command buf fd d command) (\<lambda>result.
         ret (if discarded result then None else if result \<noteq> 0 then Some result else None))))))
     (\<lambda>_ w'. kept w a b w') (\<lambda>_. True) v1"
  proof (rule wp_kept_call [OF 4(1)], goal_cases)
    case (4 r v2)
    let ?f = "delivered r WMT_CMD2_READ_MAX" and ?zero = "\<lparr>cmd_session = 0, cmd_transaction = 0, cmd_text = replicate 256 0\<rparr>"
    obtain rc c where dec: "wmt_command_decode (Some ?f) (length ?f) session (Some ?zero) = Some (rc, c)"
      using decode_total [of "length ?f" ?f session "Some ?zero"] by auto
    have "wp (bind (mem c) (\<lambda>command. bind (handle_command buf fd d command) (\<lambda>result.
         ret (if discarded result then None else if result \<noteq> 0 then Some result else None))))
      (\<lambda>_ w'. kept w a b w') (\<lambda>_. True) v2" if rc0: "rc = 0"
    proof -
      obtain t payload where f: "session \<noteq> 0" "t \<noteq> 0" "valid_text payload" "?f = command_frame session t payload"
        using decode_success_frame [OF dec [unfolded rc0]] by blast
      let ?c = "\<lparr>cmd_session = session, cmd_transaction = t, cmd_text = payload @ replicate (256 - length payload) 0\<rparr>"
      have c: "c = Some ?c" using dec rc0 decode_command_frame [OF f(1-3), of ?zero] f(4) by simp
      have nul: "0 \<in> set (cmd_text ?c)" using f(3) by (auto simp: valid_text_def wmt_const_defs)
      have "wp (handle_command buf fd d ?c) (\<lambda>_ w'. kept w a b w') (\<lambda>_. True) v2"
        by (rule wp_mono [OF handle_command_wp [OF frame_errno_ok [OF kept_frame [OF 4(1)] ok] d nul]])
          (use f buf 4(1) in \<open>auto intro: kept_steady dest: command_log_steady\<close>)
      then show ?thesis unfolding c bind_mem by (rule wp_bindI) (simp add: wp_ret)
    qed
    then show ?case using 4(1) dec by (auto simp: wp_ret Let_def)
  qed simp_all
  then show ?case using 4(1) by (auto simp: wp_ret)
qed simp_all


text \<open>A turn of the loop after its first call.\<close>

lemma command_turn_wp:
  assumes ok: "errno_ok w" and d: "d \<noteq> []" and buf: "length buf = 2680"
  shows "wp (command_turn buf fd session d checked controls)
    (\<lambda>x w'. case x of Inl (p, controls') \<Rightarrow> kept w (lt_created (oc_log controls)) (lt_created (oc_log controls')) w'
       | Inr (rc, controls') \<Rightarrow> kept w (lt_created (oc_log controls)) (lt_created (oc_log controls')) w') (\<lambda>_. True) w"
    (is "wp _ ?Q _ _")
proof -
  let ?kept = "\<lambda>controls' w'. kept w (lt_created (oc_log controls)) (lt_created (oc_log controls')) w'"
  have poll: "wp (bind (poll_command buf fd session d) (\<lambda>left. ret (case left of None \<Rightarrow> Inl (p, cs) | Some result \<Rightarrow> Inr (result, cs))))
      ?Q (\<lambda>_. True) v" if "?kept cs v" for p cs v
    by (rule wp_bindI [OF poll_command_wp [OF that ok d buf]]) (simp add: wp_ret split: option.split)
  have controls: "wp (bind (check_optional_controls fd controls) (\<lambda>cs. bind (poll_command buf fd session d) (\<lambda>left.
       ret (case left of None \<Rightarrow> Inl (True, cs) | Some result \<Rightarrow> Inr (result, cs))))) ?Q (\<lambda>_. True) v"
    if "?kept controls v" for v
    by (rule wp_bindI [OF check_optional_controls_wp [OF that] poll])
  have result: "wp (bind (sys (Load ''power.result'')) (\<lambda>r. bind (if res r \<noteq> 0 then ret (Inr (res r))
         else bind (check_optional_controls fd controls) (\<lambda>controls. ret (Inl (True, controls)))) (\<lambda>checked.
       case checked of Inr result \<Rightarrow> ret (Inr (result, controls))
       | Inl (p, cs) \<Rightarrow> bind (poll_command buf fd session d) (\<lambda>left.
           ret (case left of None \<Rightarrow> Inl (p, cs) | Some result \<Rightarrow> Inr (result, cs)))))) ?Q (\<lambda>_. True) v"
    if "?kept controls v" for v
    using controls by (intro wp_kept_call [OF that]) (auto simp: bind_assoc wp_ret)
  show ?thesis unfolding command_turn_def load_flag_def bind_assoc bind_ret
    using result controls poll
    by (intro wp_kept_call [OF kept_refl]) (auto simp: bind_assoc)
qed

lemma command_step_wp:
  assumes k: "kept w a (lt_created (oc_log controls)) v" and ok: "errno_ok w" and d: "d \<noteq> []"
    and buf: "length buf = 2680"
  shows "wp (command_step buf fd session d (checked, controls)) (\<lambda>x w'. length (script w') < length (script v)
    \<and> (case x of Inl (p, controls') \<Rightarrow> kept w a (lt_created (oc_log controls')) w'
       | Inr (rc, controls') \<Rightarrow> kept w a (lt_created (oc_log controls')) w')) (\<lambda>_. True) v"
  unfolding command_step_def prod.case stop_requested_def load_flag_def bind_assoc bind_ret
proof (rule wp_kept_call [OF k], goal_cases)
  case (4 r v1)
  note len = after_length [OF 4(2)] and ok1 = frame_errno_ok [OF kept_frame [OF 4(1)] ok]
  have short: "length (script u) < length (script v)" if "kept v1 b c u" for b c u
    using that len by (simp add: kept_def frame_def)
  show ?case
  proof (cases "res r \<noteq> 0")
    case True
    then show ?thesis using 4(1) len by (simp add: wp_ret)
  next
    case False
    show ?thesis unfolding if_not_P [OF False]
      by (rule wp_mono [OF command_turn_wp [OF ok1 d buf]])
        (auto split: sum.splits dest: short kept_trans [OF 4(1)])
  qed
qed simp_all

lemma command_loop_wp:
  assumes k: "kept w a (lt_created (oc_log controls)) w" and ok: "errno_ok w" and d: "d \<noteq> []"
    and buf: "length buf = 2680"
  shows "wp (command_loop buf fd session d controls)
    (\<lambda>(rc, controls') w'. kept w a (lt_created (oc_log controls')) w') (\<lambda>_. True) w"
  unfolding command_loop_def
proof (rule wp_loop [where I = "\<lambda>(p, controls) v. kept w a (lt_created (oc_log controls)) v"], goal_cases)
  case (2 s v)
  obtain p cs where s: "s = (p, cs)" by (cases s)
  show ?case unfolding s
    by (rule wp_mono [OF command_step_wp [OF _ ok d buf]])
      (use 2 s in \<open>auto split: sum.splits\<close>)
qed (use k in simp)


section \<open>Start and shutdown\<close>

lemma wp_kept_calls:
  assumes "kept w a b v" "wp m (\<lambda>_ _. True) (\<lambda>_. True) v" "calls (\<lambda>c. steady c \<and> neutral c) m"
  shows "wp m (\<lambda>_ w'. kept w a b w') (\<lambda>_. True) v"
  by (rule wp_mono [OF wp_calls [OF assms(2,3)]])
    (auto simp: made_def intro!: kept_steady [OF assms(1)] made_frame)

lemma check_chip_wp:
  assumes "kept w a b v"
  shows "wp (check_chip fd) (\<lambda>_ w'. kept w a b w') (\<lambda>_. True) v"
proof (rule wp_kept_calls [OF assms])
  let ?turn = "\<lambda>_::unit. bind stop_requested (\<lambda>stop.
       if stop then ret (Inr (- EINTR))
       else bind (sys (Ioctl fd WMT_CHIP_ID (Scalar 0))) (\<lambda>r.
         if res r \<ge> 0 then ret (Inr (if launcher_supported_chip (nat (res r)) then 0 else - ENODEV))
         else if err r \<noteq> EAGAIN \<and> err r \<noteq> ENODEV \<and> err r \<noteq> EPERM \<and> err r \<noteq> EINTR
         then ret (Inr (- err r))
         else bind (sys (Usleep 300000)) (\<lambda>_. ret (Inl ()))))"
  have "wp (loop ?turn ()) (\<lambda>_ _. True) (\<lambda>_. True) w" for w
    by (rule wp_loop [where I = "\<lambda>_ _. True"])
      (auto simp: stop_requested_def load_flag_def wp_simps split: list.split)
  then show "wp (check_chip fd) (\<lambda>_ _. True) (\<lambda>_. True) v"
    by (auto simp: check_chip_def cached_chip_def property_get_def bind_assoc wp_ret intro!: wp_call_bind)
  show "calls (\<lambda>c. steady c \<and> neutral c) (check_chip fd)"
    unfolding check_chip_def cached_chip_def property_get_def stop_requested_def load_flag_def
    by (intro calls_intros) (simp_all add: neutral_def)
qed

lemma session_of_bytes_total: "length b = 32 \<Longrightarrow> \<exists>s. session_of_bytes b = Some s"
  using f32.read_total [of 0 b] f32.read_total [of 4 b] f64.read_total [of 8 b] f32.read_total [of 16 b]
    f32.read_total [of 20 b] f32.read_total [of 24 b] f32.read_total [of 28 b]
  by (auto simp: session_of_bytes_def)

lemma bind_session_wp:
  assumes k: "kept w a b v"
  shows "wp (bind_session fd) (\<lambda>_ w'. kept w a b w') (\<lambda>_. True) v"
proof -
  have "\<exists>s. (do { bytes \<leftarrow> blit (session_bytes (session_request WMT_CMD2_BIND 0)) 0 (take 32 x); session_of_bytes bytes })
    = Some s" for x
  proof -
    have "length (session_bytes (session_request WMT_CMD2_BIND 0)) = 32" by (simp add: session_bytes_def)
    then show ?thesis using session_of_bytes_total by (auto simp: blit_def bind_eq_Some_conv)
  qed
  then show ?thesis unfolding bind_session_def Let_def
    by (intro wp_kept_call [OF k]) (auto simp: wp_simps)
qed

text \<open>The state of the threads, the ready property and the descriptor at the label \<open>out\<close>.\<close>

definition at_out :: "pworld \<Rightarrow> launcher_state \<Rightarrow> pworld \<Rightarrow> bool" where
  "at_out w st w' \<longleftrightarrow> frame w w' \<and> alive ''power'' (trace w') = of_bool (ls_started st)
     \<and> alive ''log'' (trace w') = of_bool (lt_created (oc_log (ls_controls st)))
     \<and> (advertised (trace w') \<longrightarrow> ls_advertised st)"

definition idle :: "pworld \<Rightarrow> bool" where
  "idle w \<longleftrightarrow> alive ''power'' (trace w) = 0 \<and> alive ''log'' (trace w) = 0 \<and> \<not> advertised (trace w)"

lemma at_out_kept:
  "idle w \<Longrightarrow> kept w False False w' \<Longrightarrow> at_out w (launcher_state0\<lparr>ls_session := s\<rparr>) w'"
  by (simp add: at_out_def idle_def kept_def launcher_state0_def)

lemma after_alive: "after w c r w' \<Longrightarrow> alive n (trace w') = alive n (trace w) + thread_delta n (c, r)"
  by (simp add: after_def alive_snoc)

lemma after_advertised: "after w c r w' \<Longrightarrow> advertised (trace w') = ready_event (c, r) (advertised (trace w))"
  by (simp add: after_def advertised_snoc)

lemma launcher_work_wp:
  assumes out: "at_out w st v" and ok: "errno_ok w" and d: "d \<noteq> []" and buf: "length buf = 2680"
    and st: "\<not> ls_started st" "\<not> lt_created (oc_log (ls_controls st))"
  shows "wp (launcher_work buf fd d session st) (\<lambda>(rc, st) w'. at_out w st w') (\<lambda>_. True) v"
  unfolding launcher_work_def
proof (intro wp_call_bind, goal_cases)
  case (1 r1 v1 r2 v2)
  have fr: "frame w v2"
    using out frame_trans [OF _ frame_trans [OF after_frame [OF 1(1)] after_frame [OF 1(2)]]]
    by (simp add: at_out_def)
  note al = after_alive [OF 1(1)] after_alive [OF 1(2)] after_advertised [OF 1(1)] after_advertised [OF 1(2)]
  have fail: "at_out w st v2" if "res r2 \<noteq> 0"
    using out fr that by (auto simp: at_out_def al)
  have k: "kept v2 False (lt_created (oc_log (ls_controls st))) v2" using st by simp
  have "wp (bind (command_loop buf fd session d (ls_controls st)) (\<lambda>(result, controls).
        ret (result, st\<lparr>ls_started := True, ls_controls := controls\<rparr>)))
      (\<lambda>(rc, st) w'. at_out w st w') (\<lambda>_. True) v2" if "res r2 = 0"
    by (rule wp_bindI [OF command_loop_wp [OF k frame_errno_ok [OF fr ok] d buf]])
      (use out that st in \<open>auto simp: wp_ret at_out_def kept_def al frame_trans [OF fr]\<close>)
  then show ?case using fail by (simp add: wp_ret)
qed

lemma launcher_serve_wp:
  assumes idle: "idle w" and k: "kept w False False v" and ok: "errno_ok w" and d: "d \<noteq> []" and buf: "length buf = 2680"
  shows "wp (launcher_serve buf fd d s) (\<lambda>(rc, st) w'. at_out w st w') (\<lambda>_. True) v"
proof -
  let ?st = "launcher_state0\<lparr>ls_session := Some s\<rparr>"
  note early = at_out_kept [OF idle, of _ "Some s"]
  have ready: "wp (bind (sys (Property_set LAUNCHER_READY (ascii ''yes''))) (\<lambda>r.
      if res r \<noteq> 0 then ret (- EIO, ?st)
      else launcher_work buf fd d (cs_session_id s) (?st\<lparr>ls_advertised := True\<rparr>)))
      (\<lambda>(rc, st) w'. at_out w st w') (\<lambda>_. True) v2" if k2: "kept w False False v2" for v2
  proof (rule wp_call_bind, goal_cases)
    case (1 r v3)
    have fr: "frame w v3" using frame_trans [OF kept_frame [OF k2] after_frame [OF 1]] by simp
    note al = after_alive [OF 1] after_advertised [OF 1]
    have "at_out w (?st\<lparr>ls_advertised := True\<rparr>) v3" "res r \<noteq> 0 \<longrightarrow> at_out w ?st v3"
      using k2 idle fr by (auto simp: at_out_def idle_def kept_def al launcher_state0_def)
    moreover have "\<not> ls_started (?st\<lparr>ls_advertised := True\<rparr>)"
      "\<not> lt_created (oc_log (ls_controls (?st\<lparr>ls_advertised := True\<rparr>)))"
      by (simp_all add: launcher_state0_def)
    ultimately show ?case using launcher_work_wp [OF _ ok d buf, of "?st\<lparr>ls_advertised := True\<rparr>" v3]
      by (simp add: wp_ret)
  qed
  show ?thesis unfolding launcher_serve_def Let_def
    by (intro wp_kept_call [OF k])
      (auto simp: wp_ret early intro!: wp_kept_call [where w = w and a = False and b = False] ready)
qed

lemma launcher_run_wp:
  assumes idle: "idle w" and ok: "errno_ok w" and d: "d \<noteq> []" and buf: "length buf = 2680"
  shows "wp (launcher_run buf fd d) (\<lambda>(rc, st) w'. at_out w st w') (\<lambda>_. True) w"
  unfolding launcher_run_def
proof (rule wp_bindI [OF check_chip_wp [OF kept_refl [where w = w and a = False]]], goal_cases)
  case (1 rc w1)
  have none: "at_out w launcher_state0 v" if "kept w False False v" for v
    using at_out_kept [OF idle that, of None] by (simp add: launcher_state0_def)
  have "wp (bind (bind_session fd) (\<lambda>(result, session).
     case session of None \<Rightarrow> ret (result, launcher_state0)
     | Some s \<Rightarrow>
       if result \<noteq> 0 then ret (result, launcher_state0\<lparr>ls_session := Some s\<rparr>)
       else launcher_serve buf fd d s)) (\<lambda>(rc, st) w'. at_out w st w') (\<lambda>_. True) w1"
    by (rule wp_bindI [OF bind_session_wp [OF 1]])
      (auto simp: wp_ret none at_out_kept [OF idle] launcher_serve_wp [OF idle _ ok d buf] split: option.split)
  then show ?case using none [OF 1] by (simp add: wp_ret)
qed


text \<open>No join of a thread of this name was refused so far; a withdrawal of the ready property was refused.\<close>

definition joined :: "string \<Rightarrow> (call \<times> response) list \<Rightarrow> bool" where
  "joined n t \<longleftrightarrow> (\<forall>r. (Thread_join n, r) \<in> set t \<longrightarrow> res r = 0)"

definition stuck_ready :: "(call \<times> response) list \<Rightarrow> bool" where
  "stuck_ready t \<longleftrightarrow> (\<exists>r. (Property_set LAUNCHER_READY (ascii ''no''), r) \<in> set t \<and> res r \<noteq> 0)"

text \<open>Progress of the shutdown: which worker may still run and whether the property may still say yes.\<close>

definition winding :: "pworld \<Rightarrow> bool \<Rightarrow> bool \<Rightarrow> bool \<Rightarrow> pworld \<Rightarrow> bool" where
  "winding w p l adv w' \<longleftrightarrow> frame w w' \<and> (advertised (trace w') \<longrightarrow> adv \<or> stuck_ready (trace w'))
     \<and> (joined ''power'' (trace w') \<longrightarrow> alive ''power'' (trace w') = of_bool p)
     \<and> (joined ''log'' (trace w') \<longrightarrow> alive ''log'' (trace w') = of_bool l)"

lemma at_out_winding:
  "at_out w st w' \<Longrightarrow> winding w (ls_started st) (lt_created (oc_log (ls_controls st))) (ls_advertised st) w'"
  by (simp add: at_out_def winding_def)

lemma after_joined: "after w c r w' \<Longrightarrow> joined n (trace w') \<Longrightarrow> joined n (trace w)"
  by (simp add: after_def joined_def)

lemma after_stuck: "after w c r w' \<Longrightarrow> stuck_ready (trace w) \<Longrightarrow> stuck_ready (trace w')"
  by (auto simp: after_def stuck_ready_def)

lemma winding_call:
  assumes "winding w p l adv v" "after v c r v'" "steady c" "acquires (c, r) = {#}" "releases (c, r) = {#}"
  shows "winding w p l adv v'"
  using assms after_joined [OF assms(2)] after_alive [OF assms(2)] after_advertised [OF assms(2)]
    frame_trans [OF _ after_frame [OF assms(2,4,5)], of w] steady_delta [OF assms(3)] after_stuck [OF assms(2)]
  by (auto simp: winding_def)

lemma winding_join:
  assumes "winding w p l adv v" "after v (Thread_join n) r v'"
  shows "n = ''power'' \<Longrightarrow> p \<Longrightarrow> winding w False l adv v'" "n = ''log'' \<Longrightarrow> l \<Longrightarrow> winding w p False adv v'"
  using assms after_joined [OF assms(2)] after_alive [OF assms(2)] after_advertised [OF assms(2)]
    frame_trans [OF _ after_frame [OF assms(2)], of w] after_stuck [OF assms(2)]
  by (auto simp: winding_def joined_def after_def)

lemma winding_ready:
  assumes "winding w p l adv v" "after v (Property_set LAUNCHER_READY (ascii ''no'')) r v'"
  shows "winding w p l False v'"
  using assms after_joined [OF assms(2)] after_alive [OF assms(2)] after_advertised [OF assms(2)]
    frame_trans [OF _ after_frame [OF assms(2)], of w] after_stuck [OF assms(2)]
  by (auto simp: winding_def ascii_def stuck_ready_def after_def)

lemma wp_winding_call:
  assumes "winding w p l adv v" "steady c" "\<And>r. acquires (c, r) = {#}" "\<And>r. releases (c, r) = {#}"
    and "\<And>r v'. winding w p l adv v' \<Longrightarrow> wp (f r) Q (\<lambda>_. True) v'"
  shows "wp (bind (sys c) f) Q (\<lambda>_. True) v"
  using assms winding_call [of w p l adv v c] by (intro wp_call_bind) blast

lemma stop_firmware_log_winding:
  assumes k: "winding w p (lt_created task) adv v"
  shows "wp (stop_firmware_log fd task) (\<lambda>_ w'. winding w p False adv w') (\<lambda>_. True) v"
proof (cases "lt_created task")
  case True
  have disable: "wp (bind (sys (Ioctl fd WMT_FWLOG (Scalar 0))) (\<lambda>r. ret (g r)))
      (\<lambda>_ w'. winding w p False adv w') (\<lambda>_. True) v'" if "winding w p False adv v'" for v' and g :: "response \<Rightarrow> int \<times> log_task"
    by (rule wp_winding_call [OF that]) (simp_all add: wp_ret)
  have join: "wp (bind (sys (Thread_join ''log'')) f) Q (\<lambda>_. True) v'"
    if "winding w p (lt_created task) adv v'" "\<And>r v''. winding w p False adv v'' \<Longrightarrow> wp (f r) Q (\<lambda>_. True) v''"
    for v' and f :: "response \<Rightarrow> (int \<times> log_task) posix" and Q
    using winding_join(2) [OF that(1) _ refl] True that(2) by (intro wp_call_bind) auto
  show ?thesis using True unfolding stop_firmware_log_def
    by (simp add: bind_assoc) (intro wp_winding_call [OF k] join; auto simp: wp_ret intro!: disable)
next
  case False
  then have k: "winding w p False adv v" using k by simp
  show ?thesis using False unfolding stop_firmware_log_def
    by (simp, intro wp_winding_call [OF k]) (simp_all add: wp_ret)
qed

text \<open>
  Nothing is left behind: no handle; no advertisement, unless its withdrawal was refused; and no thread of a name,
  unless a join of that thread was refused.
\<close>

definition stopped :: "(call \<times> response) list \<Rightarrow> bool" where
  "stopped t \<longleftrightarrow> holding t {#} \<and> (advertised t \<longrightarrow> stuck_ready t)
     \<and> (\<forall>n \<in> {''power'', ''log''}. joined n t \<longrightarrow> alive n t = 0)"

lemma stopped_call:
  assumes "stopped (trace w)" "after w c r w'" "steady c" "acquires (c, r) = {#}" "releases (c, r) = {#}"
  shows "stopped (trace w')"
  using assms after_alive [OF assms(2)] after_advertised [OF assms(2)] after_joined [OF assms(2)]
    after_holding [OF assms(2), of "{#}" "{#}"] steady_delta [OF assms(3)] after_stuck [OF assms(2)]
  by (simp add: stopped_def)

lemma winding_close:
  assumes "winding w False False False v" "holding (trace w) {#FD fd#}" "after v (Close fd) r v'"
  shows "stopped (trace v')"
proof -
  have "holding (trace v) {#FD fd#}" using assms(1,2) by (auto simp: winding_def frame_def)
  then have "holding (trace v') {#}" using after_holding [OF assms(3)] by simp
  then show ?thesis
    using assms(1) after_alive [OF assms(3)] after_advertised [OF assms(3)] after_joined [OF assms(3)]
      after_stuck [OF assms(3)]
    by (auto simp: winding_def stopped_def)
qed

lemma launcher_out_wp:
  assumes "at_out w st v" and h: "holding (trace w) {#FD fd#}"
  shows "wp (launcher_out fd result st) (\<lambda>status w'. status \<in> {0, 1} \<and> stopped (trace w')) (\<lambda>_. True) v"
    (is "wp _ ?Q _ _")
proof -
  let ?created = "lt_created (oc_log (ls_controls st))"
  have close: "wp (bind (sys (Close fd)) (\<lambda>_. if result = 0 then ret 0
       else bind stop_requested (\<lambda>stop. ret (if stop then 0 else 1)))) ?Q (\<lambda>_. True) v1"
    if k: "winding w False False False v1" for v1
    unfolding stop_requested_def load_flag_def bind_assoc bind_ret
  proof (rule wp_call_bind, goal_cases)
    case (1 r v2)
    note s = winding_close [OF k h 1]
    have "stopped (trace v3)" if "after v2 (Load n) r' v3" for n r' v3
      using stopped_call [OF s that] by simp
    then show ?case using s by (auto simp: wp_ret intro!: wp_call_bind)
  qed
  have ready: "wp (bind (if ls_advertised st then publish LAUNCHER_READY (ascii ''no'') else ret ()) (\<lambda>_. m)) ?Q (\<lambda>_. True) v1"
    if k: "winding w False False (ls_advertised st) v1" and m: "\<And>v. winding w False False False v \<Longrightarrow> wp m ?Q (\<lambda>_. True) v" for m v1
    using k m winding_ready [OF k] by (auto simp: publish_def bind_assoc intro!: wp_call_bind)
  have logs: "wp (bind (if ?created \<or> oc_fwlog (ls_controls st) = ascii ''yes''
           then bind (stop_firmware_log fd (oc_log (ls_controls st))) (\<lambda>_. ret ()) else ret ()) (\<lambda>_. m)) ?Q (\<lambda>_. True) v1"
    if k: "winding w False ?created (ls_advertised st) v1"
      and m: "\<And>v. winding w False False (ls_advertised st) v \<Longrightarrow> wp m ?Q (\<lambda>_. True) v" for m v1
    using k m wp_bindI [OF stop_firmware_log_winding [OF k], of "\<lambda>_. m"] by (auto simp: bind_assoc)
  have power: "wp (bind (if ls_started st then bind (sys (Thread_join ''power'')) (\<lambda>_. ret ()) else ret ()) (\<lambda>_. m)) ?Q (\<lambda>_. True) v1"
    if k: "winding w (ls_started st) ?created (ls_advertised st) v1"
      and m: "\<And>v. winding w False ?created (ls_advertised st) v \<Longrightarrow> wp m ?Q (\<lambda>_. True) v" for m v1
    using k m winding_join(1) [OF k _ refl] by (auto simp: bind_assoc intro!: wp_call_bind)
  have unbind: "wp (bind (case ls_session st of None \<Rightarrow> ret ()
           | Some s \<Rightarrow> bind (sys (Ioctl fd WMT_IOCTL_CMD2_SESSION
               (Buffer (session_bytes (session_request WMT_CMD2_UNBIND (cs_session_id s)))))) (\<lambda>_. ret ())) (\<lambda>_. m)) ?Q (\<lambda>_. True) v1"
    if k: "winding w (ls_started st) ?created (ls_advertised st) v1"
      and m: "\<And>v. winding w (ls_started st) ?created (ls_advertised st) v \<Longrightarrow> wp m ?Q (\<lambda>_. True) v" for m v1
    using k m by (auto simp: bind_assoc split: option.split intro: wp_winding_call)
  show ?thesis unfolding launcher_out_def
  proof (rule wp_winding_call [OF at_out_winding [OF assms(1)]], goal_cases)
    case (4 r v1)
    show ?case by (rule unbind [OF 4], erule power, erule logs, erule ready, erule close)
  qed simp_all
qed


text \<open>Before the driver is opened.\<close>

definition calm :: "pworld \<Rightarrow> bool" where
  "calm w \<longleftrightarrow> errno_ok w \<and> idle w \<and> holding (trace w) {#}"

lemma calm_call:
  assumes "calm w" "after w c r w'" "steady c" "acquires (c, r) = {#}" "releases (c, r) = {#}"
  shows "calm w'"
  using assms after_alive [OF assms(2)] after_advertised [OF assms(2)] after_errno_ok [OF assms(2)]
    after_holding [OF assms(2), of "{#}" "{#}"] steady_delta [OF assms(3)]
  by (simp add: calm_def idle_def)

lemma wp_calm_call:
  assumes "calm v" "steady c" "\<And>r. acquires (c, r) = {#}" "\<And>r. releases (c, r) = {#}"
    and "\<And>r v'. calm v' \<Longrightarrow> length (script v') < length (script v) \<Longrightarrow> wp (f r) Q (\<lambda>_. True) v'"
  shows "wp (bind (sys c) f) Q (\<lambda>_. True) v"
  using assms calm_call [of v c] after_length [of v c] by (intro wp_call_bind) blast

lemma calm_stopped: "calm w \<Longrightarrow> stopped (trace w)"
  by (simp add: calm_def idle_def stopped_def)

definition opened :: "int \<Rightarrow> pworld \<Rightarrow> bool" where
  "opened fd w \<longleftrightarrow> (if fd < 0 then calm w else errno_ok w \<and> idle w \<and> holding (trace w) {#FD fd#})"

lemma calm_open:
  assumes "calm w" "after w (Open n) r w'"
  shows "if res r < 0 then calm w' else opened (res r) w'"
  using assms after_alive [OF assms(2)] after_advertised [OF assms(2)] after_errno_ok [OF assms(2)]
    after_holding [OF assms(2), of "{#}"]
  by (auto simp: calm_def idle_def opened_def)

lemma open_driver_wp:
  assumes "calm w"
  shows "wp open_driver opened (\<lambda>_. True) w"
  unfolding open_driver_def
proof (rule wp_loop [where I = "\<lambda>_. calm"], goal_cases)
  case (2 s v)
  let ?Q = "\<lambda>x w'. case x of Inl s' \<Rightarrow> calm w' \<and> length (script w') < length (script v) | Inr fd \<Rightarrow> opened fd w'"
  have fin: "wp (case fd of Some fd \<Rightarrow> ret (Inr fd) | None \<Rightarrow> bind (sys (Usleep 300000)) (\<lambda>_. ret (Inl ()))) ?Q (\<lambda>_. True) u"
    if "length (script u) < length (script v)" "case fd of None \<Rightarrow> calm u | Some fd \<Rightarrow> opened fd u" for fd u
    using that by (cases fd) (auto simp: wp_ret intro!: wp_calm_call)
  have opn: "wp (bind (sys (Open WMT_NODE)) (\<lambda>f. bind (ret (if res f \<ge> 0 then Some (res f)
        else if err f \<noteq> ENOENT \<and> err f \<noteq> ENODEV \<and> err f \<noteq> EINTR then Some (-1) else None)) (\<lambda>fd.
      case fd of Some fd \<Rightarrow> ret (Inr fd) | None \<Rightarrow> bind (sys (Usleep 300000)) (\<lambda>_. ret (Inl ()))))) ?Q (\<lambda>_. True) u"
    if "calm u" "length (script u) < length (script v)" for u
  proof (rule wp_call_bind, goal_cases)
    case (1 r u')
    have "length (script u') < length (script v)" using that(2) after_length [OF 1] by simp
    then show ?case unfolding bind_ret
      by (rule fin) (use calm_open [OF that(1) 1] in \<open>auto simp: opened_def split: if_splits\<close>)
  qed
  show ?case unfolding stop_requested_def load_flag_def property_get_def bind_assoc bind_ret
  proof (rule wp_calm_call [OF 2], goal_cases)
    case (4 r v1)
    show ?case
    proof (cases "res r \<noteq> 0")
      case False
      show ?thesis unfolding if_not_P [OF False]
      proof (rule wp_calm_call [OF 4(1)], goal_cases)
        case p: (4 r v2)
        then have "length (script v2) < length (script v)" using 4(2) by simp
        then show ?case using p(1) opn fin [of v2 None] by (auto simp: bind_assoc)
      qed simp_all
    qed (use 4 in \<open>simp add: wp_ret opened_def\<close>)
  qed simp_all
qed (use assms in simp)

lemma launcher_options_wp:
  assumes "calm w"
  shows "wp launcher_options (\<lambda>x w'. calm w' \<and> (case x of Inl status \<Rightarrow> status \<in> {0, 2} | Inr d \<Rightarrow> 0 \<in> set d)) (\<lambda>_. True) w"
  unfolding launcher_options_def
proof (rule wp_loop [where I = "\<lambda>d v. calm v \<and> 0 \<in> set d"], goal_cases)
  case (2 d v)
  then show ?case by (auto simp: wp_ret Let_def intro!: wp_calm_call)
qed (use assms in \<open>simp add: cstr_def\<close>)

lemma launcher_main_wp:
  assumes calm: "calm w" and buf: "length buf = 2680"
  shows "wp (launcher_main buf) (\<lambda>status w'. status \<in> {0, 1, 2} \<and> stopped (trace w')) (\<lambda>_. True) w" (is "wp _ ?Q _ _")
  unfolding launcher_main_def
proof (rule wp_bindI [OF launcher_options_wp [OF calm]], goal_cases)
  case (1 x w1)
  have serve: "wp (bind open_driver (\<lambda>fd. if fd < 0 then bind stop_requested (\<lambda>stop. ret (if stop then 0 else 1))
       else bind (launcher_run buf fd d) (\<lambda>(result, st). launcher_out fd result st))) ?Q (\<lambda>_. True) v"
    if "calm v" "d \<noteq> []" for v d
  proof (rule wp_bindI [OF open_driver_wp [OF that(1)]], goal_cases)
    case (1 fd v1)
    show ?case
    proof (cases "fd < 0")
      case True
      then have "calm v1" using 1 by (simp add: opened_def)
      then show ?thesis using True unfolding stop_requested_def load_flag_def bind_assoc bind_ret
        by (auto simp: wp_ret calm_stopped intro!: wp_calm_call)
    next
      case False
      then have o: "errno_ok v1" "idle v1" "holding (trace v1) {#FD fd#}" using 1 by (simp_all add: opened_def)
      have "wp (launcher_out fd rc st) ?Q (\<lambda>_. True) v2" if "at_out v1 st v2" for rc st v2
        by (rule wp_mono [OF launcher_out_wp [OF that o(3)]]) auto
      then show ?thesis unfolding if_not_P [OF False]
        by (intro wp_bindI [OF launcher_run_wp [OF o(2,1) that(2) buf]]) auto
    qed
  qed
  show ?case
  proof (cases x)
    case (Inl status)
    then show ?thesis using 1 by (auto simp: wp_ret calm_stopped)
  next
    case (Inr d)
    then have d: "calm w1" "0 \<in> set d" "d \<noteq> []" using 1 by auto
    obtain n where "strnlen d PATH_MAX = Some n"
      using d(2) str_of_less_iff [of d] by (simp add: strnlen_Some_iff)
    then have path: "(do { c \<leftarrow> rd d 0; n \<leftarrow> strnlen d PATH_MAX; Some (c = 0 \<or> n = PATH_MAX) }) = Some (d ! 0 = 0 \<or> n = PATH_MAX)"
      using d(3) by simp
    show ?thesis unfolding Inr sum.case path bind_mem
      using d serve by (auto simp: wp_ret bind_assoc calm_stopped intro!: wp_calm_call)
  qed
qed

text \<open>C8: Whatever the driver, the property service and the environment answer, the launcher neither
  leaves an object nor loops without a call. When it exits, with status 0, 1 or 2, every descriptor,
  directory and heap block is released; the ready property stands at yes by its doing only if the property
  service refused to set it to no; and a power or log worker is still running only if \<open>pthread_join\<close> failed
  for it.\<close>

theorem launcher_stops_clean:
  assumes "\<forall>r\<in>set rs. 0 < err r \<and> err r \<le> 4095" "length buf = WMT_CMD2_WRITE_MAX"
  shows "wp (launcher_main buf) (\<lambda>status w'. status \<in> {0, 1, 2} \<and> holding (trace w') {#} \<and>
      (advertised (trace w') \<longrightarrow> (\<exists>r. (Property_set LAUNCHER_READY (ascii ''no''), r) \<in> set (trace w') \<and> res r \<noteq> 0)) \<and>
      (\<forall>n \<in> {''power'', ''log''}. alive n (trace w') = 0 \<or> (\<exists>r. (Thread_join n, r) \<in> set (trace w') \<and> res r \<noteq> 0)))
    (\<lambda>_. True) (world0 rs)"
proof -
  have "calm (world0 rs)"
    using assms(1) by (simp add: calm_def idle_def errno_ok_def world0_def alive_def advertised_def)
  then show ?thesis
    using assms(2)
    by (intro wp_mono [OF launcher_main_wp]) (auto simp: wmt_const_defs stopped_def stuck_ready_def joined_def)
qed


section \<open>The power worker\<close>

definition power_calls :: "int \<Rightarrow> int \<Rightarrow> (response \<Rightarrow> bool) \<Rightarrow> (call \<times> response) list \<Rightarrow> nat" where
  "power_calls fd a P t = length (filter (\<lambda>e. fst e = Ioctl fd WMT_POWER (Scalar a) \<and> P (snd e)) t)"

definition told_to_stop :: "(call \<times> response) list \<Rightarrow> bool" where
  "told_to_stop t \<longleftrightarrow> (\<exists>r. (Load ''power.stopping'', r) \<in> set t \<and> res r \<noteq> 0)"

text \<open>
  What the log of the worker says of its attempts with \<open>a\<close>: at most 20; zero is returned exactly
  when the last one answered zero; each failed one is followed by a cleanup, but for the one after
  which the worker was told to stop.
\<close>

definition power_log :: "int \<Rightarrow> int \<Rightarrow> int \<Rightarrow> (call \<times> response) list \<Rightarrow> bool" where
  "power_log fd a rc t \<longleftrightarrow>
     (let failures = power_calls fd a (\<lambda>r. res r \<noteq> 0) t; cleanups = power_calls fd 0 (\<lambda>_. True) t in
      power_calls fd a (\<lambda>_. True) t \<le> 20
      \<and> power_calls fd a (\<lambda>_. True) t = failures + of_bool (rc = 0)
      \<and> (cleanups = failures \<or> Suc cleanups = failures \<and> told_to_stop t))"

definition power_inv :: "int \<Rightarrow> int \<Rightarrow> nat \<times> int \<Rightarrow> pworld \<Rightarrow> bool" where
  "power_inv fd a = (\<lambda>(n, result) w. n \<le> 20 \<and> max 1 (5 * (20 - n)) \<le> length (script w)
     \<and> errno_ok w \<and> result \<noteq> 0 \<and> power_calls fd a (\<lambda>_. True) (trace w) = n
     \<and> power_calls fd a (\<lambda>r. res r \<noteq> 0) (trace w) = n \<and> power_calls fd 0 (\<lambda>_. True) (trace w) = n)"

lemma power_log_store: "power_log fd a rc t \<Longrightarrow> power_log fd a rc (t @ [(Store n x, r)])"
  by (simp add: power_log_def power_calls_def told_to_stop_def)

lemma power_attempt_wp:
  assumes I: "power_inv fd a s w" and a: "a \<noteq> 0"
  shows "wp (power_attempt fd a s) (\<lambda>x w'. case x of
      Inl s \<Rightarrow> power_inv fd a s w' \<and> length (script w') < length (script w)
    | Inr rc \<Rightarrow> power_log fd a rc (trace w') \<and> 0 < length (script w')) (\<lambda>_. False) w"
proof -
  obtain n result where s: "s = (n, result)" by (cases s)
  note I = I [unfolded s power_inv_def prod.case]
  show ?thesis
  proof (cases "n < 20")
    case False
    then show ?thesis using I by (auto simp: s power_attempt_def wp_ret power_log_def)
  next
    case True
    then have "5 \<le> length (script w)" using I by auto
    then obtain r1 r2 r3 r4 r5 rs where rs: "script w = r1 # r2 # r3 # r4 # r5 # rs"
      by (auto simp: numeral_eq_Suc Suc_le_length_iff)
    then have len: "5 * (20 - Suc n) \<le> length rs" using I by auto
    have rc: "0 < err r2" "\<forall>r\<in>set rs. 0 < err r \<and> err r \<le> 4095" "0 < err r5 \<and> err r5 \<le> 4095"
      using I by (auto simp: rs errno_ok_def)
    have end_at: "n + 1 < 20 \<or> n = 19" using True by auto
    show ?thesis using I a True len rc end_at
      by (simp add: s power_attempt_def load_flag_def Let_def wp_simps rs)
        (auto simp: power_log_def power_inv_def power_calls_def told_to_stop_def errno_ok_def Let_def)
  qed
qed

text \<open>C24: The power worker always returns: 100 answers are enough, whatever they are, for its run with a
  power argument of 1 or 2. It makes at most 20 power requests, reports success exactly when the last
  one succeeded, cleans up after every failed one unless told to stop, and ends by raising its
  finished flag.\<close>

theorem power_on_returns:
  assumes "100 \<le> length rs" "\<forall>r\<in>set rs. 0 < err r \<and> err r \<le> 4095" "a \<in> {1, 2}"
  shows "wp (power_on fd a) (\<lambda>rc w'. power_log fd a rc (trace w') \<and> fst (last (trace w')) = Store ''power.finished'' 1)
    (\<lambda>_. False) (world0 rs)"
proof -
  have a: "a \<noteq> 0" using assms(3) by auto
  have I: "power_inv fd a (0, - ECANCELED) (world0 rs)"
    using assms(1,2) by (simp add: power_inv_def world0_def errno_ok_def power_calls_def)
  have "wp (loop (power_attempt fd a) (0, - ECANCELED))
      (\<lambda>rc w'. power_log fd a rc (trace w') \<and> 0 < length (script w')) (\<lambda>_. False) (world0 rs)"
    by (rule wp_loop [where I = "power_inv fd a", OF I]) (rule power_attempt_wp [OF _ a])
  then show ?thesis unfolding power_on_def
  proof (rule wp_bind_B, goal_cases)
    case (1 rc w1)
    show ?case
      by (rule wp_call_more) (use 1 in \<open>auto simp: wp_ret after_def power_log_store\<close>)
  qed
qed

theorem power_on_returns_witness:
  "wp (power_on 3 2) (\<lambda>rc w'. power_log 3 2 rc (trace w') \<and> fst (last (trace w')) = Store ''power.finished'' 1)
    (\<lambda>_. False) (world0 (replicate 100 (sys_fail EIO)))"
  using power_on_returns [of "replicate 100 (sys_fail EIO)" 2 3] by (simp add: sys_fail_def)


text \<open>A run in which the chip is not supported.\<close>

definition answer :: "int \<Rightarrow> string \<Rightarrow> response" where
  "answer n s = \<lparr>res = n, err = 1, dat = cstr s, regular = False, fsize = 0, revents = 0\<rparr>"

definition sample_start :: "response list" where
  "sample_start = [answer (-1) '''', answer 0 '''', answer 0 '''', answer 0 '''', answer 0 '''', answer 0 ''yes'',
     answer 3 '''', answer 0 '''', answer 0 '''', answer 0x1234 '''', answer 0 '''', answer 0 '''', answer 0 '''']"

lemma answer_sel [simp]:
  "res (answer n s) = n" "err (answer n s) = 1" "dat (answer n s) = cstr s"
  by (simp_all add: answer_def)

theorem launcher_stops_clean_witness:
  "\<exists>w'. launcher_main (replicate WMT_CMD2_WRITE_MAX 0) (world0 sample_start) = Done 1 w'
    \<and> holding (trace w') {#} \<and> alive ''power'' (trace w') = 0 \<and> \<not> advertised (trace w')
    \<and> Open WMT_NODE \<in> fst ` set (trace w') \<and> Close 3 \<in> fst ` set (trace w')"
proof -
  let ?d = "cstr ''/vendor/firmware/''"
  have opts: "launcher_options \<lparr>script = answer (-1) '''' # rs, trace = t\<rparr>
      = Done (Inr ?d) \<lparr>script = rs, trace = t @ [(Getopt, answer (-1) '''')]\<rparr>" for rs t
    unfolding launcher_options_def by (rule loop_exit) (simp add: bind_def sys_def ret_def)
  have str: "str_of (cstr '''') = []" "str_of (cstr ''yes'') = ascii ''yes''"
    by (simp_all add: str_of_def cstr_def ascii_def)
  have yes: "take 91 (ascii ''yes'') = ascii ''yes''" by (simp add: ascii_def)
  have opn: "open_driver \<lparr>script = answer 0 '''' # answer 0 ''yes'' # answer 3 '''' # rs, trace = t\<rparr>
      = Done 3 \<lparr>script = rs, trace = t @ [(Load ''stop_requested'', answer 0 ''''), (Property_get DRIVER_READY, answer 0 ''yes''),
          (Open WMT_NODE, answer 3 '''')]\<rparr>" for rs t
    unfolding open_driver_def
    by (rule loop_exit) (simp add: stop_requested_def load_flag_def property_get_def bind_def sys_def ret_def str yes PROPERTY_VALUE_MAX_def)
  have chip: "check_chip 3 \<lparr>script = answer 0 '''' # answer 0 '''' # answer 0x1234 '''' # rs, trace = t\<rparr>
      = Done (- ENODEV) \<lparr>script = rs, trace = t @ [(Property_get LAUNCHER_CHIP_PROPERTY, answer 0 ''''),
          (Load ''stop_requested'', answer 0 ''''), (Ioctl 3 WMT_CHIP_ID (Scalar 0), answer 0x1234 '''')]\<rparr>" for rs t
    unfolding check_chip_def
    by (simp add: cached_chip_def property_get_def bind_def sys_def ret_def str cached_value_def)
      (rule loop_exit, simp add: stop_requested_def load_flag_def bind_def sys_def ret_def launcher_supported_chip_def)
  have path: "rd ?d 0 = Some 47" "strnlen ?d PATH_MAX = Some 17" "17 \<noteq> PATH_MAX"
    by (simp_all add: cstr_def ascii_def rd_def strnlen_Some_iff str_of_def PATH_MAX_def)
  obtain w' where w': "launcher_main (replicate WMT_CMD2_WRITE_MAX 0) (world0 sample_start) = Done 1 w'"
    "Open WMT_NODE \<in> fst ` set (trace w')" "Close 3 \<in> fst ` set (trace w')"
    "\<forall>e \<in> set (trace w'). (\<forall>n. fst e \<noteq> Thread_join n) \<and> (\<forall>k v. fst e \<noteq> Property_set k v)"
    unfolding launcher_main_def world0_def sample_start_def launcher_run_def launcher_out_def
    by (simp add: bind_def opts sys_def ret_def path mem_def opn chip launcher_state0_def
        stop_requested_def load_flag_def ascii_def)
  have none: "(Thread_join n, r) \<notin> set (trace w')" "(Property_set k v, r) \<notin> set (trace w')" for n k v r
    using w'(4) by (metis fst_conv)+
  have ok: "\<forall>r \<in> set sample_start. 0 < err r \<and> err r \<le> 4095" by (simp add: sample_start_def)
  show ?thesis
    using wp_DoneD [OF launcher_stops_clean [OF ok] w'(1)] w'(1-3) none by simp
qed


section \<open>The dump buffer\<close>

text \<open>A dump request hands over the 110 bytes of a terminated text, more than the 109 the kernel copies.\<close>

definition dump_ok :: "call \<Rightarrow> bool" where
  "dump_ok c = (case c of Ioctl fd q (Buffer b) \<Rightarrow>
       q = WMT_DYNAMIC_DUMP \<longrightarrow> DYNAMIC_DUMP_BYTES < length b \<and> length (str_of b) < PROPERTY_VALUE_MAX
         \<and> (\<forall>i<length b. length (str_of b) \<le> i \<longrightarrow> b ! i = 0)
     | _ \<Rightarrow> True)"

lemma dump_ok_other:
  "(\<And>fd q b. c \<noteq> Ioctl fd q (Buffer b)) \<Longrightarrow> dump_ok c"
  by (auto simp: dump_ok_def split: call.split argument.split)

lemma dump_ok_padded:
  assumes "length s \<le> 91" "0 \<notin> set s"
  shows "dump_ok (Ioctl fd q (Buffer (s @ replicate (DYNAMIC_DUMP_BYTES + 1 - length s) 0)))"
proof -
  have "str_of (s @ replicate (Suc n) 0) = s" for n using assms(2) by simp
  moreover have "DYNAMIC_DUMP_BYTES + 1 - length s = Suc (109 - length s)"
    using assms(1) by (simp add: DYNAMIC_DUMP_BYTES_def)
  ultimately show ?thesis using assms(1)
    by (simp add: dump_ok_def DYNAMIC_DUMP_BYTES_def PROPERTY_VALUE_MAX_def nth_append nth_Cons' del: replicate_Suc)
qed

text \<open>C25: Whatever the properties say, every dynamic dump request of the optional controls hands the
  kernel a buffer larger than the 109 bytes it copies, zero after a text of at most 91 characters.\<close>

theorem dump_buffer_bounds: "calls dump_ok (check_optional_controls fd controls)"
proof -
  have padded: "dump_ok (Ioctl fd q (Buffer (take (PROPERTY_VALUE_MAX - 1) (str_of x)
      @ replicate (DYNAMIC_DUMP_BYTES + 1 - length (take (PROPERTY_VALUE_MAX - 1) (str_of x))) 0)))" for q x
    by (rule dump_ok_padded) (auto simp: PROPERTY_VALUE_MAX_def dest: in_set_takeD)
  show ?thesis
    unfolding check_optional_controls_def check_fwlog_def check_dump_def reap_log_def start_log_def stop_firmware_log_def
      load_flag_def property_get_def bind_assoc bind_ret
    by (intro calls_intros padded) (simp_all add: dump_ok_other)
qed

end
