(* ===== verification/Ril_Capability.thy ===== *)
theory Ril_Capability
  imports Prelude
begin

text \<open>
  The fixed radio capabilities of \<open>ril-shim/k50sv1_ril_shim.c\<close> (part 1 of that file): the answers to
  the two radio-capability requests and the suppression of repeated indications. What the shim sends
  to the telephony stack is a list of events. The enumerators of the platform header that the file
  compares are constructors, with one more constructor for every other value.
\<close>

section \<open>Data\<close>

datatype rc_phase = RC_PHASE_CONFIGURED | RC_PHASE_START | RC_PHASE_APPLY | RC_PHASE_UNSOL_RSP
  | RC_PHASE_FINISH | Other_phase int

datatype rc_status = RC_STATUS_NONE | RC_STATUS_SUCCESS | Other_status int

datatype rc_version = RIL_RADIO_CAPABILITY_VERSION | Other_version int

datatype ril_errno = RIL_E_SUCCESS | RIL_E_INVALID_ARGUMENTS

record RIL_RadioCapability =
  cap_version :: rc_version
  cap_session :: int
  cap_phase :: rc_phase
  cap_rat :: int
  cap_uuid :: bytes
  cap_status :: rc_status

type_synonym token = u64

datatype ril_event =
    OnRequestComplete token ril_errno "RIL_RadioCapability option"
  | OnUnsolRadioCapability RIL_RadioCapability int

definition SIM_COUNT :: nat where "SIM_COUNT = 2"
definition RIL_SOCKET_1 :: int where "RIL_SOCKET_1 = 0"
definition RIL_SOCKET_2 :: int where "RIL_SOCKET_2 = 1"
definition SLOT0_NATIVE_RAF :: int where "SLOT0_NATIVE_RAF = 0x1400a"
definition SLOT1_NATIVE_RAF :: int where "SLOT1_NATIVE_RAF = 0x10008"
definition SLOT0_MODEM_UUID :: string where "SLOT0_MODEM_UUID = ''modem_sys1_ps1''"
definition SLOT1_MODEM_UUID :: string where "SLOT1_MODEM_UUID = ''modem_sys1_ps2''"
definition CAPABILITY_SIZE :: nat where "CAPABILITY_SIZE = 84"
definition UUID_SIZE :: nat where "UUID_SIZE = 80 - 16"

lemmas rc_const_defs = SIM_COUNT_def RIL_SOCKET_1_def RIL_SOCKET_2_def SLOT0_NATIVE_RAF_def
  SLOT1_NATIVE_RAF_def SLOT0_MODEM_UUID_def SLOT1_MODEM_UUID_def CAPABILITY_SIZE_def UUID_SIZE_def

text \<open>The session of the last indicated APPLY, per socket, and whether it counts.\<close>

record rc_state =
  sLastApplySession :: "int list"
  sLastApplySessionValid :: "bool list"

definition rc_state0 :: rc_state where
  "rc_state0 = \<lparr>sLastApplySession = replicate SIM_COUNT 0, sLastApplySessionValid = replicate SIM_COUNT False\<rparr>"

section \<open>Operations\<close>

text \<open>
  The inner option is the C result: \<^term>\<open>Some\<close> the structure for true, \<^term>\<open>None\<close> for false, where
  the structure is zeroed and no caller reads it. The outer option is the access check of the copy.
\<close>

definition fillFixedRadioCapability ::
  "int \<Rightarrow> int \<Rightarrow> rc_phase \<Rightarrow> rc_status \<Rightarrow> RIL_RadioCapability option option" where
  "fillFixedRadioCapability socketId session phase status =
     (if socketId = RIL_SOCKET_1 \<or> socketId = RIL_SOCKET_2 then do {
        let (raf, uuid) = (if socketId = RIL_SOCKET_1 then (SLOT0_NATIVE_RAF, SLOT0_MODEM_UUID)
                           else (SLOT1_NATIVE_RAF, SLOT1_MODEM_UUID));
        len \<leftarrow> strlen (cstr uuid);
        src \<leftarrow> slice (cstr uuid) 0 len;
        modem \<leftarrow> blit (replicate UUID_SIZE 0) 0 src;
        Some (Some \<lparr>cap_version = RIL_RADIO_CAPABILITY_VERSION, cap_session = session, cap_phase = phase,
                   cap_rat = raf, cap_uuid = modem, cap_status = status\<rparr>)
      }
      else Some None)"

definition resetApplyDedupe :: "int \<Rightarrow> rc_state \<Rightarrow> rc_state option" where
  "resetApplyDedupe socketId st =
     (if socketId < 0 \<or> socketId \<ge> int SIM_COUNT then Some st
      else do {
        k \<leftarrow> array_index socketId;
        valid \<leftarrow> wr (sLastApplySessionValid st) k False;
        Some (st\<lparr>sLastApplySessionValid := valid\<rparr>)
      })"

definition shouldSendApplyUnsol :: "int \<Rightarrow> int \<Rightarrow> rc_state \<Rightarrow> (bool \<times> rc_state) option" where
  "shouldSendApplyUnsol socketId session st =
     (if socketId < 0 \<or> socketId \<ge> int SIM_COUNT then Some (False, st)
      else do {
        k \<leftarrow> array_index socketId;
        valid \<leftarrow> rd (sLastApplySessionValid st) k;
        last \<leftarrow> rd (sLastApplySession st) k;
        if \<not> valid \<or> last \<noteq> session then do {
          sessions \<leftarrow> wr (sLastApplySession st) k session;
          valids \<leftarrow> wr (sLastApplySessionValid st) k True;
          Some (True, st\<lparr>sLastApplySession := sessions, sLastApplySessionValid := valids\<rparr>)
        }
        else Some (False, st)
      })"

definition rejectRadioCapabilityRequest :: "token \<Rightarrow> ril_event list" where
  "rejectRadioCapabilityRequest t = [OnRequestComplete t RIL_E_INVALID_ARGUMENTS None]"

definition getRadioCapability :: "token \<Rightarrow> int \<Rightarrow> ril_event list option" where
  "getRadioCapability t socketId = do {
     response \<leftarrow> fillFixedRadioCapability socketId 0 RC_PHASE_CONFIGURED RC_STATUS_NONE;
     case response of None \<Rightarrow> Some (rejectRadioCapabilityRequest t)
     | Some cap \<Rightarrow> Some [OnRequestComplete t RIL_E_SUCCESS (Some cap)]
   }"

text \<open>\<open>data\<close> is the structure the pointer points to, read only when \<open>datalen\<close> is its size.\<close>

definition setRadioCapability ::
  "RIL_RadioCapability option \<Rightarrow> nat \<Rightarrow> token \<Rightarrow> int \<Rightarrow> rc_state \<Rightarrow> (rc_state \<times> ril_event list) option" where
  "setRadioCapability data datalen t socketId st =
     (case data of None \<Rightarrow> Some (st, rejectRadioCapabilityRequest t)
      | Some request \<Rightarrow>
        if datalen \<noteq> CAPABILITY_SIZE
           \<or> (cap_phase request \<noteq> RC_PHASE_START \<and> cap_phase request \<noteq> RC_PHASE_APPLY
              \<and> cap_phase request \<noteq> RC_PHASE_FINISH)
        then Some (st, rejectRadioCapabilityRequest t)
        else do {
          response \<leftarrow> fillFixedRadioCapability socketId (cap_session request) (cap_phase request) RC_STATUS_SUCCESS;
          case response of None \<Rightarrow> Some (st, rejectRadioCapabilityRequest t)
          | Some response \<Rightarrow> do {
              st \<leftarrow> (if cap_phase request = RC_PHASE_START then resetApplyDedupe socketId st else Some st);
              let response = response\<lparr>cap_status :=
                (if cap_phase request = RC_PHASE_FINISH then cap_status request else RC_STATUS_SUCCESS)\<rparr>;
              let complete = OnRequestComplete t RIL_E_SUCCESS (Some response);
              if cap_phase request \<noteq> RC_PHASE_APPLY then Some (st, [complete])
              else do {
                (send, st) \<leftarrow> shouldSendApplyUnsol socketId (cap_session request) st;
                if \<not> send then Some (st, [complete])
                else do {
                  unsol \<leftarrow> fillFixedRadioCapability socketId (cap_session request) RC_PHASE_UNSOL_RSP RC_STATUS_SUCCESS;
                  case unsol of None \<Rightarrow> Some (st, [complete])
                  | Some unsol \<Rightarrow> Some (st, [complete, OnUnsolRadioCapability unsol socketId])
                }
              }
            }
        })"

section \<open>The contract\<close>

text \<open>What the modem behind a socket can do, and the structure that says so.\<close>

definition native_raf :: "int \<Rightarrow> int" where
  "native_raf socketId = (if socketId = 0 then 0x1400a else 0x10008)"

definition native_uuid :: "int \<Rightarrow> bytes" where
  "native_uuid socketId = ascii (if socketId = 0 then ''modem_sys1_ps1'' else ''modem_sys1_ps2'') @ replicate 50 0"

definition native :: "int \<Rightarrow> int \<Rightarrow> rc_phase \<Rightarrow> rc_status \<Rightarrow> RIL_RadioCapability" where
  "native socketId session phase status = \<lparr>cap_version = RIL_RADIO_CAPABILITY_VERSION, cap_session = session,
     cap_phase = phase, cap_rat = native_raf socketId, cap_uuid = native_uuid socketId, cap_status = status\<rparr>"

definition wf_rc :: "rc_state \<Rightarrow> bool" where
  "wf_rc st \<longleftrightarrow> length (sLastApplySession st) = 2 \<and> length (sLastApplySessionValid st) = 2"

text \<open>The session whose indication is on record for a socket.\<close>

definition indicated :: "rc_state \<Rightarrow> int \<Rightarrow> int option" where
  "indicated st s = (if sLastApplySessionValid st ! nat s then Some (sLastApplySession st ! nat s) else None)"

definition socket_ok :: "int \<Rightarrow> bool" where
  "socket_ok s \<longleftrightarrow> s = 0 \<or> s = 1"

definition request_ok :: "RIL_RadioCapability option \<Rightarrow> nat \<Rightarrow> int \<Rightarrow> bool" where
  "request_ok data datalen s \<longleftrightarrow> (\<exists>q. data = Some q \<and> datalen = 84 \<and> socket_ok s
     \<and> cap_phase q \<in> {RC_PHASE_START, RC_PHASE_APPLY, RC_PHASE_FINISH})"

lemma fill_eq:
  "fillFixedRadioCapability s session phase status =
     Some (if socket_ok s then Some (native s session phase status) else None)"
proof -
  have blit: "blit (replicate 64 0) 0 (ascii u) = Some (ascii u @ replicate 50 0)" if "length u = 14" for u
    using that by (simp add: blit_def ascii_def)
  have str: "strlen (cstr u) = Some (length u)" "slice (cstr u) 0 (length u) = Some (ascii u)"
    if "0 \<notin> set (ascii u)" for u
    using that by (simp_all add: strlen_Some_iff cstr_def ascii_def)
  have z: "0 \<notin> set (ascii ''modem_sys1_ps1'')" "0 \<notin> set (ascii ''modem_sys1_ps2'')"
    by (simp_all add: ascii_def)
  show ?thesis
    using str [OF z(1)] str [OF z(2)] blit [of "''modem_sys1_ps1''"] blit [of "''modem_sys1_ps2''"]
    by (auto simp: fillFixedRadioCapability_def rc_const_defs socket_ok_def native_def native_raf_def native_uuid_def
        simp del: slice_in)
qed

lemma nat_socket: "socket_ok s \<Longrightarrow> nat s < 2 \<and> \<not> s < 0 \<and> \<not> int SIM_COUNT \<le> s"
  by (auto simp: socket_ok_def SIM_COUNT_def)

lemma socket_inj: "socket_ok s \<Longrightarrow> socket_ok s' \<Longrightarrow> nat s = nat s' \<longleftrightarrow> s = s'"
  by (auto simp: socket_ok_def)

lemma reset_eq:
  assumes "wf_rc st" "socket_ok s"
  obtains st' where "resetApplyDedupe s st = Some st'" "wf_rc st'"
    "\<And>s'. socket_ok s' \<Longrightarrow> indicated st' s' = (if s' = s then None else indicated st s')"
proof
  let ?st = "st\<lparr>sLastApplySessionValid := (sLastApplySessionValid st)[nat s := False]\<rparr>"
  show "resetApplyDedupe s st = Some ?st"
    using assms nat_socket [OF assms(2)] by (simp add: resetApplyDedupe_def wf_rc_def)
  show "wf_rc ?st" using assms by (simp add: wf_rc_def)
  show "indicated ?st s' = (if s' = s then None else indicated st s')" if "socket_ok s'" for s'
    using that assms socket_inj [OF that assms(2)] nat_socket [OF that]
    by (auto simp: indicated_def wf_rc_def nth_list_update)
qed

lemma should_send_eq:
  assumes "wf_rc st" "socket_ok s"
  obtains st' where "shouldSendApplyUnsol s session st = Some (indicated st s \<noteq> Some session, st')" "wf_rc st'"
    "\<And>s'. socket_ok s' \<Longrightarrow> indicated st' s' = (if s' = s then Some session else indicated st s')"
proof
  let ?st = "if indicated st s \<noteq> Some session then st\<lparr>sLastApplySession := (sLastApplySession st)[nat s := session],
     sLastApplySessionValid := (sLastApplySessionValid st)[nat s := True]\<rparr> else st"
  show "shouldSendApplyUnsol s session st = Some (indicated st s \<noteq> Some session, ?st)"
    using assms nat_socket [OF assms(2)] by (auto simp: shouldSendApplyUnsol_def wf_rc_def indicated_def)
  show "wf_rc ?st" using assms by (simp add: wf_rc_def)
  show "indicated ?st s' = (if s' = s then Some session else indicated st s')" if "socket_ok s'" for s'
    using that assms socket_inj [OF that assms(2)] nat_socket [OF that]
    by (auto simp: indicated_def wf_rc_def nth_list_update)
qed

text \<open>The indication a request causes, if any, and the record it leaves, in terms of the record before.\<close>

definition next_indicated :: "RIL_RadioCapability \<Rightarrow> int option \<Rightarrow> int option" where
  "next_indicated q r = (case cap_phase q of RC_PHASE_START \<Rightarrow> None | RC_PHASE_APPLY \<Rightarrow> Some (cap_session q) | _ \<Rightarrow> r)"

definition indications :: "RIL_RadioCapability \<Rightarrow> int \<Rightarrow> int option \<Rightarrow> ril_event list" where
  "indications q s r = (if cap_phase q = RC_PHASE_APPLY \<and> r \<noteq> Some (cap_session q)
     then [OnUnsolRadioCapability (native s (cap_session q) RC_PHASE_UNSOL_RSP RC_STATUS_SUCCESS) s] else [])"

definition answer_to :: "RIL_RadioCapability \<Rightarrow> int \<Rightarrow> RIL_RadioCapability" where
  "answer_to q s = native s (cap_session q) (cap_phase q)
     (if cap_phase q = RC_PHASE_FINISH then cap_status q else RC_STATUS_SUCCESS)"

lemma set_capability_ok:
  assumes wf: "wf_rc st" and ok: "request_ok (Some q) datalen s"
  obtains st' where "setRadioCapability (Some q) datalen t s st =
      Some (st', OnRequestComplete t RIL_E_SUCCESS (Some (answer_to q s)) # indications q s (indicated st s))" "wf_rc st'"
    "\<And>s'. socket_ok s' \<Longrightarrow> indicated st' s' = (if s' = s then next_indicated q (indicated st s) else indicated st s')"
proof -
  have s: "socket_ok s" and len: "datalen = CAPABILITY_SIZE" using ok by (auto simp: request_ok_def rc_const_defs)
  have nat_upd: "native s a p b\<lparr>cap_status := c\<rparr> = native s a p c" for a p b c by (simp add: native_def)
  consider "cap_phase q = RC_PHASE_START" | "cap_phase q = RC_PHASE_APPLY" | "cap_phase q = RC_PHASE_FINISH"
    using ok by (auto simp: request_ok_def)
  then show thesis
  proof cases
    case 1
    obtain st' where "resetApplyDedupe s st = Some st'" "wf_rc st'"
      "\<And>s'. socket_ok s' \<Longrightarrow> indicated st' s' = (if s' = s then None else indicated st s')"
      using reset_eq [OF wf s] by blast
    then show ?thesis using 1 s len that
      by (simp add: setRadioCapability_def fill_eq nat_upd answer_to_def indications_def next_indicated_def)
  next
    case 2
    obtain st' where "shouldSendApplyUnsol s (cap_session q) st = Some (indicated st s \<noteq> Some (cap_session q), st')" "wf_rc st'"
      "\<And>s'. socket_ok s' \<Longrightarrow> indicated st' s' = (if s' = s then Some (cap_session q) else indicated st s')"
      using should_send_eq [OF wf s] by blast
    then show ?thesis using 2 s len
      by (intro that [of st']) (simp_all add: setRadioCapability_def fill_eq nat_upd answer_to_def indications_def next_indicated_def Let_def)
  next
    case 3
    then show ?thesis using s len wf that
      by (simp add: setRadioCapability_def fill_eq nat_upd answer_to_def indications_def next_indicated_def)
  qed
qed

lemma set_capability_rejects:
  assumes "\<not> request_ok data datalen s"
  shows "setRadioCapability data datalen t s st = Some (st, [OnRequestComplete t RIL_E_INVALID_ARGUMENTS None])"
  using assms by (auto simp: setRadioCapability_def request_ok_def fill_eq rejectRadioCapabilityRequest_def
      rc_const_defs split: option.split)

lemma set_capability_total:
  assumes "wf_rc st"
  obtains st' evs where "setRadioCapability data datalen t s st = Some (st', evs)" "wf_rc st'"
proof (cases "request_ok data datalen s")
  case True
  then obtain q where q: "data = Some q" by (auto simp: request_ok_def)
  show ?thesis using set_capability_ok [OF assms True [unfolded q]] that q by metis
qed (use assms set_capability_rejects that in blast)

section \<open>Sequences of requests\<close>

type_synonym set_request = "RIL_RadioCapability option \<times> nat \<times> token \<times> int"

fun capability_run :: "rc_state \<Rightarrow> set_request list \<Rightarrow> (rc_state \<times> ril_event list) option" where
  "capability_run st [] = Some (st, [])"
| "capability_run st ((data, datalen, t, s) # qs) = do {
     (st, evs) \<leftarrow> setRadioCapability data datalen t s st;
     (st, rest) \<leftarrow> capability_run st qs;
     Some (st, evs @ rest)
   }"

text \<open>The accepted requests of one socket, and the indications it received.\<close>

fun accepted :: "int \<Rightarrow> set_request list \<Rightarrow> RIL_RadioCapability list" where
  "accepted s [] = []"
| "accepted s ((data, datalen, t, s') # qs) =
     (if s' = s \<and> request_ok data datalen s' then the data # accepted s qs else accepted s qs)"

fun indicated_to :: "int \<Rightarrow> ril_event \<Rightarrow> bool" where
  "indicated_to s (OnUnsolRadioCapability c s') = (s' = s)"
| "indicated_to s (OnRequestComplete t e c) = False"

fun socket_indications :: "int \<Rightarrow> RIL_RadioCapability list \<Rightarrow> int option \<Rightarrow> ril_event list" where
  "socket_indications s [] r = []"
| "socket_indications s (q # qs) r = indications q s r @ socket_indications s qs (next_indicated q r)"

lemma indications_to: "filter (indicated_to s') (indications q s r) = (if s' = s then indications q s r else [])"
  by (simp add: indications_def)

text \<open>The indications to a socket depend on its own accepted requests alone.\<close>

lemma capability_run_indications:
  assumes "wf_rc st" "socket_ok s"
  shows "\<exists>st' evs. capability_run st qs = Some (st', evs)
    \<and> filter (indicated_to s) evs = socket_indications s (accepted s qs) (indicated st s)"
  using assms(1)
proof (induction qs arbitrary: st)
  case (Cons x qs)
  obtain data datalen t s' where x: "x = (data, datalen, t, s')" by (metis prod_cases4)
  show ?case
  proof (cases "request_ok data datalen s'")
    case True
    then obtain q where q: "data = Some q" and s': "socket_ok s'" by (auto simp: request_ok_def)
    obtain st1 where st1: "setRadioCapability (Some q) datalen t s' st =
        Some (st1, OnRequestComplete t RIL_E_SUCCESS (Some (answer_to q s')) # indications q s' (indicated st s'))" "wf_rc st1"
      "\<And>u. socket_ok u \<Longrightarrow> indicated st1 u = (if u = s' then next_indicated q (indicated st s') else indicated st u)"
      using set_capability_ok [OF Cons.prems True [unfolded q]] by metis
    obtain st2 evs where "capability_run st1 qs = Some (st2, evs)"
      "filter (indicated_to s) evs = socket_indications s (accepted s qs) (indicated st1 s)"
      using Cons.IH [OF st1(2)] by blast
    then show ?thesis using True x q st1 assms(2) by (auto simp: indications_to)
  next
    case False
    obtain st2 evs where "capability_run st qs = Some (st2, evs)"
      "filter (indicated_to s) evs = socket_indications s (accepted s qs) (indicated st s)"
      using Cons.IH [OF Cons.prems] by blast
    then show ?thesis using False x set_capability_rejects [OF False] by auto
  qed
qed simp

text \<open>APPLY requests of one session and FINISH requests: only the first APPLY is indicated, if the session is new.\<close>

lemma repeat_indications:
  assumes "\<forall>q\<in>set qs. cap_phase q = RC_PHASE_APPLY \<and> cap_session q = session \<or> cap_phase q = RC_PHASE_FINISH"
  shows "socket_indications s qs (Some session) = []"
  using assms by (induction qs) (auto simp: indications_def next_indicated_def)

lemma transaction_indications:
  assumes "\<forall>q\<in>set qs. cap_phase q = RC_PHASE_APPLY \<and> cap_session q = session \<or> cap_phase q = RC_PHASE_FINISH"
  shows "socket_indications s qs None = (if \<exists>q\<in>set qs. cap_phase q = RC_PHASE_APPLY
    then [OnUnsolRadioCapability (native s session RC_PHASE_UNSOL_RSP RC_STATUS_SUCCESS) s] else [])"
  using assms
proof (induction qs)
  case (Cons q qs)
  then show ?case
    using repeat_indications [of qs session s]
    by (cases "cap_phase q = RC_PHASE_APPLY") (simp_all add: indications_def next_indicated_def)
qed simp

section \<open>Properties\<close>

text \<open>C28: Every radio-capability request is answered exactly once, by the shim itself. An acceptable SET
  is answered with the unchanged capability of the modem behind its socket, the request's session and
  phase, and the request's status for FINISH. An APPLY whose session is not on record is followed by
  one indication with that session; START clears the record. Anything else (no data, a wrong size, an
  unknown phase or socket) is refused with no further effect.\<close>

theorem set_capability_contract:
  assumes "wf_rc st"
  shows "\<exists>st' evs. setRadioCapability data datalen t s st = Some (st', evs) \<and> wf_rc st'
    \<and> (if request_ok data datalen s
       then evs = OnRequestComplete t RIL_E_SUCCESS (Some (answer_to (the data) s))
                    # indications (the data) s (indicated st s)
            \<and> indicated st' s = next_indicated (the data) (indicated st s)
       else evs = [OnRequestComplete t RIL_E_INVALID_ARGUMENTS None] \<and> st' = st)"
proof (cases "request_ok data datalen s")
  case True
  then obtain q where q: "data = Some q" and s: "socket_ok s" by (auto simp: request_ok_def)
  show ?thesis using set_capability_ok [OF assms True [unfolded q], of t] True s unfolding q
    by (metis option.sel)
qed (use assms set_capability_rejects in auto)

definition sample_set :: "rc_phase \<Rightarrow> RIL_RadioCapability" where
  "sample_set phase = \<lparr>cap_version = RIL_RADIO_CAPABILITY_VERSION, cap_session = 7, cap_phase = phase, cap_rat = 0x8005,
     cap_uuid = replicate 64 0, cap_status = RC_STATUS_NONE\<rparr>"

lemma wf_rc_state0: "wf_rc rc_state0"
  by (simp add: wf_rc_def rc_state0_def SIM_COUNT_def)

theorem set_capability_contract_witness:
  "\<exists>st'. setRadioCapability (Some (sample_set RC_PHASE_APPLY)) 84 5 1 rc_state0 =
     Some (st', [OnRequestComplete 5 RIL_E_SUCCESS (Some (native 1 7 RC_PHASE_APPLY RC_STATUS_SUCCESS)),
                 OnUnsolRadioCapability (native 1 7 RC_PHASE_UNSOL_RSP RC_STATUS_SUCCESS) 1])"
  using set_capability_contract [OF wf_rc_state0, of "Some (sample_set RC_PHASE_APPLY)" 84 5 1]
  by (auto simp: request_ok_def socket_ok_def sample_set_def answer_to_def indications_def indicated_def rc_state0_def SIM_COUNT_def)

text \<open>C29: The indications to a socket depend on the accepted requests of that socket alone: each accepted APPLY is
  indicated exactly when its session is not the one on record, the record being set by an APPLY and cleared by a START.
  So if the accepted requests of the socket are one START followed only by APPLY requests of one session, at least
  one, and FINISH requests, in any order, then exactly one indication reaches the socket, for that session. This is
  so whatever was indicated before, whatever is refused in between, and whatever runs on the other socket; an
  accepted APPLY of another session on the same socket is not covered, and would be indicated too.\<close>

theorem one_indication_per_transaction:
  assumes "wf_rc st" "socket_ok s"
  shows "\<exists>st' evs. capability_run st qs = Some (st', evs)
    \<and> filter (indicated_to s) evs = socket_indications s (accepted s qs) (indicated st s)
    \<and> (\<forall>start rest session. accepted s qs = start # rest \<and> cap_phase start = RC_PHASE_START
         \<and> (\<forall>q\<in>set rest. cap_phase q = RC_PHASE_APPLY \<and> cap_session q = session \<or> cap_phase q = RC_PHASE_FINISH)
         \<and> (\<exists>q\<in>set rest. cap_phase q = RC_PHASE_APPLY)
         \<longrightarrow> filter (indicated_to s) evs =
               [OnUnsolRadioCapability (native s session RC_PHASE_UNSOL_RSP RC_STATUS_SUCCESS) s])"
proof -
  obtain st' evs where run: "capability_run st qs = Some (st', evs)"
    "filter (indicated_to s) evs = socket_indications s (accepted s qs) (indicated st s)"
    using capability_run_indications [OF assms, of qs] by blast
  have "socket_indications s (start # rest) r =
      [OnUnsolRadioCapability (native s session RC_PHASE_UNSOL_RSP RC_STATUS_SUCCESS) s]"
    if "cap_phase start = RC_PHASE_START" "\<exists>q\<in>set rest. cap_phase q = RC_PHASE_APPLY"
      "\<forall>q\<in>set rest. cap_phase q = RC_PHASE_APPLY \<and> cap_session q = session \<or> cap_phase q = RC_PHASE_FINISH"
    for start rest session r
    using transaction_indications [OF that(3)] that(1,2) by (simp add: indications_def next_indicated_def)
  then show ?thesis using run by (intro exI [of _ st'] exI [of _ evs]) auto
qed

theorem one_indication_per_transaction_witness:
  "\<exists>st' evs. capability_run rc_state0
      [(Some (sample_set RC_PHASE_START), 84, 1, 0), (None, 84, 2, 0), (Some (sample_set RC_PHASE_APPLY), 84, 3, 1),
       (Some (sample_set RC_PHASE_APPLY), 84, 4, 0), (Some (sample_set RC_PHASE_APPLY), 84, 5, 0),
       (Some (sample_set RC_PHASE_FINISH), 84, 6, 0)] = Some (st', evs)
    \<and> filter (indicated_to 0) evs = [OnUnsolRadioCapability (native 0 7 RC_PHASE_UNSOL_RSP RC_STATUS_SUCCESS) 0]"
proof -
  let ?qs = "[(Some (sample_set RC_PHASE_START), 84, 1, 0), (None, 84, 2, 0), (Some (sample_set RC_PHASE_APPLY), 84, 3, 1),
       (Some (sample_set RC_PHASE_APPLY), 84, 4, 0), (Some (sample_set RC_PHASE_APPLY), 84, 5, 0),
       (Some (sample_set RC_PHASE_FINISH), 84, 6, 0)]"
  have "socket_ok 0" "accepted 0 ?qs = [sample_set RC_PHASE_START, sample_set RC_PHASE_APPLY, sample_set RC_PHASE_APPLY,
      sample_set RC_PHASE_FINISH]"
    by (simp_all add: request_ok_def socket_ok_def sample_set_def)
  then show ?thesis
    using one_indication_per_transaction [OF wf_rc_state0, of 0 ?qs] by (auto simp: sample_set_def)
qed

end
