(* ===== verification/Ril_Apn.thy ===== *)
theory Ril_Apn
  imports Ril_Capability
begin

text \<open>
  The cached initial-attach APN of \<open>ril-shim/k50sv1_ril_shim.c\<close>: the payload structure, its deep copy
  and release, and the cache with one entry per socket. The heap is explicit: a pointer is an address
  of a block, or \<^term>\<open>None\<close> for NULL; using an address that is not allocated, or bytes outside a block,
  has no result. What a block held when it was released is kept, since releasing does not erase it.
\<close>

section \<open>The heap\<close>

type_synonym ptr = "nat option"

text \<open>\<open>budget\<close> decides which of the coming allocations succeed; when it is used up they all fail.\<close>

record heap =
  live :: "nat \<Rightarrow> bytes option"
  fresh :: nat
  freed :: "(nat \<times> bytes) list"
  budget :: "bool list"

definition strdup :: "nat \<Rightarrow> heap \<Rightarrow> (ptr \<times> heap) option" where
  "strdup p h = do {
     b \<leftarrow> live h p;
     n \<leftarrow> strlen b;
     src \<leftarrow> slice b 0 (n + 1);
     (case budget h of True # rest \<Rightarrow>
        Some (Some (fresh h), h\<lparr>live := (live h)(fresh h \<mapsto> src), fresh := Suc (fresh h), budget := rest\<rparr>)
      | _ \<Rightarrow> Some (None, h\<lparr>budget := drop 1 (budget h)\<rparr>))
   }"

definition free :: "ptr \<Rightarrow> heap \<Rightarrow> heap option" where
  "free field h = (case field of None \<Rightarrow> Some h
     | Some p \<Rightarrow> do {
         b \<leftarrow> live h p;
         Some (h\<lparr>live := (live h)(p := None), freed := (p, b) # freed h\<rparr>)
       })"

section \<open>The payload\<close>

record MtkInitialAttachApn =
  ia_apn :: ptr
  ia_protocol :: ptr
  ia_roamingProtocol :: ptr
  ia_authtype :: int
  ia_username :: ptr
  ia_password :: ptr
  ia_supportedTypesBitmask :: int
  ia_bearerBitmask :: int
  ia_modemCognitive :: int
  ia_mtu :: int
  ia_mvnoType :: ptr
  ia_mvnoMatchData :: ptr
  ia_canHandleIms :: int

definition APN_SIZE :: nat where "APN_SIZE = 0x58"

definition zero_ia :: MtkInitialAttachApn where
  "zero_ia = \<lparr>ia_apn = None, ia_protocol = None, ia_roamingProtocol = None, ia_authtype = 0, ia_username = None,
     ia_password = None, ia_supportedTypesBitmask = 0, ia_bearerBitmask = 0, ia_modemCognitive = 0, ia_mtu = 0,
     ia_mvnoType = None, ia_mvnoMatchData = None, ia_canHandleIms = 0\<rparr>"

text \<open>The loop of \<open>secureZero\<close> at offset \<open>i\<close>.\<close>

function secureZero :: "bytes \<Rightarrow> nat \<Rightarrow> nat \<Rightarrow> bytes option" where
  "secureZero buffer i len =
     (if i < len then do { buffer \<leftarrow> wr buffer i 0; secureZero buffer (Suc i) len } else Some buffer)"
  by pat_completeness auto
termination
  by (relation "measure (\<lambda>(buffer, i, len). len - i)") auto

declare secureZero.simps [simp del]

definition freeSecret :: "ptr \<Rightarrow> heap \<Rightarrow> heap option" where
  "freeSecret field h = (case field of None \<Rightarrow> Some h
     | Some p \<Rightarrow> do {
         b \<leftarrow> live h p;
         n \<leftarrow> strlen b;
         b \<leftarrow> secureZero b 0 n;
         free (Some p) (h\<lparr>live := (live h)(p \<mapsto> b)\<rparr>)
       })"

definition freeIaStrings :: "MtkInitialAttachApn \<Rightarrow> heap \<Rightarrow> (MtkInitialAttachApn \<times> heap) option" where
  "freeIaStrings ia h = do {
     h \<leftarrow> free (ia_apn ia) h;
     h \<leftarrow> free (ia_protocol ia) h;
     h \<leftarrow> free (ia_roamingProtocol ia) h;
     h \<leftarrow> freeSecret (ia_username ia) h;
     h \<leftarrow> freeSecret (ia_password ia) h;
     h \<leftarrow> free (ia_mvnoType ia) h;
     h \<leftarrow> free (ia_mvnoMatchData ia) h;
     Some (zero_ia, h)
   }"

definition dupOrNull :: "ptr \<Rightarrow> bool \<Rightarrow> heap \<Rightarrow> (ptr \<times> bool \<times> heap) option" where
  "dupOrNull src ok h = (case src of None \<Rightarrow> Some (None, ok, h)
     | Some p \<Rightarrow> do {
         (copy, h) \<leftarrow> strdup p h;
         Some (copy, if copy = None then False else ok, h)
       })"

definition copyIa :: "MtkInitialAttachApn \<Rightarrow> heap \<Rightarrow> (bool \<times> MtkInitialAttachApn \<times> heap) option" where
  "copyIa src h = do {
     (apn, ok, h) \<leftarrow> dupOrNull (ia_apn src) True h;
     (protocol, ok, h) \<leftarrow> dupOrNull (ia_protocol src) ok h;
     (roaming, ok, h) \<leftarrow> dupOrNull (ia_roamingProtocol src) ok h;
     (username, ok, h) \<leftarrow> dupOrNull (ia_username src) ok h;
     (password, ok, h) \<leftarrow> dupOrNull (ia_password src) ok h;
     (mvnoType, ok, h) \<leftarrow> dupOrNull (ia_mvnoType src) ok h;
     (mvnoMatch, ok, h) \<leftarrow> dupOrNull (ia_mvnoMatchData src) ok h;
     let dst = src\<lparr>ia_apn := apn, ia_protocol := protocol, ia_roamingProtocol := roaming, ia_username := username,
                   ia_password := password, ia_mvnoType := mvnoType, ia_mvnoMatchData := mvnoMatch\<rparr>;
     if \<not> ok then do { (dst, h) \<leftarrow> freeIaStrings dst h; Some (False, dst, h) }
     else Some (True, dst, h)
   }"

record ia_cache =
  sIaCache :: "MtkInitialAttachApn list"
  sIaCached :: "bool list"

definition ia_cache0 :: ia_cache where
  "ia_cache0 = \<lparr>sIaCache = replicate SIM_COUNT zero_ia, sIaCached = replicate SIM_COUNT False\<rparr>"

definition cacheInitialAttachApn ::
  "int \<Rightarrow> MtkInitialAttachApn option \<Rightarrow> nat \<Rightarrow> ia_cache \<Rightarrow> heap \<Rightarrow> (ia_cache \<times> heap) option" where
  "cacheInitialAttachApn socketId data datalen st h =
     (if socketId < 0 \<or> socketId \<ge> int SIM_COUNT then Some (st, h)
      else case data of None \<Rightarrow> Some (st, h)
      | Some src \<Rightarrow>
        if datalen \<noteq> APN_SIZE then Some (st, h)
        else do {
          (ok, new, h) \<leftarrow> copyIa src h;
          if \<not> ok then Some (st, h)
          else do {
            k \<leftarrow> array_index socketId;
            cached \<leftarrow> rd (sIaCached st) k;
            h \<leftarrow> (if cached then do {
                   old \<leftarrow> rd (sIaCache st) k;
                   (old, h) \<leftarrow> freeIaStrings old h;
                   Some h
                 } else Some h);
            cache \<leftarrow> wr (sIaCache st) k new;
            flags \<leftarrow> wr (sIaCached st) k True;
            Some (st\<lparr>sIaCache := cache, sIaCached := flags\<rparr>, h)
          }
        })"

section \<open>The seven strings as a list\<close>

text \<open>
  Copying and releasing treat the string members one after the other; seen as a list of fields the
  two operations are folds, and their lemmas are inductions.
\<close>

definition strings :: "MtkInitialAttachApn \<Rightarrow> ptr list" where
  "strings ia = [ia_apn ia, ia_protocol ia, ia_roamingProtocol ia, ia_username ia, ia_password ia,
     ia_mvnoType ia, ia_mvnoMatchData ia]"

definition fields :: "MtkInitialAttachApn \<Rightarrow> (bool \<times> ptr) list" where
  "fields ia = zip [False, False, False, True, True, False, False] (strings ia)"

fun ptrs :: "ptr list \<Rightarrow> nat list" where
  "ptrs [] = []"
| "ptrs (None # fs) = ptrs fs"
| "ptrs (Some p # fs) = p # ptrs fs"

fun release :: "(bool \<times> ptr) list \<Rightarrow> heap \<Rightarrow> heap option" where
  "release [] h = Some h"
| "release ((secret, f) # fs) h = do { h \<leftarrow> (if secret then freeSecret f h else free f h); release fs h }"

fun dup_all :: "ptr list \<Rightarrow> bool \<Rightarrow> heap \<Rightarrow> (ptr list \<times> bool \<times> heap) option" where
  "dup_all [] ok h = Some ([], ok, h)"
| "dup_all (f # fs) ok h = do {
     (g, ok, h) \<leftarrow> dupOrNull f ok h;
     (gs, ok, h) \<leftarrow> dup_all fs ok h;
     Some (g # gs, ok, h)
   }"

definition with_strings :: "MtkInitialAttachApn \<Rightarrow> ptr list \<Rightarrow> MtkInitialAttachApn" where
  "with_strings ia gs = ia\<lparr>ia_apn := gs ! 0, ia_protocol := gs ! 1, ia_roamingProtocol := gs ! 2,
     ia_username := gs ! 3, ia_password := gs ! 4, ia_mvnoType := gs ! 5, ia_mvnoMatchData := gs ! 6\<rparr>"

lemma freeIaStrings_fold: "freeIaStrings ia h = map_option (\<lambda>h. (zero_ia, h)) (release (fields ia) h)"
  by (simp add: freeIaStrings_def fields_def strings_def map_conv_bind_option bind_assoc comp_def)

lemma copyIa_fold:
  "copyIa src h = do {
     (gs, ok, h) \<leftarrow> dup_all (strings src) True h;
     let dst = with_strings src gs;
     if \<not> ok then do { (dst, h) \<leftarrow> freeIaStrings dst h; Some (False, dst, h) }
     else Some (True, dst, h)
   }"
  unfolding copyIa_def strings_def
  by (simp add: with_strings_def split_def Let_def Option.bind_assoc eval_nat_numeral cong: if_cong)

section \<open>Ownership\<close>

text \<open>A block as \<open>strdup\<close> makes it holds one string and its terminator, nothing more.\<close>

definition exact :: "heap \<Rightarrow> nat \<Rightarrow> bool" where
  "exact h p \<longleftrightarrow> (\<exists>s. live h p = Some (s @ [0]) \<and> 0 \<notin> set s)"

definition readable :: "heap \<Rightarrow> nat \<Rightarrow> bool" where
  "readable h p \<longleftrightarrow> (\<exists>b. live h p = Some b \<and> 0 \<in> set b)"

definition heap_ok :: "heap \<Rightarrow> bool" where
  "heap_ok h \<longleftrightarrow> (\<forall>p. fresh h \<le> p \<longrightarrow> live h p = None)"

definition string_at :: "heap \<Rightarrow> ptr \<Rightarrow> bytes option" where
  "string_at h f = map_option (\<lambda>p. str_of (the (live h p))) f"

text \<open>What a payload means: its strings, where an absent one is not an empty one, and its integers.\<close>

type_synonym payload = "bytes option list \<times> int list"

definition payload_of :: "heap \<Rightarrow> MtkInitialAttachApn \<Rightarrow> payload" where
  "payload_of h ia = (map (string_at h) (strings ia),
     [ia_authtype ia, ia_supportedTypesBitmask ia, ia_bearerBitmask ia, ia_modemCognitive ia, ia_mtu ia,
      ia_canHandleIms ia])"

lemma exact_readable: "exact h p \<Longrightarrow> readable h p"
  by (auto simp: exact_def readable_def)

lemma exact_cong: "live h' p = live h p \<Longrightarrow> exact h' p = exact h p"
  by (simp add: exact_def)

lemma set_ptrs: "p \<in> set (ptrs fs) \<longleftrightarrow> Some p \<in> set fs"
  by (induction fs rule: ptrs.induct) auto

lemma secureZero_prefix:
  "i \<le> n \<Longrightarrow> n \<le> length b \<Longrightarrow> secureZero b i n = Some (take i b @ replicate (n - i) 0 @ drop n b)"
proof (induction b i n rule: secureZero.induct)
  case (1 b i n)
  show ?case
  proof (cases "i < n")
    case True
    then have "secureZero b i n = Some (take (Suc i) (b[i := 0]) @ replicate (n - Suc i) 0 @ drop n (b[i := 0]))"
      using 1 by (subst secureZero.simps) simp
    also have "take (Suc i) (b[i := 0]) = take i b @ [0]"
      using True 1 by (simp add: take_Suc_conv_app_nth)
    also have "drop n (b[i := 0]) = drop n b"
      using True by simp
    finally show ?thesis
      using True by (simp add: Suc_diff_Suc flip: replicate_Suc)
  next
    case False
    with 1 show ?thesis by (subst secureZero.simps) (simp add: order_antisym)
  qed
qed

lemma secureZero_exact: "secureZero (s @ [0]) 0 (length s) = Some (replicate (length s) 0 @ [0])"
  by (subst secureZero_prefix) auto

lemma strlen_exact: "0 \<notin> set s \<Longrightarrow> strlen (s @ [0]) = Some (length s)"
  by (simp add: strlen_Some_iff)

lemma free_one:
  assumes "exact h p"
  shows "\<exists>b. (if secret then freeSecret (Some p) h else free (Some p) h)
           = Some (h\<lparr>live := (live h)(p := None), freed := (p, b) # freed h\<rparr>) \<and> (secret \<longrightarrow> set b \<subseteq> {0})"
  using assms by (auto simp: exact_def freeSecret_def free_def strlen_exact secureZero_exact)

lemma release_all:
  assumes "distinct (ptrs (map snd fs))" "\<forall>p \<in> set (ptrs (map snd fs)). exact h p"
  shows "\<exists>new. release fs h = Some (h\<lparr>live := live h |` (- set (ptrs (map snd fs))), freed := new @ freed h\<rparr>)
      \<and> (\<forall>p b. (p, b) \<in> set new \<longrightarrow> p \<in> set (ptrs (map snd fs)) \<and> ((True, Some p) \<in> set fs \<longrightarrow> set b \<subseteq> {0}))"
  using assms
proof (induction fs h rule: release.induct)
  case (1 h)
  then show ?case by (intro exI [of _ "[]"]) simp
next
  case (2 secret f fs h)
  show ?case
  proof (cases f)
    case None
    with 2 have *: "(if secret then freeSecret f h else free f h) = Some h"
      by (simp add: freeSecret_def free_def)
    have "distinct (ptrs (map snd fs))" "\<forall>p \<in> set (ptrs (map snd fs)). exact h p"
      using 2(2,3) None by auto
    from 2(1) [OF * this] show ?thesis
      using * None by (auto simp: set_ptrs)
  next
    case (Some p)
    define k where "k b = h\<lparr>live := (live h)(p := None), freed := (p, b) # freed h\<rparr>" for b
    from 2(3) Some obtain b where
      *: "(if secret then freeSecret f h else free f h) = Some (k b)" and b: "secret \<longrightarrow> set b \<subseteq> {0}"
      unfolding k_def using free_one [of h p secret] by auto
    have p: "p \<notin> set (ptrs (map snd fs))" "(s, Some p) \<notin> set fs" for s
      using 2(2) Some by (auto simp: set_ptrs image_iff)
    then have "\<forall>q \<in> set (ptrs (map snd fs)). exact (k b) q"
      using 2(3) Some by (auto simp: k_def exact_def)
    then obtain new where
      "release fs (k b) = Some ((k b)\<lparr>live := live (k b) |` (- set (ptrs (map snd fs))), freed := new @ freed (k b)\<rparr>)"
      and new: "\<forall>p b. (p, b) \<in> set new \<longrightarrow> p \<in> set (ptrs (map snd fs)) \<and> ((True, Some p) \<in> set fs \<longrightarrow> set b \<subseteq> {0})"
      using 2(1) [OF *] 2(2) Some by auto
    moreover have "live (k b) |` (- set (ptrs (map snd fs))) = live h |` (- set (ptrs (map snd ((secret, f) # fs))))"
      using Some by (auto simp: k_def restrict_map_def fun_eq_iff)
    ultimately show ?thesis
      using * b new p Some by (intro exI [of _ "new @ [(p, b)]"]) (auto simp: k_def)
  qed
qed

text \<open>
  What a copy of a list of fields leaves: the new blocks are exact, distinct and new, every old block
  is as before, and unless an allocation failed the copies read as their sources.
\<close>

definition duplicated :: "ptr list \<Rightarrow> bool \<Rightarrow> heap \<Rightarrow> ptr list \<Rightarrow> bool \<Rightarrow> heap \<Rightarrow> bool" where
  "duplicated fs ok h gs ok' h' \<longleftrightarrow>
     length gs = length fs \<and> heap_ok h' \<and> fresh h \<le> fresh h' \<and> freed h' = freed h
     \<and> (\<forall>p < fresh h. live h' p = live h p)
     \<and> (\<forall>p \<ge> fresh h. live h' p \<noteq> None \<longleftrightarrow> p \<in> set (ptrs gs))
     \<and> distinct (ptrs gs) \<and> (\<forall>p \<in> set (ptrs gs). fresh h \<le> p \<and> p < fresh h' \<and> exact h' p)
     \<and> budget h' = drop (length (ptrs fs)) (budget h)
     \<and> ok' = (ok \<and> take (length (ptrs fs)) (budget h) = replicate (length (ptrs fs)) True)
     \<and> (ok' \<longrightarrow> map (string_at h') gs = map (string_at h) fs)"

lemma live_below: "heap_ok h \<Longrightarrow> live h p \<noteq> None \<Longrightarrow> p < fresh h"
  by (meson heap_ok_def not_le)

lemma strdup_spec:
  assumes "readable h p" "heap_ok h"
  defines "s \<equiv> str_of (the (live h p)) @ [0]"
  shows "strdup p h = Some (case budget h of True # rest \<Rightarrow>
      (Some (fresh h), h\<lparr>live := (live h)(fresh h \<mapsto> s), fresh := Suc (fresh h), budget := rest\<rparr>)
    | _ \<Rightarrow> (None, h\<lparr>budget := drop 1 (budget h)\<rparr>))"
proof -
  obtain b where b: "live h p = Some b" "0 \<in> set b"
    using assms(1) by (auto simp: readable_def)
  define k where "k = length (str_of b)"
  have k: "k < length b" using b(2) by (simp add: k_def str_of_less_iff)
  then have "take (Suc k) b = str_of b @ [0]"
    unfolding k_def by (simp add: take_Suc_conv_app_nth str_of_take nth_str_of)
  then show ?thesis
    using b k by (auto simp: strdup_def s_def strlen_Some_iff k_def [symmetric] slice_def Option.bind_eq_Some_conv
        split: list.split bool.split)
qed

lemma dupOrNull_spec:
  assumes "\<forall>p \<in> set (ptrs [f]). readable h p" "heap_ok h"
  shows "\<exists>g ok' h'. dupOrNull f ok h = Some (g, ok', h') \<and> duplicated [f] ok h [g] ok' h'"
proof (cases f)
  case None
  then show ?thesis
    using assms by (auto simp: dupOrNull_def duplicated_def heap_ok_def string_at_def)
next
  case (Some p)
  note p = strdup_spec [of h p]
  show ?thesis
  proof (cases "\<exists>rest. budget h = True # rest")
    case True
    then show ?thesis
      using assms p Some
      by (auto simp: dupOrNull_def duplicated_def heap_ok_def string_at_def exact_def)
  next
    case False
    then have "strdup p h = Some (None, h\<lparr>budget := drop 1 (budget h)\<rparr>)"
      using assms p Some by (auto split: list.splits bool.splits)
    moreover have "take 1 (budget h) \<noteq> [True]"
      using False by (cases "budget h") auto
    ultimately show ?thesis
      using assms Some by (auto simp: dupOrNull_def duplicated_def heap_ok_def)
  qed
qed

lemma same_below:
  assumes "\<forall>p < fresh h. live h' p = live h p" "heap_ok h" "\<forall>p \<in> set (ptrs fs). readable h p"
  shows "\<forall>p \<in> set (ptrs fs). readable h' p" and "map (string_at h') fs = map (string_at h) fs"
proof -
  have same: "live h' p = live h p" if "Some p \<in> set fs" for p
  proof -
    have "live h p \<noteq> None" using assms(3) that by (auto simp: set_ptrs readable_def)
    then show ?thesis using assms(1) live_below [OF assms(2)] by blast
  qed
  then show "\<forall>p \<in> set (ptrs fs). readable h' p"
    using assms(3) by (simp add: set_ptrs readable_def)
  show "map (string_at h') fs = map (string_at h) fs"
    using same by (auto simp: string_at_def intro!: option.map_cong)
qed

lemma take_replicate_add:
  "take (m + n) xs = replicate (m + n) a \<longleftrightarrow> take m xs = replicate m a \<and> take n (drop m xs) = replicate n a"
  (is "?all \<longleftrightarrow> ?both")
proof
  assume ?all
  from arg_cong [OF this, of "take m"] arg_cong [OF this, of "drop m"] show ?both
    by (simp add: min_def drop_take)
next
  assume ?both
  then show ?all by (simp add: take_add replicate_add)
qed

lemma ptrs_Cons: "ptrs (f # fs) = ptrs [f] @ ptrs fs"
  by (cases f) auto

lemma duplicated_Cons:
  assumes 1: "duplicated [f] ok h [g] ok1 h1" and 2: "duplicated fs ok1 h1 gs ok2 h2"
    and src: "\<forall>p \<in> set (ptrs (f # fs)). readable h p" and "heap_ok h"
  shows "duplicated (f # fs) ok h (g # gs) ok2 h2"
proof -
  note one = 1 [unfolded duplicated_def] and two = 2 [unfolded duplicated_def]
  have le: "fresh h \<le> fresh h1" "fresh h1 \<le> fresh h2"
    and old1: "\<forall>p < fresh h. live h1 p = live h p" and old2: "\<forall>p < fresh h1. live h2 p = live h1 p"
    and new1: "\<forall>p \<ge> fresh h. live h1 p \<noteq> None \<longleftrightarrow> p \<in> set (ptrs [g])"
    and new2: "\<forall>p \<ge> fresh h1. live h2 p \<noteq> None \<longleftrightarrow> p \<in> set (ptrs gs)"
    and g: "distinct (ptrs [g])" "\<forall>p \<in> set (ptrs [g]). fresh h \<le> p \<and> p < fresh h1 \<and> exact h1 p"
    and gs: "distinct (ptrs gs)" "\<forall>p \<in> set (ptrs gs). fresh h1 \<le> p \<and> p < fresh h2 \<and> exact h2 p"
    using one two by blast+
  have old: "\<forall>p < fresh h. live h2 p = live h p"
    using old1 old2 le by auto
  have new: "live h2 p \<noteq> None \<longleftrightarrow> p \<in> set (ptrs (g # gs))" if "fresh h \<le> p" for p
  proof (cases "p < fresh h1")
    case True
    then have "live h2 p = live h1 p" "p \<notin> set (ptrs gs)" using old2 gs(2) by auto
    then show ?thesis using new1 that by (simp only: ptrs_Cons [of g gs]) auto
  next
    case False
    then have "p \<notin> set (ptrs [g])" using g(2) by blast
    then show ?thesis using new2 False unfolding ptrs_Cons [of g gs] by auto
  qed
  have "exact h2 p" if "p \<in> set (ptrs [g])" for p
    using g(2) old2 that exact_cong [of h2 p h1] by blast
  moreover have "set (ptrs [g]) \<inter> set (ptrs gs) = {}"
    using g(2) gs(2) by fastforce
  ultimately have blocks: "distinct (ptrs (g # gs))"
    "\<forall>p \<in> set (ptrs (g # gs)). fresh h \<le> p \<and> p < fresh h2 \<and> exact h2 p"
    unfolding ptrs_Cons [of g gs] using g gs le by (auto intro: order_trans order_less_le_trans)
  have reads: "map (string_at h2) (g # gs) = map (string_at h) (f # fs)" if "ok2"
  proof -
    have "ok1" using that two by blast
    then have "string_at h1 g = string_at h f" using one by simp
    moreover have "map (string_at h2) [g] = map (string_at h1) [g]"
      using two one by (intro same_below(2)) (auto intro: exact_readable)
    moreover have "map (string_at h1) fs = map (string_at h) fs"
      using one src assms(4) by (intro same_below(2)) (auto simp: ptrs_Cons [of f fs])
    ultimately show ?thesis using two that by simp
  qed
  have lists: "budget h2 = drop (length (ptrs (f # fs))) (budget h)"
    "ok2 = (ok \<and> take (length (ptrs (f # fs))) (budget h) = replicate (length (ptrs (f # fs))) True)"
    using one two unfolding ptrs_Cons [of f fs] length_append take_replicate_add
    by (simp_all add: add.commute)
  have "length (g # gs) = length (f # fs)" "heap_ok h2" "fresh h \<le> fresh h2" "freed h2 = freed h"
    using one two by simp_all
  then show ?thesis
    unfolding duplicated_def using old new blocks lists reads by blast
qed

lemma dup_all_spec:
  assumes "\<forall>p \<in> set (ptrs fs). readable h p" "heap_ok h"
  shows "\<exists>gs ok' h'. dup_all fs ok h = Some (gs, ok', h') \<and> duplicated fs ok h gs ok' h'"
  using assms
proof (induction fs arbitrary: ok h)
  case Nil
  then show ?case by (auto simp: duplicated_def heap_ok_def)
next
  case (Cons f fs)
  obtain g ok1 h1 where 1: "dupOrNull f ok h = Some (g, ok1, h1)" "duplicated [f] ok h [g] ok1 h1"
    using dupOrNull_spec [of f h ok] Cons.prems by (cases f) auto
  have "\<forall>p \<in> set (ptrs fs). readable h1 p" "heap_ok h1"
    using 1(2) Cons.prems same_below(1) [of h h1 fs] by (auto simp: duplicated_def ptrs_Cons [of f fs])
  then obtain gs ok2 h2 where 2: "dup_all fs ok1 h1 = Some (gs, ok2, h2)" "duplicated fs ok1 h1 gs ok2 h2"
    using Cons.IH by blast
  then show ?case
    using 1 duplicated_Cons [OF 1(2) 2(2) Cons.prems] by auto
qed

section \<open>One payload\<close>

definition owned :: "MtkInitialAttachApn \<Rightarrow> nat list" where
  "owned ia = ptrs (strings ia)"

text \<open>The strings of a payload belong to it: blocks of its own, each exactly one string.\<close>

definition owner :: "heap \<Rightarrow> MtkInitialAttachApn \<Rightarrow> bool" where
  "owner h ia \<longleftrightarrow> distinct (owned ia) \<and> (\<forall>p \<in> set (owned ia). exact h p)"

definition credential :: "MtkInitialAttachApn \<Rightarrow> nat \<Rightarrow> bool" where
  "credential ia p \<longleftrightarrow> ia_username ia = Some p \<or> ia_password ia = Some p"

lemma owner_cong:
  assumes "\<And>p. p \<in> set (owned ia) \<Longrightarrow> live h' p = live h p"
  shows "owner h' ia = owner h ia" and "payload_of h' ia = payload_of h ia"
  using assms
  by (auto simp: owner_def exact_def payload_of_def string_at_def owned_def set_ptrs intro!: option.map_cong)

lemma fields_strings: "map snd (fields ia) = strings ia"
  by (simp add: fields_def strings_def)

lemma credential_fields: "credential ia p \<Longrightarrow> (True, Some p) \<in> set (fields ia)"
  by (auto simp: credential_def fields_def strings_def)

lemma owned_zero [simp]: "owned zero_ia = []"
  by (simp add: owned_def strings_def zero_ia_def)

lemma strings_with_strings:
  assumes "length gs = length (strings ia)" shows "strings (with_strings ia gs) = gs"
proof -
  have "length gs = 7" using assms by (simp add: strings_def)
  then have "gs = [gs ! 0, gs ! 1, gs ! 2, gs ! 3, gs ! 4, gs ! 5, gs ! 6]"
    by (simp add: list_eq_iff_nth_eq nth_Cons' eval_nat_numeral less_Suc_eq)
  then show ?thesis by (simp add: strings_def with_strings_def)
qed

lemma freeIaStrings_spec:
  assumes "owner h ia"
  shows "\<exists>new. freeIaStrings ia h = Some (zero_ia, h\<lparr>live := live h |` (- set (owned ia)), freed := new @ freed h\<rparr>)
      \<and> (\<forall>p b. (p, b) \<in> set new \<longrightarrow> p \<in> set (owned ia) \<and> (credential ia p \<longrightarrow> set b \<subseteq> {0}))"
  using assms release_all [of "fields ia" h]
  by (fastforce simp: owner_def owned_def fields_strings freeIaStrings_fold dest: credential_fields)

text \<open>What \<open>copyIa\<close> leaves, with or without memory.\<close>

lemma copyIa_spec:
  fixes src :: MtkInitialAttachApn and h :: heap
  assumes src: "\<forall>p \<in> set (owned src). readable h p" and h: "heap_ok h"
  defines "n \<equiv> length (owned src)"
  defines "ok \<equiv> take n (budget h) = replicate n True"
  shows "\<exists>dst h'. copyIa src h = Some (ok, dst, h') \<and> heap_ok h' \<and> owner h' dst \<and> budget h' = drop n (budget h)
    \<and> (\<forall>p < fresh h. live h' p = live h p) \<and> (\<forall>p \<ge> fresh h. live h' p \<noteq> None \<longleftrightarrow> p \<in> set (owned dst))
    \<and> (\<forall>p \<in> set (owned dst). fresh h \<le> p)
    \<and> (if ok then payload_of h' dst = payload_of h src else dst = zero_ia)"
proof -
  obtain gs ok' h1 where 1: "dup_all (strings src) True h = Some (gs, ok', h1)"
    and d: "duplicated (strings src) True h gs ok' h1"
    using dup_all_spec [of "strings src" h True] src h by (auto simp: owned_def)
  have ok: "ok' = ok" and len: "length gs = length (strings src)" and h1: "heap_ok h1"
    and bud: "budget h1 = drop n (budget h)" and old: "\<forall>p < fresh h. live h1 p = live h p"
    and new: "\<forall>p \<ge> fresh h. live h1 p \<noteq> None \<longleftrightarrow> p \<in> set (ptrs gs)"
    and gs: "distinct (ptrs gs)" "\<forall>p \<in> set (ptrs gs). fresh h \<le> p \<and> p < fresh h1 \<and> exact h1 p"
    and reads: "ok' \<longrightarrow> map (string_at h1) gs = map (string_at h) (strings src)"
    using d by (auto simp: duplicated_def ok_def n_def owned_def)
  define dst where "dst = with_strings src gs"
  have own: "owned dst = ptrs gs" by (simp add: owned_def dst_def strings_with_strings [OF len])
  then have owner: "owner h1 dst" using gs by (simp add: owner_def)
  show ?thesis
  proof (cases ok)
    case True
    then have "payload_of h1 dst = payload_of h src"
      using reads ok by (simp add: payload_of_def dst_def strings_with_strings [OF len]) (simp add: with_strings_def)
    then show ?thesis
      using 1 ok True owner own h1 bud old new gs
      by (intro exI [of _ dst] exI [of _ h1]) (simp add: copyIa_fold dst_def)
  next
    case False
    obtain released where f: "freeIaStrings dst h1 =
        Some (zero_ia, h1\<lparr>live := live h1 |` (- set (owned dst)), freed := released @ freed h1\<rparr>)"
      using freeIaStrings_spec [OF owner] by blast
    define h2 where "h2 = h1\<lparr>live := live h1 |` (- set (owned dst)), freed := released @ freed h1\<rparr>"
    have "live h2 p = live h p" if "p < fresh h" for p
      using gs(2) old own that by (auto simp: h2_def restrict_map_def)
    moreover have "live h2 p = None" if "fresh h \<le> p" for p
      using new own that by (auto simp: h2_def restrict_map_def)
    moreover have "heap_ok h2"
      using h1 by (auto simp: h2_def heap_ok_def restrict_map_def)
    moreover have "copyIa src h = Some (False, zero_ia, h2)" "budget h2 = drop n (budget h)"
      using 1 ok False f bud by (simp_all add: copyIa_fold dst_def [symmetric] h2_def)
    ultimately show ?thesis
      using False by (intro exI [of _ zero_ia] exI [of _ h2]) (simp add: owner_def)
  qed
qed

section \<open>The cache\<close>

definition slot :: "ia_cache \<Rightarrow> nat \<Rightarrow> nat list" where
  "slot st i = (if sIaCached st ! i then owned (sIaCache st ! i) else [])"

definition cached_ptrs :: "ia_cache \<Rightarrow> nat list" where
  "cached_ptrs st = concat (map (slot st) [0..<SIM_COUNT])"

definition cache_inv :: "ia_cache \<Rightarrow> heap \<Rightarrow> bool" where
  "cache_inv st h \<longleftrightarrow> length (sIaCache st) = SIM_COUNT \<and> length (sIaCached st) = SIM_COUNT \<and> heap_ok h
     \<and> distinct (cached_ptrs st) \<and> (\<forall>p \<in> set (cached_ptrs st). exact h p)"

lemma cached_ptrs_two: "cached_ptrs st = slot st 0 @ slot st 1"
  by (simp add: cached_ptrs_def SIM_COUNT_def upt_rec)

lemma cache_inv_init: "heap_ok h \<Longrightarrow> cache_inv ia_cache0 h"
  by (simp add: cache_inv_def ia_cache0_def cached_ptrs_two slot_def SIM_COUNT_def nth_Cons')

lemma slot_owner: "cache_inv st h \<Longrightarrow> i < SIM_COUNT \<Longrightarrow> sIaCached st ! i \<Longrightarrow> owner h (sIaCache st ! i)"
  by (auto simp: cache_inv_def cached_ptrs_def owner_def slot_def distinct_concat_iff)

text \<open>
  The two outcomes of caching. Publishing exchanges the blocks of one slot for new ones; everything
  else on the heap stays.
\<close>

definition published :: "nat \<Rightarrow> MtkInitialAttachApn \<Rightarrow> ia_cache \<Rightarrow> heap \<Rightarrow> ia_cache \<Rightarrow> heap \<Rightarrow> bool" where
  "published i src st h st' h' \<longleftrightarrow> (\<exists>new.
     st' = st\<lparr>sIaCache := (sIaCache st)[i := new], sIaCached := (sIaCached st)[i := True]\<rparr>
     \<and> heap_ok h' \<and> owner h' new \<and> (\<forall>p \<in> set (owned new). fresh h \<le> p)
     \<and> (\<forall>p. p \<notin> set (owned new) \<longrightarrow> live h' p = (if p \<in> set (slot st i) then None else live h p))
     \<and> payload_of h' new = payload_of h src)"

definition kept_out :: "ia_cache \<Rightarrow> heap \<Rightarrow> ia_cache \<Rightarrow> heap \<Rightarrow> bool" where
  "kept_out st h st' h' \<longleftrightarrow> st' = st \<and> heap_ok h' \<and> live h' = live h"

lemma cache_outcome:
  fixes src :: MtkInitialAttachApn
  assumes inv: "cache_inv st h" and src: "\<forall>p \<in> set (owned src). readable h p"
    and s: "0 \<le> socketId" "socketId < int SIM_COUNT"
  shows "\<exists>st' h'. cacheInitialAttachApn socketId (Some src) APN_SIZE st h = Some (st', h')
    \<and> (if take (length (owned src)) (budget h) = replicate (length (owned src)) True
       then published (nat socketId) src st h st' h' else kept_out st h st' h')"
proof -
  define i where "i = nat socketId"
  define ok where "ok \<longleftrightarrow> take (length (owned src)) (budget h) = replicate (length (owned src)) True"
  have i: "i < SIM_COUNT" "i < length (sIaCache st)" "i < length (sIaCached st)" and h: "heap_ok h"
    using s inv by (auto simp: i_def cache_inv_def)
  obtain dst h1 where copy: "copyIa src h = Some (ok, dst, h1)" and h1: "heap_ok h1" "owner h1 dst"
    and old: "\<forall>p < fresh h. live h1 p = live h p"
    and new: "\<forall>p \<ge> fresh h. live h1 p \<noteq> None \<longleftrightarrow> p \<in> set (owned dst)"
    and dst: "\<forall>p \<in> set (owned dst). fresh h \<le> p"
    and reads: "if ok then payload_of h1 dst = payload_of h src else dst = zero_ia"
    using copyIa_spec [OF src h] by (fold ok_def) blast
  have rest: "live h1 p = live h p" if "p \<notin> set (owned dst)" for p
    using old new h that by (metis heap_ok_def not_le)
  have step: "cacheInitialAttachApn socketId (Some src) APN_SIZE st h = (if \<not> ok then Some (st, h1) else do {
      h \<leftarrow> (if sIaCached st ! i then do { (old, h) \<leftarrow> freeIaStrings (sIaCache st ! i) h1; Some h } else Some h1);
      Some (st\<lparr>sIaCache := (sIaCache st)[i := dst], sIaCached := (sIaCached st)[i := True]\<rparr>, h) })"
    using s copy i by (simp add: cacheInitialAttachApn_def i_def [symmetric])
  have "live h1 = live h" if "\<not> ok"
    using rest reads that by (intro ext) simp
  moreover have "\<exists>st' h'. cacheInitialAttachApn socketId (Some src) APN_SIZE st h = Some (st', h')
      \<and> published i src st h st' h'" if "ok" "\<not> sIaCached st ! i"
    using step that h1 dst rest reads by (auto simp: published_def slot_def)
  moreover have "\<exists>st' h'. cacheInitialAttachApn socketId (Some src) APN_SIZE st h = Some (st', h')
      \<and> published i src st h st' h'" if "ok" "sIaCached st ! i"
  proof -
    have o: "owner h (sIaCache st ! i)" using slot_owner inv i that by blast
    then have below: "p < fresh h" if "p \<in> set (owned (sIaCache st ! i))" for p
      using that h live_below [of h p] by (auto simp: owner_def exact_def)
    then have "owner h1 (sIaCache st ! i)"
      using o old owner_cong(1) [of "sIaCache st ! i" h1 h] by blast
    then obtain released where f: "freeIaStrings (sIaCache st ! i) h1 = Some (zero_ia,
        h1\<lparr>live := live h1 |` (- set (owned (sIaCache st ! i))), freed := released @ freed h1\<rparr>)" (is "_ = Some (_, ?h2)")
      using freeIaStrings_spec by blast
    have apart: "p \<notin> set (owned (sIaCache st ! i))" if "p \<in> set (owned dst)" for p
      using below dst that by fastforce
    then have same: "live ?h2 p = live h1 p" if "p \<in> set (owned dst)" for p
      using that by (simp add: restrict_map_def)
    have "owner ?h2 dst" "payload_of ?h2 dst = payload_of h src"
      using owner_cong [of dst ?h2 h1, OF same] h1(2) reads \<open>ok\<close> by simp_all
    moreover have "heap_ok ?h2" using h1(1) by (auto simp: heap_ok_def restrict_map_def)
    ultimately show ?thesis
      using step that f dst rest by (auto simp: published_def slot_def restrict_map_def)
  qed
  ultimately show ?thesis
    using step h1(1) unfolding ok_def [symmetric] i_def [symmetric] by (cases ok) (auto simp: kept_out_def)
qed

lemma cacheInitialAttachApn_cases:
  assumes "cache_inv st h" "\<forall>src. data = Some src \<longrightarrow> (\<forall>p \<in> set (owned src). readable h p)"
  obtains (published) src st' h' where "cacheInitialAttachApn socketId data datalen st h = Some (st', h')"
      "data = Some src" "nat socketId < SIM_COUNT" "published (nat socketId) src st h st' h'"
  | (kept) st' h' where "cacheInitialAttachApn socketId data datalen st h = Some (st', h')" "kept_out st h st' h'"
proof (cases "0 \<le> socketId \<and> socketId < int SIM_COUNT \<and> data \<noteq> None \<and> datalen = APN_SIZE")
  case True
  then obtain src where data: "data = Some src" and s: "0 \<le> socketId" "socketId < int SIM_COUNT"
    and n: "datalen = APN_SIZE" by auto
  have "nat socketId < SIM_COUNT" using s by linarith
  then show ?thesis
    using cache_outcome [OF assms(1) _ s, of src] assms(2) data n published kept by (metis (full_types))
next
  case False
  then have "cacheInitialAttachApn socketId data datalen st h = Some (st, h)"
    by (auto simp: cacheInitialAttachApn_def split: option.split)
  then show ?thesis using kept assms(1) by (auto simp: kept_out_def cache_inv_def)
qed

lemma kept_out_inv: "cache_inv st h \<Longrightarrow> kept_out st h st' h' \<Longrightarrow> cache_inv st' h'"
  by (auto simp: kept_out_def cache_inv_def exact_def)

lemma published_inv:
  assumes inv: "cache_inv st h" and pub: "published i src st h st' h'" and i: "i < SIM_COUNT"
  shows "cache_inv st' h'"
    and "\<And>p. p \<notin> set (cached_ptrs st') \<Longrightarrow> live h' p = (if p \<in> set (cached_ptrs st) then None else live h p)"
    and "\<And>p. p \<in> set (cached_ptrs st') \<Longrightarrow> p \<notin> set (cached_ptrs st) \<Longrightarrow> live h p = None"
    and "\<And>j. j < SIM_COUNT \<Longrightarrow> j \<noteq> i \<Longrightarrow> sIaCached st ! j \<Longrightarrow>
           payload_of h' (sIaCache st' ! j) = payload_of h (sIaCache st ! j)"
proof -
  obtain new where st': "st' = st\<lparr>sIaCache := (sIaCache st)[i := new], sIaCached := (sIaCached st)[i := True]\<rparr>"
    and h': "heap_ok h'" "owner h' new" and new: "\<And>p. p \<in> set (owned new) \<Longrightarrow> fresh h \<le> p"
    and live: "\<And>p. p \<notin> set (owned new) \<Longrightarrow> live h' p = (if p \<in> set (slot st i) then None else live h p)"
    using pub unfolding published_def by blast
  have len: "i < length (sIaCache st)" "i < length (sIaCached st)" and h: "heap_ok h"
    using inv i by (auto simp: cache_inv_def)
  have "slot st' i = owned new" "\<And>j. j \<noteq> i \<Longrightarrow> slot st' j = slot st j"
    using len by (auto simp: slot_def st')
  moreover have below: "p < fresh h" if "p \<in> set (cached_ptrs st)" for p
    using inv that live_below [of h p] by (auto simp: cache_inv_def exact_def)
  moreover have "i = 0 \<or> i = 1" using i by (auto simp: SIM_COUNT_def)
  ultimately have split: "\<exists>k. k \<noteq> i \<and> k < SIM_COUNT \<and> set (cached_ptrs st) = set (slot st i) \<union> set (slot st k)
      \<and> set (cached_ptrs st') = set (owned new) \<union> set (slot st k) \<and> set (slot st i) \<inter> set (slot st k) = {}
      \<and> (distinct (cached_ptrs st') \<longleftrightarrow> distinct (owned new) \<and> distinct (slot st k) \<and> set (owned new) \<inter> set (slot st k) = {})
      \<and> distinct (slot st k)"
    using inv by (auto simp: cached_ptrs_two cache_inv_def SIM_COUNT_def intro!: exI [of _ "1 - i"])
  then obtain k where k: "k \<noteq> i" "k < SIM_COUNT" "set (cached_ptrs st) = set (slot st i) \<union> set (slot st k)"
    "set (cached_ptrs st') = set (owned new) \<union> set (slot st k)" "set (slot st i) \<inter> set (slot st k) = {}"
    "distinct (cached_ptrs st') \<longleftrightarrow> distinct (owned new) \<and> distinct (slot st k) \<and> set (owned new) \<inter> set (slot st k) = {}"
    "distinct (slot st k)" by blast
  have apart: "set (owned new) \<inter> set (cached_ptrs st) = {}"
    using new below by fastforce
  have stays: "live h' p = live h p" if "p \<in> set (slot st k)" for p
  proof -
    have "p \<notin> set (owned new)" "p \<notin> set (slot st i)" using that k(3,5) apart by blast+
    then show ?thesis using live by simp
  qed
  show "cache_inv st' h'"
    using inv h' k apart stays by (auto simp: cache_inv_def owner_def exact_def st')
  show "live h' p = (if p \<in> set (cached_ptrs st) then None else live h p)" if "p \<notin> set (cached_ptrs st')" for p
    using that live [of p] k(3,4) by auto
  show "live h p = None" if "p \<in> set (cached_ptrs st')" "p \<notin> set (cached_ptrs st)" for p
    using that new [of p] k(3,4) h by (auto simp: heap_ok_def)
  show "payload_of h' (sIaCache st' ! j) = payload_of h (sIaCache st ! j)"
    if "j < SIM_COUNT" "j \<noteq> i" "sIaCached st ! j" for j
  proof -
    have "j = k" using that k(1,2) i by (auto simp: SIM_COUNT_def)
    then show ?thesis
      using that stays owner_cong(2) [of "sIaCache st ! j" h' h] by (simp add: st' slot_def)
  qed
qed

text \<open>C7: whatever arrives in a SET_INITIAL_ATTACH_APN request and whichever allocations fail, caching it uses
  only allocated memory and releases each block once. Afterwards the cache again owns each of its blocks
  alone; a block it gave up is released, a block it gained is new, and every other block of the process is
  as before: nothing leaks and nothing of the caller is touched.\<close>

theorem cache_ownership:
  assumes "cache_inv st h" "\<forall>src. data = Some src \<longrightarrow> (\<forall>p \<in> set (owned src). readable h p)"
  shows "\<exists>st' h'. cacheInitialAttachApn socketId data datalen st h = Some (st', h') \<and> cache_inv st' h'
    \<and> (\<forall>p. p \<notin> set (cached_ptrs st') \<longrightarrow> live h' p = (if p \<in> set (cached_ptrs st) then None else live h p))
    \<and> (\<forall>p. p \<in> set (cached_ptrs st') \<and> p \<notin> set (cached_ptrs st) \<longrightarrow> live h p = None)"
proof (rule cacheInitialAttachApn_cases [OF assms, of socketId datalen], goal_cases published kept)
  case (published src st' h')
  then show ?thesis using published_inv [OF assms(1) published(4,3)] by auto
next
  case (kept st' h')
  moreover have "exact h p" if "p \<in> set (cached_ptrs st)" for p
    using assms(1) that by (simp add: cache_inv_def)
  ultimately show ?thesis using kept_out_inv [OF assms(1) kept(2)] by (auto simp: kept_out_def)
qed

definition sample_heap :: heap where
  "sample_heap = \<lparr>live = (\<lambda>p. if p = 0 then Some (cstr ''internet'') else if p = 1 then Some (cstr ''user'')
     else if p = 2 then Some (cstr ''secret'') else None), fresh = 3, freed = [], budget = [True, True, True]\<rparr>"

definition sample_ia :: MtkInitialAttachApn where
  "sample_ia = zero_ia\<lparr>ia_apn := Some 0, ia_authtype := 3, ia_username := Some 1, ia_password := Some 2\<rparr>"

lemma sample_ok:
  "heap_ok sample_heap" "owned sample_ia = [0, 1, 2]" "\<forall>p \<in> set (owned sample_ia). readable sample_heap p"
  "owner sample_heap sample_ia" "cache_inv ia_cache0 sample_heap" "budget sample_heap = replicate 3 True"
proof -
  show h: "heap_ok sample_heap" and o: "owned sample_ia = [0, 1, 2]" and "budget sample_heap = replicate 3 True"
    by (auto simp: sample_heap_def heap_ok_def sample_ia_def owned_def strings_def zero_ia_def eval_nat_numeral)
  show "owner sample_heap sample_ia"
    unfolding owner_def o by (auto simp: sample_heap_def exact_def cstr_def ascii_def)
  then show "\<forall>p \<in> set (owned sample_ia). readable sample_heap p"
    using exact_readable by (auto simp: owner_def)
  show "cache_inv ia_cache0 sample_heap" using h by (rule cache_inv_init)
qed

theorem cache_ownership_witness:
  "\<exists>st' h'. cacheInitialAttachApn 1 (Some sample_ia) APN_SIZE ia_cache0 sample_heap = Some (st', h') \<and> cache_inv st' h'"
  using cache_ownership [of ia_cache0 sample_heap "Some sample_ia" 1 APN_SIZE] sample_ok by blast

text \<open>C30: a payload of the right size for a slot of this device, copied while memory lasts, is afterwards the
  cached one of that slot and reads exactly as it arrived: every string, an absent one staying absent, and
  every integer. When an allocation fails, the cache is as before. The other slots keep their payloads
  either way.\<close>

theorem cache_roundtrip:
  assumes "cache_inv st h" "\<forall>p \<in> set (owned src). readable h p" "i < SIM_COUNT"
  shows "\<exists>st' h'. cacheInitialAttachApn (int i) (Some src) APN_SIZE st h = Some (st', h')
    \<and> (if take (length (owned src)) (budget h) = replicate (length (owned src)) True
       then sIaCached st' ! i \<and> payload_of h' (sIaCache st' ! i) = payload_of h src else st' = st)
    \<and> (\<forall>j < SIM_COUNT. j \<noteq> i \<longrightarrow> sIaCached st' ! j = sIaCached st ! j
         \<and> (sIaCached st ! j \<longrightarrow> payload_of h' (sIaCache st' ! j) = payload_of h (sIaCache st ! j)))"
proof -
  obtain st' h' where r: "cacheInitialAttachApn (int i) (Some src) APN_SIZE st h = Some (st', h')"
    and o: "if take (length (owned src)) (budget h) = replicate (length (owned src)) True
       then published i src st h st' h' else kept_out st h st' h'"
    using cache_outcome [OF assms(1,2), of "int i", OF of_nat_0_le_iff iffD2 [OF of_nat_less_iff assms(3)]]
    unfolding nat_int by blast
  have len: "length (sIaCache st) = SIM_COUNT" "length (sIaCached st) = SIM_COUNT"
    using assms(1) by (auto simp: cache_inv_def)
  have "sIaCached st' ! i \<and> payload_of h' (sIaCache st' ! i) = payload_of h src
      \<and> (\<forall>j < SIM_COUNT. j \<noteq> i \<longrightarrow> sIaCached st' ! j = sIaCached st ! j)" if "published i src st h st' h'"
    using that len assms(3) by (auto simp: published_def)
  moreover have "payload_of h' ia = payload_of h ia" if "kept_out st h st' h'" for ia
    using that by (intro owner_cong(2)) (simp add: kept_out_def)
  ultimately show ?thesis
    using r o published_inv(4) [OF assms(1) _ assms(3), of src st' h']
    by (intro exI [of _ st'] exI [of _ h']) (auto simp: kept_out_def split: if_splits)
qed

theorem cache_roundtrip_witness:
  "\<exists>st' h'. cacheInitialAttachApn (int 1) (Some sample_ia) APN_SIZE ia_cache0 sample_heap = Some (st', h')
    \<and> sIaCached st' ! 1 \<and> payload_of h' (sIaCache st' ! 1)
        = ([Some (ascii ''internet''), None, None, Some (ascii ''user''), Some (ascii ''secret''), None, None], [3, 0, 0, 0, 0, 0])"
proof -
  have "take (length (owned sample_ia)) (budget sample_heap) = replicate (length (owned sample_ia)) True"
    using sample_ok by (simp add: eval_nat_numeral)
  moreover have "payload_of sample_heap sample_ia =
      ([Some (ascii ''internet''), None, None, Some (ascii ''user''), Some (ascii ''secret''), None, None], [3, 0, 0, 0, 0, 0])"
    by (simp add: payload_of_def strings_def string_at_def sample_ia_def zero_ia_def sample_heap_def cstr_def ascii_def str_of_def)
  ultimately show ?thesis
    using cache_roundtrip [of ia_cache0 sample_heap sample_ia 1] sample_ok by (auto simp: SIM_COUNT_def)
qed

text \<open>C31: releasing a payload frees each of its strings exactly once and no other block, and leaves it empty.
  When the block of a user name or of a password goes back to the allocator, all its bytes are zero.\<close>

theorem credentials_cleared:
  assumes "owner h ia"
  shows "\<exists>h' new. freeIaStrings ia h = Some (zero_ia, h') \<and> live h' = live h |` (- set (owned ia))
    \<and> freed h' = new @ freed h \<and> (\<forall>p b. (p, b) \<in> set new \<and> credential ia p \<longrightarrow> set b \<subseteq> {0})"
  using freeIaStrings_spec [OF assms] by fastforce

theorem credentials_cleared_witness:
  "\<exists>h' new. freeIaStrings sample_ia sample_heap = Some (zero_ia, h') \<and> freed h' = new @ []
    \<and> (\<forall>p b. (p, b) \<in> set new \<and> credential sample_ia p \<longrightarrow> set b \<subseteq> {0})"
  using credentials_cleared [OF sample_ok(4)] by (auto simp: sample_heap_def)

end
