(* ===== verification/Ril_Attach.thy ===== *)
theory Ril_Attach
  imports Ril_Apn "HOL-Library.Signed_Division"
begin

text \<open>
  Re-sending the initial-attach APN (part 2 of \<open>ril-shim/k50sv1_ril_shim.c\<close>): the two hooks, the worker
  thread and the state they share under \<open>sIaLock\<close>. A hook is a function on the shared state; a pass of the
  worker, from where it takes the lock to where it waits or lets the lock go, is another. Readings of the
  monotonic clock are arguments, \<^term>\<open>None\<close> for a failed call. Times are in nanoseconds.
\<close>

section \<open>Time\<close>

record timespec =
  tv_sec :: int
  tv_nsec :: int

definition REISSUE_MIN_INTERVAL_NS :: int where "REISSUE_MIN_INTERVAL_NS = 1000 * 1000 * 1000"
definition REISSUE_INFLIGHT_TIMEOUT_NS :: int where "REISSUE_INFLIGHT_TIMEOUT_NS = 10 * 1000 * 1000 * 1000"
definition RIL_UNSOL_RESET_ATTACH_APN :: int where "RIL_UNSOL_RESET_ATTACH_APN = 3020"
definition REISSUE_TOKEN_SLOTS :: nat where "REISSUE_TOKEN_SLOTS = 16"
definition TOKEN_SIZE :: nat where "TOKEN_SIZE = 64"

definition timespecToNs :: "timespec \<Rightarrow> int" where
  "timespecToNs t = tv_sec t * 1000000000 + tv_nsec t"

definition nsToTimespec :: "int \<Rightarrow> timespec" where
  "nsToTimespec ns = \<lparr>tv_sec = ns sdiv 1000000000, tv_nsec = ns smod 1000000000\<rparr>"

section \<open>Shared state\<close>

datatype IaHookState = IA_HOOKS_DISABLED | IA_HOOKS_INSTALLING | IA_HOOKS_ACTIVE | IA_HOOKS_FAILED

record ia_state =
  ia_store :: ia_cache
  sIaPending :: "bool list"
  sIaRequestInFlight :: bool
  sIaInFlightDeadlineNs :: int
  sIaCurrentTokenIndex :: nat
  sIaTokenOutstanding :: "bool list"
  sIaLastIssueValid :: bool
  sIaLastIssue :: timespec
  sIaNextSocket :: nat
  sIaHookState :: IaHookState
  sRealOnUnsol :: u64
  sRealOnComplete :: u64

definition ia_state0 :: ia_state where
  "ia_state0 = \<lparr>ia_store = ia_cache0, sIaPending = replicate SIM_COUNT False, sIaRequestInFlight = False,
     sIaInFlightDeadlineNs = 0, sIaCurrentTokenIndex = 0,
     sIaTokenOutstanding = replicate REISSUE_TOKEN_SLOTS False, sIaLastIssueValid = False,
     sIaLastIssue = \<lparr>tv_sec = 0, tv_nsec = 0\<rparr>, sIaNextSocket = 0, sIaHookState = IA_HOOKS_DISABLED,
     sRealOnUnsol = 0, sRealOnComplete = 0\<rparr>"

text \<open>What the hooks do beside changing the state; a function pointer is an address, 0 for NULL.\<close>

datatype ia_effect =
    SignalWake
  | CallComplete u64 token int u64 u64
  | CallUnsol u64 int u64 u64 int

section \<open>Tokens\<close>

text \<open>\<open>pool\<close> is the address of \<open>sReissueTokens\<close>.\<close>

definition REISSUE_TOKEN_AT :: "u64 \<Rightarrow> nat \<Rightarrow> token" where
  "REISSUE_TOKEN_AT pool i = pool + of_nat (TOKEN_SIZE * (i mod REISSUE_TOKEN_SLOTS))"

function isReissueToken_from :: "u64 \<Rightarrow> token \<Rightarrow> nat \<Rightarrow> bool" where
  "isReissueToken_from pool t i =
     (if i < REISSUE_TOKEN_SLOTS then
        if t = pool + of_nat (TOKEN_SIZE * i) then True else isReissueToken_from pool t (Suc i)
      else False)"
  by pat_completeness auto
termination
  by (relation "measure (\<lambda>(pool, t, i). REISSUE_TOKEN_SLOTS - i)") auto

declare isReissueToken_from.simps [simp del]

definition isReissueToken :: "u64 \<Rightarrow> token \<Rightarrow> bool" where
  "isReissueToken pool t = isReissueToken_from pool t 0"

section \<open>Hooks\<close>

definition attachApnHooksActive :: "ia_state \<Rightarrow> bool" where
  "attachApnHooksActive st \<longleftrightarrow> sIaHookState st = IA_HOOKS_ACTIVE"

definition completeHook ::
  "u64 \<Rightarrow> token \<Rightarrow> int \<Rightarrow> u64 \<Rightarrow> u64 \<Rightarrow> ia_state \<Rightarrow> (ia_effect list \<times> ia_state) option" where
  "completeHook pool t e response responselen st =
     (if isReissueToken pool t then do {
        let index = unat (t - pool) div TOKEN_SIZE;
        outstanding \<leftarrow> rd (sIaTokenOutstanding st) index;
        let current = (outstanding \<and> sIaRequestInFlight st \<and> index = sIaCurrentTokenIndex st);
        flags \<leftarrow> wr (sIaTokenOutstanding st) index False;
        let st = st\<lparr>sIaTokenOutstanding := flags\<rparr>;
        Some (if current then ([SignalWake], st\<lparr>sIaRequestInFlight := False, sIaInFlightDeadlineNs := 0\<rparr>)
              else ([], st))
      }
      else if sRealOnComplete st = 0 then Some ([], st)
      else Some ([CallComplete (sRealOnComplete st) t e response responselen], st))"

definition unsolHook ::
  "int \<Rightarrow> u64 \<Rightarrow> u64 \<Rightarrow> int \<Rightarrow> ia_state \<Rightarrow> (ia_effect list \<times> ia_state) option" where
  "unsolHook unsolResponse data datalen socketId st = do {
     (wake, st) \<leftarrow>
       (if attachApnHooksActive st \<and> unsolResponse = RIL_UNSOL_RESET_ATTACH_APN
           \<and> socketId \<ge> 0 \<and> socketId < int SIM_COUNT then do {
          k \<leftarrow> array_index socketId;
          cached \<leftarrow> rd (sIaCached (ia_store st)) k;
          if cached then do {
            pending \<leftarrow> wr (sIaPending st) k True;
            Some ([SignalWake], st\<lparr>sIaPending := pending\<rparr>)
          }
          else Some ([], st)
        }
        else Some ([], st));
     if sRealOnUnsol st = 0 then Some (wake, st)
     else Some (wake @ [CallUnsol (sRealOnUnsol st) unsolResponse data datalen socketId], st)
   }"

section \<open>Worker\<close>

text \<open>Where the worker is between two critical sections.\<close>

datatype ia_pc =
    Enter
  | CondWait
  | CondTimedWait timespec
  | RelativeSleep
  | SleepUntil int
  | Issue MtkInitialAttachApn nat nat

text \<open>The scan for a socket with work, from offset \<open>offset\<close> on.\<close>

function pick_socket :: "ia_state \<Rightarrow> nat \<Rightarrow> nat option option" where
  "pick_socket st offset =
     (if offset < SIM_COUNT then do {
        let i = (sIaNextSocket st + offset) mod SIM_COUNT;
        pending \<leftarrow> rd (sIaPending st) i;
        cached \<leftarrow> rd (sIaCached (ia_store st)) i;
        if pending \<and> cached then Some (Some i) else pick_socket st (Suc offset)
      }
      else Some None)"
  by pat_completeness auto
termination
  by (relation "measure (\<lambda>(st, offset). SIM_COUNT - offset)") auto

declare pick_socket.simps [simp del]

text \<open>The search for a free token, from offset \<open>offset\<close> on.\<close>

function pick_token :: "ia_state \<Rightarrow> nat \<Rightarrow> nat option option" where
  "pick_token st offset =
     (if offset \<le> REISSUE_TOKEN_SLOTS then do {
        let index = (sIaCurrentTokenIndex st + offset) mod REISSUE_TOKEN_SLOTS;
        outstanding \<leftarrow> rd (sIaTokenOutstanding st) index;
        if \<not> outstanding then Some (Some index) else pick_token st (Suc offset)
      }
      else Some None)"
  by pat_completeness auto
termination
  by (relation "measure (\<lambda>(st, offset). Suc REISSUE_TOKEN_SLOTS - offset)") auto

declare pick_token.simps [simp del]

text \<open>Charging an attempt to the rate limiter; a failed reading leaves the time as it was.\<close>

definition charge :: "timespec option \<Rightarrow> ia_state \<Rightarrow> ia_state" where
  "charge now st = (case now of Some t \<Rightarrow> st\<lparr>sIaLastIssue := t, sIaLastIssueValid := True\<rparr>
     | None \<Rightarrow> st\<lparr>sIaLastIssueValid := False\<rparr>)"

text \<open>The rest of a pass once \<open>socketId\<close> is due, up to the unlock.\<close>

definition issue_pass ::
  "nat \<Rightarrow> timespec option \<Rightarrow> timespec option \<Rightarrow> ia_state \<Rightarrow> heap \<Rightarrow> (ia_pc \<times> ia_state \<times> heap) option" where
  "issue_pass socketId issuedAt lastIssue st h = do {
     tokenIndex \<leftarrow> pick_token st 1;
     case tokenIndex of None \<Rightarrow> do {
       pending \<leftarrow> wr (sIaPending st) socketId False;
       Some (Enter, charge lastIssue (st\<lparr>sIaPending := pending\<rparr>), h)
     }
     | Some tokenIndex \<Rightarrow> do {
       src \<leftarrow> rd (sIaCache (ia_store st)) socketId;
       (ok, outgoing, h) \<leftarrow> copyIa src h;
       if \<not> ok then Some (Enter, charge lastIssue st, h)
       else do {
         pending \<leftarrow> wr (sIaPending st) socketId False;
         flags \<leftarrow> wr (sIaTokenOutstanding st) tokenIndex True;
         let st = st\<lparr>sIaPending := pending, sIaRequestInFlight := True, sIaCurrentTokenIndex := tokenIndex,
                     sIaTokenOutstanding := flags,
                     sIaInFlightDeadlineNs := (case issuedAt of
                        Some t \<Rightarrow> timespecToNs t + REISSUE_INFLIGHT_TIMEOUT_NS | None \<Rightarrow> 0),
                     sIaNextSocket := (socketId + 1) mod SIM_COUNT\<rparr>;
         Some (Issue outgoing tokenIndex socketId, charge lastIssue st, h)
       }
     }
   }"

text \<open>
  The decision on a due socket: sleep when the clock failed or the interval is not over, go on
  otherwise.
\<close>

definition due_pass ::
  "nat \<Rightarrow> timespec option \<Rightarrow> timespec option \<Rightarrow> timespec option \<Rightarrow> ia_state \<Rightarrow> heap
     \<Rightarrow> (ia_pc \<times> ia_state \<times> heap) option" where
  "due_pass socketId now issuedAt lastIssue st h =
     (let relativeSleep = (now = None);
          waitUntilNs = (case now of None \<Rightarrow> 0 | Some now \<Rightarrow>
            if sIaLastIssueValid st then
              (let earliest = timespecToNs (sIaLastIssue st) + REISSUE_MIN_INTERVAL_NS; nowNs = timespecToNs now in
               if earliest > nowNs then earliest else 0)
            else 0)
      in if relativeSleep \<or> waitUntilNs \<noteq> 0
         then Some (if relativeSleep then RelativeSleep else SleepUntil waitUntilNs, st, h)
         else issue_pass socketId issuedAt lastIssue st h)"

text \<open>The inner loop from its head, with the lock held, until the worker waits or lets the lock go.\<close>

function worker_head ::
  "timespec option \<Rightarrow> timespec option \<Rightarrow> timespec option \<Rightarrow> ia_state \<Rightarrow> heap \<Rightarrow> (ia_pc \<times> ia_state \<times> heap) option" where
  "worker_head now issuedAt lastIssue st h = do {
     socketId \<leftarrow> (if \<not> sIaRequestInFlight st then pick_socket st 0 else Some None);
     case socketId of Some i \<Rightarrow> due_pass i now issuedAt lastIssue st h
     | None \<Rightarrow>
         if sIaRequestInFlight st then
           if sIaInFlightDeadlineNs st = 0
           then worker_head now issuedAt lastIssue (st\<lparr>sIaRequestInFlight := False\<rparr>) h
           else Some (CondTimedWait (nsToTimespec (sIaInFlightDeadlineNs st)), st, h)
         else Some (CondWait, st, h)
   }"
  by pat_completeness auto
termination
  by (relation "measure (\<lambda>(now, issuedAt, lastIssue, st, h). if sIaRequestInFlight st then 1 else 0)") auto

declare worker_head.simps [simp del]

text \<open>The rest of the inner loop's body once the timed wait has returned.\<close>

definition worker_timed ::
  "timespec option \<Rightarrow> timespec option \<Rightarrow> timespec option \<Rightarrow> timespec option \<Rightarrow> ia_state \<Rightarrow> heap
     \<Rightarrow> (ia_pc \<times> ia_state \<times> heap) option" where
  "worker_timed afterWait now issuedAt lastIssue st h =
     (let released = st\<lparr>sIaRequestInFlight := False, sIaInFlightDeadlineNs := 0\<rparr>;
          st = (if \<not> sIaRequestInFlight st then st
                else case afterWait of None \<Rightarrow> released
                | Some t \<Rightarrow> if timespecToNs t \<ge> sIaInFlightDeadlineNs st then released else st)
      in worker_head now issuedAt lastIssue st h)"

text \<open>
  One run of the worker from where it stands to its next stop. Sending is a step of its own, since the
  vendor library is called without the lock: its result is the payload handed over, with token and socket.
\<close>

definition worker_resume ::
  "timespec option \<Rightarrow> timespec option \<Rightarrow> timespec option \<Rightarrow> timespec option \<Rightarrow> ia_pc \<Rightarrow> ia_state \<Rightarrow> heap
     \<Rightarrow> (ia_pc \<times> ia_state \<times> heap) option" where
  "worker_resume afterWait now issuedAt lastIssue pc st h = (case pc of
       Enter \<Rightarrow> worker_head now issuedAt lastIssue st h
     | CondWait \<Rightarrow> worker_head now issuedAt lastIssue st h
     | CondTimedWait _ \<Rightarrow> worker_timed afterWait now issuedAt lastIssue st h
     | RelativeSleep \<Rightarrow> Some (Enter, st, h)
     | SleepUntil _ \<Rightarrow> Some (Enter, st, h)
     | Issue outgoing tokenIndex socketId \<Rightarrow> do {
         (outgoing, h) \<leftarrow> freeIaStrings outgoing h;
         Some (Enter, st, h)
       })"

section \<open>Searches and tokens\<close>

definition attach_shape :: "ia_state \<Rightarrow> bool" where
  "attach_shape st \<longleftrightarrow> length (sIaPending st) = SIM_COUNT \<and> length (sIaCache (ia_store st)) = SIM_COUNT
     \<and> length (sIaCached (ia_store st)) = SIM_COUNT \<and> length (sIaTokenOutstanding st) = REISSUE_TOKEN_SLOTS
     \<and> sIaNextSocket st < SIM_COUNT \<and> sIaCurrentTokenIndex st < REISSUE_TOKEN_SLOTS"

definition workable :: "ia_state \<Rightarrow> nat \<Rightarrow> bool" where
  "workable st i \<longleftrightarrow> i < SIM_COUNT \<and> sIaPending st ! i \<and> sIaCached (ia_store st) ! i"

lemma sim_count_pos [simp]: "0 < SIM_COUNT" and token_slots_pos [simp]: "0 < REISSUE_TOKEN_SLOTS"
  by (simp_all add: SIM_COUNT_def REISSUE_TOKEN_SLOTS_def)

text \<open>A cyclic search over a whole round meets every index below the modulus.\<close>

lemma cyclic_cover:
  fixes n :: nat
  assumes "i < n" shows "\<exists>d < n. (a + d) mod n = i"
proof -
  have "(a + (i + n - a mod n) mod n) mod n = (a mod n + (i + n - a mod n)) mod n"
    by (metis mod_add_left_eq mod_add_right_eq)
  also have "a mod n + (i + n - a mod n) = i + n"
    using assms mod_less_divisor [of n a] by (intro le_add_diff_inverse) linarith
  finally show ?thesis using assms by (intro exI [of _ "(i + n - a mod n) mod n"]) simp
qed

lemma cyclic_cover_Suc:
  fixes n :: nat
  assumes "i < n" shows "\<exists>d \<in> {1..<Suc n}. (a + d) mod n = i"
proof -
  obtain d where "d < n" "(Suc a + d) mod n = i" using cyclic_cover [OF assms] by blast
  then show ?thesis by (intro bexI [of _ "Suc d"]) auto
qed

text \<open>The two loops are searches for the first match.\<close>

lemma pick_socket_find:
  "attach_shape st \<Longrightarrow> pick_socket st k
     = Some (find (workable st) (map (\<lambda>d. (sIaNextSocket st + d) mod SIM_COUNT) [k..<SIM_COUNT]))"
proof (induction st k rule: pick_socket.induct)
  case (1 st k)
  define i where "i = (sIaNextSocket st + k) mod SIM_COUNT"
  have i: "i < SIM_COUNT" "i < length (sIaPending st)" "i < length (sIaCached (ia_store st))"
    using 1(2) by (auto simp: attach_shape_def i_def)
  show ?case
  proof (cases "k < SIM_COUNT")
    case True
    then have "pick_socket st k = (if workable st i then Some (Some i) else pick_socket st (Suc k))"
      using i by (subst pick_socket.simps) (simp add: workable_def Let_def i_def [symmetric])
    moreover have "pick_socket st (Suc k)
        = Some (find (workable st) (map (\<lambda>d. (sIaNextSocket st + d) mod SIM_COUNT) [Suc k..<SIM_COUNT]))"
      if "\<not> workable st i"
      using 1(1) [OF True refl _ _ _ 1(2)] i that by (simp add: workable_def [of st i] i_def [symmetric])
    ultimately show ?thesis
      using True by (simp add: upt_conv_Cons [OF True] i_def [symmetric])
  next
    case False
    then show ?thesis by (subst pick_socket.simps) simp
  qed
qed

lemma pick_token_find:
  "attach_shape st \<Longrightarrow> pick_token st k = Some (find (\<lambda>i. \<not> sIaTokenOutstanding st ! i)
     (map (\<lambda>d. (sIaCurrentTokenIndex st + d) mod REISSUE_TOKEN_SLOTS) [k..<Suc REISSUE_TOKEN_SLOTS]))"
proof (induction st k rule: pick_token.induct)
  case (1 st k)
  define i where "i = (sIaCurrentTokenIndex st + k) mod REISSUE_TOKEN_SLOTS"
  have i: "i < length (sIaTokenOutstanding st)"
    using 1(2) by (auto simp: attach_shape_def i_def)
  show ?case
  proof (cases "k \<le> REISSUE_TOKEN_SLOTS")
    case True
    then have *: "k < Suc REISSUE_TOKEN_SLOTS" by simp
    have "pick_token st k = (if \<not> sIaTokenOutstanding st ! i then Some (Some i) else pick_token st (Suc k))"
      using i True by (subst pick_token.simps) (simp add: Let_def i_def [symmetric])
    moreover have "pick_token st (Suc k) = Some (find (\<lambda>i. \<not> sIaTokenOutstanding st ! i)
        (map (\<lambda>d. (sIaCurrentTokenIndex st + d) mod REISSUE_TOKEN_SLOTS) [Suc k..<Suc REISSUE_TOKEN_SLOTS]))"
      if "sIaTokenOutstanding st ! i"
      using 1(1) [OF True refl _ _ 1(2)] i that by (simp add: i_def [symmetric] del: upt_Suc)
    ultimately show ?thesis
      using True by (simp add: upt_conv_Cons [OF *] i_def [symmetric] del: upt_Suc)
  next
    case False
    then show ?thesis by (subst pick_token.simps) simp
  qed
qed

lemma find_spec: "case find P xs of Some k \<Rightarrow> k \<in> set xs \<and> P k | None \<Rightarrow> \<forall>k \<in> set xs. \<not> P k"
  by (induction xs) (auto split: option.splits)

lemma pick_socket_spec:
  assumes "attach_shape st"
  shows "\<exists>r. pick_socket st 0 = Some r \<and> (case r of Some i \<Rightarrow> workable st i | None \<Rightarrow> \<forall>i. \<not> workable st i)"
proof -
  define js where "js = map (\<lambda>d. (sIaNextSocket st + d) mod SIM_COUNT) [0..<SIM_COUNT]"
  have "i \<in> set js" if "workable st i" for i
    using that cyclic_cover [of i SIM_COUNT "sIaNextSocket st"] by (auto simp: js_def workable_def)
  then show ?thesis
    using pick_socket_find [OF assms, of 0] find_spec [of js "workable st"] unfolding js_def [symmetric]
    by (auto split: option.splits)
qed

lemma pick_token_spec:
  assumes "attach_shape st"
  shows "\<exists>r. pick_token st 1 = Some r \<and> (case r of
      Some k \<Rightarrow> k < REISSUE_TOKEN_SLOTS \<and> \<not> sIaTokenOutstanding st ! k
    | None \<Rightarrow> \<forall>k < REISSUE_TOKEN_SLOTS. sIaTokenOutstanding st ! k)"
proof -
  define js where "js = map (\<lambda>d. (sIaCurrentTokenIndex st + d) mod REISSUE_TOKEN_SLOTS) [1..<Suc REISSUE_TOKEN_SLOTS]"
  have "k \<in> set js \<longleftrightarrow> k < REISSUE_TOKEN_SLOTS" for k
    unfolding js_def set_map set_upt using cyclic_cover_Suc [of k _ "sIaCurrentTokenIndex st"] by auto
  then show ?thesis
    using pick_token_find [OF assms, of 1] find_spec [of js "\<lambda>i. \<not> sIaTokenOutstanding st ! i"]
    unfolding js_def [symmetric] by (auto split: option.splits)
qed

text \<open>The address of a token determines its index.\<close>

lemma unat_token_offset: "i < REISSUE_TOKEN_SLOTS \<Longrightarrow> unat (of_nat (TOKEN_SIZE * i) :: u64) = TOKEN_SIZE * i"
  by (subst unat_of_nat) (simp add: TOKEN_SIZE_def REISSUE_TOKEN_SLOTS_def)

lemma isReissueToken_from_iff:
  "isReissueToken_from pool t k \<longleftrightarrow> (\<exists>i \<in> set [k..<REISSUE_TOKEN_SLOTS]. t = pool + of_nat (TOKEN_SIZE * i))"
proof (induction pool t k rule: isReissueToken_from.induct)
  case (1 pool t k)
  show ?case
  proof (cases "k < REISSUE_TOKEN_SLOTS")
    case True
    then have "set [k..<REISSUE_TOKEN_SLOTS] = insert k (set [Suc k..<REISSUE_TOKEN_SLOTS])"
      by (simp add: upt_rec [of k])
    then show ?thesis using 1 [OF True] True by (subst isReissueToken_from.simps) auto
  next
    case False
    then show ?thesis by (subst isReissueToken_from.simps) auto
  qed
qed

lemma isReissueToken_iff: "isReissueToken pool t \<longleftrightarrow> (\<exists>i < REISSUE_TOKEN_SLOTS. t = REISSUE_TOKEN_AT pool i)"
  by (auto simp: isReissueToken_def isReissueToken_from_iff REISSUE_TOKEN_AT_def)

lemma token_index:
  assumes "i < REISSUE_TOKEN_SLOTS" shows "unat (REISSUE_TOKEN_AT pool i - pool) div TOKEN_SIZE = i"
proof -
  have "REISSUE_TOKEN_AT pool i - pool = of_nat (TOKEN_SIZE * i)"
    using assms by (simp add: REISSUE_TOKEN_AT_def)
  then have "unat (REISSUE_TOKEN_AT pool i - pool) = TOKEN_SIZE * i"
    using unat_token_offset [OF assms] by simp
  then show ?thesis by (simp add: TOKEN_SIZE_def)
qed

section \<open>What one pass can do\<close>

definition due :: "timespec option \<Rightarrow> ia_state \<Rightarrow> bool" where
  "due now st \<longleftrightarrow> (\<exists>t. now = Some t \<and> (sIaLastIssueValid st \<longrightarrow>
     timespecToNs (sIaLastIssue st) + REISSUE_MIN_INTERVAL_NS \<le> timespecToNs t
     \<or> timespecToNs (sIaLastIssue st) + REISSUE_MIN_INTERVAL_NS = 0))"

text \<open>
  The ends of a pass that starts its scan in \<open>st\<close>: it waits, sleeps, gives up for want of a token or of
  memory, or leaves with a payload to send.
\<close>

inductive pass :: "timespec option \<Rightarrow> timespec option \<Rightarrow> timespec option \<Rightarrow> ia_state \<Rightarrow> heap
    \<Rightarrow> ia_pc \<Rightarrow> ia_state \<Rightarrow> heap \<Rightarrow> bool"
  for now issuedAt lastIssue st h where
  pass_idle: "\<not> sIaRequestInFlight st \<Longrightarrow> \<forall>i. \<not> workable st i \<Longrightarrow> pass now issuedAt lastIssue st h CondWait st h"
| pass_busy: "sIaRequestInFlight st \<Longrightarrow> sIaInFlightDeadlineNs st \<noteq> 0 \<Longrightarrow>
    pass now issuedAt lastIssue st h (CondTimedWait (nsToTimespec (sIaInFlightDeadlineNs st))) st h"
| pass_blind: "\<not> sIaRequestInFlight st \<Longrightarrow> now = None \<Longrightarrow> pass now issuedAt lastIssue st h RelativeSleep st h"
| pass_early: "\<not> sIaRequestInFlight st \<Longrightarrow> pass now issuedAt lastIssue st h (SleepUntil ns) st h"
| pass_no_token: "\<not> sIaRequestInFlight st \<Longrightarrow> due now st \<Longrightarrow> workable st i \<Longrightarrow>
    \<forall>k < REISSUE_TOKEN_SLOTS. sIaTokenOutstanding st ! k \<Longrightarrow>
    pass now issuedAt lastIssue st h Enter (charge lastIssue (st\<lparr>sIaPending := (sIaPending st)[i := False]\<rparr>)) h"
| pass_no_memory: "\<not> sIaRequestInFlight st \<Longrightarrow> due now st \<Longrightarrow> heap_ok h' \<Longrightarrow> live h' = live h \<Longrightarrow>
    pass now issuedAt lastIssue st h Enter (charge lastIssue st) h'"
| pass_issue: "\<not> sIaRequestInFlight st \<Longrightarrow> due now st \<Longrightarrow> workable st i \<Longrightarrow> k < REISSUE_TOKEN_SLOTS \<Longrightarrow>
    \<not> sIaTokenOutstanding st ! k \<Longrightarrow> heap_ok h' \<Longrightarrow> owner h' outgoing \<Longrightarrow>
    \<forall>p < fresh h. live h' p = live h p \<Longrightarrow> \<forall>p \<in> set (owned outgoing). fresh h \<le> p \<Longrightarrow>
    payload_of h' outgoing = payload_of h (sIaCache (ia_store st) ! i) \<Longrightarrow>
    pass now issuedAt lastIssue st h (Issue outgoing k i)
      (charge lastIssue (st\<lparr>sIaPending := (sIaPending st)[i := False], sIaRequestInFlight := True,
         sIaCurrentTokenIndex := k, sIaTokenOutstanding := (sIaTokenOutstanding st)[k := True],
         sIaInFlightDeadlineNs := (case issuedAt of
            Some t \<Rightarrow> timespecToNs t + REISSUE_INFLIGHT_TIMEOUT_NS | None \<Rightarrow> 0),
         sIaNextSocket := (i + 1) mod SIM_COUNT\<rparr>)) h'"

lemma issue_pass_ends:
  assumes st: "attach_shape st" "cache_inv (ia_store st) h" and w: "workable st i"
    and go: "\<not> sIaRequestInFlight st" "due now st"
  shows "\<exists>pc' st' h'. issue_pass i issuedAt lastIssue st h = Some (pc', st', h')
    \<and> pass now issuedAt lastIssue st h pc' st' h'"
proof -
  obtain r where r: "pick_token st 1 = Some r" and rs: "case r of
      Some k \<Rightarrow> k < REISSUE_TOKEN_SLOTS \<and> \<not> sIaTokenOutstanding st ! k
    | None \<Rightarrow> \<forall>k < REISSUE_TOKEN_SLOTS. sIaTokenOutstanding st ! k"
    using pick_token_spec [OF st(1)] by blast
  have i: "i < SIM_COUNT" "i < length (sIaPending st)" "i < length (sIaCache (ia_store st))"
    "sIaCached (ia_store st) ! i"
    using w st(1) by (auto simp: workable_def attach_shape_def)
  show ?thesis
  proof (cases r)
    case None
    then show ?thesis
      using r rs i pass_no_token [OF go w] by (simp add: issue_pass_def)
  next
    case (Some k)
    then have k: "k < REISSUE_TOKEN_SLOTS" "k < length (sIaTokenOutstanding st)" "\<not> sIaTokenOutstanding st ! k"
      using rs st(1) by (auto simp: attach_shape_def)
    have "\<forall>p \<in> set (owned (sIaCache (ia_store st) ! i)). readable h p" "heap_ok h"
      using slot_owner [OF st(2) i(1,4)] st(2) exact_readable by (auto simp: owner_def cache_inv_def)
    from copyIa_spec [OF this] obtain ok dst h' where c: "copyIa (sIaCache (ia_store st) ! i) h = Some (ok, dst, h')"
      and h': "heap_ok h'" "owner h' dst" "\<forall>p < fresh h. live h' p = live h p"
      "\<forall>p \<ge> fresh h. live h' p \<noteq> None \<longleftrightarrow> p \<in> set (owned dst)" "\<forall>p \<in> set (owned dst). fresh h \<le> p"
      "if ok then payload_of h' dst = payload_of h (sIaCache (ia_store st) ! i) else dst = zero_ia"
      by blast
    show ?thesis
    proof (cases ok)
      case True
      then show ?thesis
        using r Some i k c h' pass_issue [OF go w k(1,3) h'(1,2,3,5)] by (simp add: issue_pass_def Let_def)
    next
      case False
      then have "live h' = live h"
        using h'(3,4,6) st(2) by (intro ext) (metis cache_inv_def empty_iff heap_ok_def list.set(1) not_le owned_zero)
      then show ?thesis
        using False r Some i k c pass_no_memory [OF go h'(1)] by (simp add: issue_pass_def)
    qed
  qed
qed

lemma due_pass_ends:
  assumes "attach_shape st" "cache_inv (ia_store st) h" "workable st i" "\<not> sIaRequestInFlight st"
  shows "\<exists>pc' st' h'. due_pass i now issuedAt lastIssue st h = Some (pc', st', h')
    \<and> pass now issuedAt lastIssue st h pc' st' h'"
proof (cases "due now st")
  case True
  then show ?thesis
    using issue_pass_ends [OF assms True] by (auto simp: due_def due_pass_def Let_def split: option.splits)
next
  case False
  then show ?thesis
    using assms pass_blind pass_early
    by (cases now) (fastforce simp: due_def due_pass_def Let_def intro: pass_blind pass_early)+
qed

text \<open>Where the scan starts: the state as it was, or with the in-flight slot given up.\<close>

definition released :: "ia_state \<Rightarrow> ia_state \<Rightarrow> bool" where
  "released st st0 \<longleftrightarrow> st0 = st \<or> (\<exists>d. st0 = st\<lparr>sIaRequestInFlight := False, sIaInFlightDeadlineNs := d\<rparr>)"

lemma released_shape: "released st st0 \<Longrightarrow> attach_shape st0 = attach_shape st" "released st st0 \<Longrightarrow> ia_store st0 = ia_store st"
  by (auto simp: released_def attach_shape_def)

lemma released_trans: "released st st0 \<Longrightarrow> released st0 st1 \<Longrightarrow> released st st1"
  by (auto simp: released_def)

lemma worker_head_ends:
  assumes "attach_shape st" "cache_inv (ia_store st) h"
  shows "\<exists>st0 pc' st' h'. worker_head now issuedAt lastIssue st h = Some (pc', st', h') \<and> released st st0
    \<and> pass now issuedAt lastIssue st0 h pc' st' h'"
proof -
  have free: "\<exists>pc' st' h'. worker_head now issuedAt lastIssue st0 h = Some (pc', st', h')
      \<and> pass now issuedAt lastIssue st0 h pc' st' h'"
    if "released st st0" "\<not> sIaRequestInFlight st0" for st0
  proof -
    have st0: "attach_shape st0" "cache_inv (ia_store st0) h"
      using that assms released_shape by auto
    obtain r where r: "pick_socket st0 0 = Some r"
      "case r of Some i \<Rightarrow> workable st0 i | None \<Rightarrow> \<forall>i. \<not> workable st0 i"
      using pick_socket_spec [OF st0(1)] by blast
    then show ?thesis
      using that due_pass_ends [OF st0] pass_idle [OF that(2)]
      by (subst worker_head.simps) (auto split: option.splits)
  qed
  let ?freed = "st\<lparr>sIaRequestInFlight := False\<rparr>"
  have "released st ?freed"
    unfolding released_def by (intro disjI2 exI [of _ "sIaInFlightDeadlineNs st"]) simp
  moreover have "worker_head now issuedAt lastIssue st h = worker_head now issuedAt lastIssue ?freed h"
    if "sIaRequestInFlight st" "sIaInFlightDeadlineNs st = 0"
    using that by (subst worker_head.simps) simp
  moreover have "worker_head now issuedAt lastIssue st h
      = Some (CondTimedWait (nsToTimespec (sIaInFlightDeadlineNs st)), st, h)"
    if "sIaRequestInFlight st" "sIaInFlightDeadlineNs st \<noteq> 0"
    using that by (subst worker_head.simps) simp
  moreover have "released st st" by (simp add: released_def)
  ultimately show ?thesis
    using free [of st] free [of ?freed] pass_busy [of st] by (cases "sIaRequestInFlight st") (fastforce intro: pass_busy)+
qed

definition after_timed_wait :: "timespec option \<Rightarrow> ia_state \<Rightarrow> ia_state" where
  "after_timed_wait afterWait st =
     (if sIaRequestInFlight st \<and> (\<forall>t. afterWait = Some t \<longrightarrow> timespecToNs t \<ge> sIaInFlightDeadlineNs st)
      then st\<lparr>sIaRequestInFlight := False, sIaInFlightDeadlineNs := 0\<rparr> else st)"

lemma worker_timed_head:
  "worker_timed afterWait now issuedAt lastIssue st h
     = worker_head now issuedAt lastIssue (after_timed_wait afterWait st) h"
  by (auto simp: worker_timed_def after_timed_wait_def Let_def split: option.split)

lemma after_timed_wait_released: "released st (after_timed_wait afterWait st)"
  by (auto simp: released_def after_timed_wait_def)

definition issuing :: "ia_pc \<Rightarrow> bool" where
  "issuing pc \<longleftrightarrow> (\<exists>outgoing k i. pc = Issue outgoing k i)"

text \<open>Every run of the worker that is not sending ends as a pass, or is the end of a sleep.\<close>

lemma worker_resume_ends:
  assumes "attach_shape st" "cache_inv (ia_store st) h" "\<not> issuing pc"
  shows "\<exists>pc' st' h'. worker_resume afterWait now issuedAt lastIssue pc st h = Some (pc', st', h')
    \<and> ((\<exists>st0. released st st0 \<and> pass now issuedAt lastIssue st0 h pc' st' h')
       \<or> pc' = Enter \<and> st' = st \<and> h' = h)"
proof -
  let ?st1 = "after_timed_wait afterWait st"
  have st1: "attach_shape ?st1" "cache_inv (ia_store ?st1) h"
    using released_shape [OF after_timed_wait_released] assms by auto
  show ?thesis
    using assms(3) worker_head_ends [OF assms(1,2), of now issuedAt lastIssue]
      worker_head_ends [OF st1, of now issuedAt lastIssue]
      released_trans [OF after_timed_wait_released [of st afterWait]]
    by (cases pc) (fastforce simp: worker_resume_def worker_timed_head issuing_def)+
qed

section \<open>The hooks, by cases\<close>

definition with_token_done :: "nat \<Rightarrow> ia_state \<Rightarrow> ia_state" where
  "with_token_done i st =
     (let st' = st\<lparr>sIaTokenOutstanding := (sIaTokenOutstanding st)[i := False]\<rparr> in
      if sIaTokenOutstanding st ! i \<and> sIaRequestInFlight st \<and> i = sIaCurrentTokenIndex st
      then st'\<lparr>sIaRequestInFlight := False, sIaInFlightDeadlineNs := 0\<rparr> else st')"

lemma completeHook_own:
  assumes "attach_shape st" "i < REISSUE_TOKEN_SLOTS"
  shows "completeHook pool (REISSUE_TOKEN_AT pool i) e r l st =
    Some (if sIaTokenOutstanding st ! i \<and> sIaRequestInFlight st \<and> i = sIaCurrentTokenIndex st
          then [SignalWake] else [], with_token_done i st)"
proof -
  have "isReissueToken pool (REISSUE_TOKEN_AT pool i)" "i < length (sIaTokenOutstanding st)"
    using assms by (auto simp: isReissueToken_iff attach_shape_def)
  then show ?thesis
    using token_index [OF assms(2), of pool] by (auto simp: completeHook_def with_token_done_def Let_def)
qed

lemma completeHook_foreign:
  "\<not> isReissueToken pool t \<Longrightarrow> \<exists>eff. completeHook pool t e r l st = Some (eff, st)"
  by (simp add: completeHook_def)

lemma unsolHook_cases:
  assumes "attach_shape st"
  obtains (kept) eff where "unsolHook u d n s st = Some (eff, st)"
  | (marked) eff where "unsolHook u d n s st
        = Some (eff, st\<lparr>sIaPending := (sIaPending st)[nat s := True]\<rparr>)" "SignalWake \<in> set eff"
      "nat s < SIM_COUNT" "sIaCached (ia_store st) ! nat s"
proof (cases "attachApnHooksActive st \<and> u = RIL_UNSOL_RESET_ATTACH_APN \<and> 0 \<le> s \<and> s < int SIM_COUNT
    \<and> sIaCached (ia_store st) ! nat s")
  case True
  then have s: "nat s < SIM_COUNT" by auto
  then have "nat s < length (sIaPending st)" "nat s < length (sIaCached (ia_store st))"
    using assms by (auto simp: attach_shape_def)
  then show ?thesis
    using True s marked [of "SignalWake # (if sRealOnUnsol st = 0 then [] else [CallUnsol (sRealOnUnsol st) u d n s])"]
    by (auto simp: unsolHook_def)
next
  case False
  have "nat s < length (sIaCached (ia_store st))" if "0 \<le> s" "s < int SIM_COUNT"
    using that assms by (auto simp: attach_shape_def)
  then show ?thesis
    using False kept [of "if sRealOnUnsol st = 0 then [] else [CallUnsol (sRealOnUnsol st) u d n s]"]
    by (auto simp: unsolHook_def)
qed

end
