(* ===== verification/Ril_Reissue.thy ===== *)
theory Ril_Reissue
  imports Ril_Attach
begin

text \<open>
  The initial-attach APN worker, the hooks and their environment as one transition system: the framework
  setting payloads, the vendor library asking for them again and completing requests in any order, other
  code using the heap, time passing and allocations failing. The lemmas are one invariant per concern, each
  kept by every step, and the properties of all reachable states.
\<close>

section \<open>The system\<close>

text \<open>
  The worker, the shared state and the heap, with what an observer outside the shim knows: the tokens the
  vendor library holds, whether the running send has reached it, the payloads the framework has requested
  and the ones re-sent, when requests were issued, a lower bound of the time, whether a clock reading ever
  failed, and whether the condition variable was signalled since the worker last stopped.
\<close>

record ia_sys =
  pc_of :: ia_pc
  st_of :: ia_state
  heap_of :: heap
  held :: "nat set"
  handed :: bool
  requested :: "(nat \<times> payload) list"
  resent :: "(nat \<times> nat \<times> payload) list"
  issued :: "int list"
  elapsed :: int
  clock_failed :: bool
  signalled :: bool

text \<open>Successive readings of a monotonic clock.\<close>

fun readings :: "int \<Rightarrow> timespec option list \<Rightarrow> int \<Rightarrow> bool" where
  "readings t [] t' = (t \<le> t')"
| "readings t (None # rs) t' = readings t rs t'"
| "readings t (Some r # rs) t' = (t \<le> timespecToNs r \<and> readings (timespecToNs r) rs t')"

text \<open>The blocks the shim owns.\<close>

definition outgoing_of :: "ia_pc \<Rightarrow> MtkInitialAttachApn" where
  "outgoing_of pc = (case pc of Issue outgoing k i \<Rightarrow> outgoing | _ \<Rightarrow> zero_ia)"

definition shim_ptrs :: "ia_sys \<Rightarrow> nat set" where
  "shim_ptrs z = set (cached_ptrs (ia_store (st_of z))) \<union> set (owned (outgoing_of (pc_of z)))"

inductive ia_step :: "u64 \<Rightarrow> ia_sys \<Rightarrow> ia_sys \<Rightarrow> bool" for pool where
  step_worker: "readings (elapsed z) [afterWait, now, issuedAt, lastIssue] t' \<Longrightarrow> \<not> issuing (pc_of z) \<Longrightarrow>
    worker_resume afterWait now issuedAt lastIssue (pc_of z) (st_of z) (heap_of z) = Some (pc', st', h') \<Longrightarrow>
    ia_step pool z (z\<lparr>pc_of := pc', st_of := st', heap_of := h', handed := False,
      issued := (if issuing pc' then timespecToNs (the now) # issued z else issued z), elapsed := t',
      clock_failed := clock_failed z \<or> None \<in> set [afterWait, now, issuedAt, lastIssue], signalled := False\<rparr>)"
| step_send: "pc_of z = Issue outgoing k i \<Longrightarrow> \<not> handed z \<Longrightarrow>
    ia_step pool z (z\<lparr>handed := True, held := insert k (held z),
      resent := (i, k, payload_of (heap_of z) outgoing) # resent z\<rparr>)"
| step_sent: "pc_of z = Issue outgoing k i \<Longrightarrow> handed z \<Longrightarrow>
    worker_resume None None None None (pc_of z) (st_of z) (heap_of z) = Some (pc', st', h') \<Longrightarrow>
    ia_step pool z (z\<lparr>pc_of := pc', st_of := st', heap_of := h', signalled := False\<rparr>)"
| step_complete: "k \<in> held z \<Longrightarrow> completeHook pool (REISSUE_TOKEN_AT pool k) e r l (st_of z) = Some (eff, st') \<Longrightarrow>
    ia_step pool z (z\<lparr>st_of := st', held := held z - {k}, signalled := signalled z \<or> SignalWake \<in> set eff\<rparr>)"
| step_other_complete: "\<not> isReissueToken pool t \<Longrightarrow> completeHook pool t e r l (st_of z) = Some (eff, st') \<Longrightarrow>
    ia_step pool z (z\<lparr>st_of := st', signalled := signalled z \<or> SignalWake \<in> set eff\<rparr>)"
| step_unsol: "unsolHook u d n s (st_of z) = Some (eff, st') \<Longrightarrow>
    ia_step pool z (z\<lparr>st_of := st', signalled := signalled z \<or> SignalWake \<in> set eff\<rparr>)"
| step_cache: "\<forall>p \<in> set (owned src). readable (heap_of z) p \<Longrightarrow>
    cacheInitialAttachApn s (Some src) n (ia_store (st_of z)) (heap_of z) = Some (store', h') \<Longrightarrow>
    ia_step pool z (z\<lparr>st_of := (st_of z)\<lparr>ia_store := store'\<rparr>, heap_of := h',
      requested := (if 0 \<le> s then (nat s, payload_of (heap_of z) src) # requested z else requested z)\<rparr>)"
| step_foreign: "heap_ok h' \<Longrightarrow> \<forall>p \<in> shim_ptrs z. live h' p = live (heap_of z) p \<Longrightarrow>
    ia_step pool z (z\<lparr>heap_of := h'\<rparr>)"
| step_hooks: "ia_step pool z (z\<lparr>st_of := (st_of z)\<lparr>sIaHookState := x, sRealOnUnsol := a, sRealOnComplete := b\<rparr>\<rparr>)"

inductive ia_reach :: "u64 \<Rightarrow> ia_sys \<Rightarrow> bool" for pool where
  reach_init: "heap_ok h \<Longrightarrow> 0 \<le> t \<Longrightarrow>
    ia_reach pool \<lparr>pc_of = Enter, st_of = ia_state0, heap_of = h, held = {}, handed = False, requested = [],
      resent = [], issued = [], elapsed = t, clock_failed = False, signalled = False\<rparr>"
| reach_step: "ia_reach pool z \<Longrightarrow> ia_step pool z z' \<Longrightarrow> ia_reach pool z'"

section \<open>Memory\<close>

definition attach_inv :: "ia_sys \<Rightarrow> bool" where
  "attach_inv z \<longleftrightarrow> attach_shape (st_of z) \<and> cache_inv (ia_store (st_of z)) (heap_of z)
     \<and> owner (heap_of z) (outgoing_of (pc_of z))
     \<and> set (owned (outgoing_of (pc_of z))) \<inter> set (cached_ptrs (ia_store (st_of z))) = {}"

lemma owner_zero [simp]: "owner h zero_ia"
  by (simp add: owner_def)

lemma charge_simps [simp]:
  "ia_store (charge r st) = ia_store st" "sIaPending (charge r st) = sIaPending st"
  "sIaRequestInFlight (charge r st) = sIaRequestInFlight st"
  "sIaInFlightDeadlineNs (charge r st) = sIaInFlightDeadlineNs st"
  "sIaCurrentTokenIndex (charge r st) = sIaCurrentTokenIndex st"
  "sIaTokenOutstanding (charge r st) = sIaTokenOutstanding st"
  "sIaNextSocket (charge r st) = sIaNextSocket st"
  by (simp_all add: charge_def split: option.split)

lemma charge_shape [simp]: "attach_shape (charge r st) = attach_shape st"
  by (simp add: attach_shape_def)

lemma workable_pending: "attach_shape st \<Longrightarrow> workable st i \<Longrightarrow> i < SIM_COUNT"
  by (simp add: workable_def)

lemma cache_inv_live:
  assumes "cache_inv st h" "heap_ok h'" "\<And>p. p \<in> set (cached_ptrs st) \<Longrightarrow> live h' p = live h p"
  shows "cache_inv st h'"
  using assms by (auto simp: cache_inv_def exact_def)

lemma cached_below: "cache_inv st h \<Longrightarrow> p \<in> set (cached_ptrs st) \<Longrightarrow> p < fresh h"
  using live_below [of h p] by (auto simp: cache_inv_def exact_def)

lemma pass_memory:
  assumes "pass now issuedAt lastIssue st h pc' st' h'" "attach_shape st" "cache_inv (ia_store st) h"
  shows "attach_shape st'" "ia_store st' = ia_store st" "cache_inv (ia_store st) h'" "owner h' (outgoing_of pc')"
    "set (owned (outgoing_of pc')) \<inter> set (cached_ptrs (ia_store st)) = {}"
    "\<And>p. p \<in> set (cached_ptrs (ia_store st)) \<Longrightarrow> live h' p = live h p"
proof -
  have "attach_shape st' \<and> ia_store st' = ia_store st \<and> owner h' (outgoing_of pc')
     \<and> set (owned (outgoing_of pc')) \<inter> set (cached_ptrs (ia_store st)) = {} \<and> heap_ok h'
     \<and> (\<forall>p \<in> set (cached_ptrs (ia_store st)). live h' p = live h p)"
    using assms cached_below [OF assms(3)]
    by cases (fastforce simp: attach_shape_def outgoing_of_def cache_inv_def)+
  then show "attach_shape st'" "ia_store st' = ia_store st" "cache_inv (ia_store st) h'" "owner h' (outgoing_of pc')"
    "set (owned (outgoing_of pc')) \<inter> set (cached_ptrs (ia_store st)) = {}"
    "\<And>p. p \<in> set (cached_ptrs (ia_store st)) \<Longrightarrow> live h' p = live h p"
    using cache_inv_live [OF assms(3)] by auto
qed

text \<open>A completed token or an indication changes nothing the memory invariant speaks of.\<close>

definition same_frame :: "ia_state \<Rightarrow> ia_state \<Rightarrow> bool" where
  "same_frame st st' \<longleftrightarrow> ia_store st' = ia_store st \<and> attach_shape st' = attach_shape st"

lemma same_frame_token: "same_frame st (with_token_done i st)"
  by (simp add: same_frame_def with_token_done_def attach_shape_def Let_def)

lemma same_frame_pending: "same_frame st (st\<lparr>sIaPending := (sIaPending st)[i := b]\<rparr>)"
  by (simp add: same_frame_def attach_shape_def)

lemma attach_inv_frame: "attach_inv z \<Longrightarrow> same_frame (st_of z) st' \<Longrightarrow> pc_of z' = pc_of z \<Longrightarrow> heap_of z' = heap_of z \<Longrightarrow>
    st_of z' = st' \<Longrightarrow> attach_inv z'"
  by (simp add: attach_inv_def same_frame_def)

lemma cache_step_memory:
  assumes inv: "attach_inv z" and src: "\<forall>p \<in> set (owned src). readable (heap_of z) p"
    and c: "cacheInitialAttachApn s (Some src) n (ia_store (st_of z)) (heap_of z) = Some (store', h')"
  shows "cache_inv store' h'" "length (sIaCache store') = SIM_COUNT" "length (sIaCached store') = SIM_COUNT"
    "\<And>p. p \<in> set (owned (outgoing_of (pc_of z))) \<Longrightarrow> live h' p = live (heap_of z) p \<and> p \<notin> set (cached_ptrs store')"
    "\<And>i. i < SIM_COUNT \<Longrightarrow> sIaCached (ia_store (st_of z)) ! i \<Longrightarrow> sIaCached store' ! i"
    "\<And>i. i < SIM_COUNT \<Longrightarrow> sIaCached store' ! i \<Longrightarrow>
       sIaCached (ia_store (st_of z)) ! i \<and> payload_of h' (sIaCache store' ! i) = payload_of (heap_of z) (sIaCache (ia_store (st_of z)) ! i)
       \<or> i = nat s \<and> payload_of h' (sIaCache store' ! i) = payload_of (heap_of z) src"
proof -
  let ?st = "ia_store (st_of z)" and ?h = "heap_of z"
  have ci: "cache_inv ?st ?h" using inv by (simp add: attach_inv_def)
  have out: "p \<notin> set (cached_ptrs ?st)" "live ?h p \<noteq> None" if "p \<in> set (owned (outgoing_of (pc_of z)))" for p
    using inv that by (auto simp: attach_inv_def owner_def exact_def)
  have "cache_inv store' h' \<and> (\<forall>p \<in> set (owned (outgoing_of (pc_of z))). live h' p = live ?h p \<and> p \<notin> set (cached_ptrs store'))
    \<and> (\<forall>i < SIM_COUNT. (sIaCached ?st ! i \<longrightarrow> sIaCached store' ! i) \<and> (sIaCached store' ! i \<longrightarrow>
       sIaCached ?st ! i \<and> payload_of h' (sIaCache store' ! i) = payload_of ?h (sIaCache ?st ! i)
       \<or> i = nat s \<and> payload_of h' (sIaCache store' ! i) = payload_of ?h src))"
  proof (rule cacheInitialAttachApn_cases [OF ci, of "Some src" s n], goal_cases readable published kept)
    case readable
    then show ?case using src by simp
  next
    case (published src' st'' h'')
    then have p: "published (nat s) src ?st ?h store' h'" using c by simp
    have flags: "sIaCached store' = (sIaCached ?st)[nat s := True]"
      "payload_of h' (sIaCache store' ! nat s) = payload_of ?h src"
      using p published(3) ci by (auto simp: published_def cache_inv_def)
    have slots: "sIaCached store' ! i = (i = nat s \<or> sIaCached ?st ! i)" if "i < SIM_COUNT" for i
      using that flags(1) ci published(3) by (simp add: cache_inv_def nth_list_update)
    note after = published_inv [OF ci p published(3)]
    have "live h' q = live ?h q \<and> q \<notin> set (cached_ptrs store')" if "q \<in> set (owned (outgoing_of (pc_of z)))" for q
    proof -
      have "q \<notin> set (cached_ptrs store')" using after(3) [of q] out [OF that] by blast
      then show ?thesis using after(2) [of q] out(1) [OF that] by simp
    qed
    then show ?case
      using after(1,4) slots flags(2) by auto
  next
    case (kept st'' h'')
    then have k: "kept_out ?st ?h store' h'" using c by simp
    have "payload_of h' ia = payload_of ?h ia" for ia
      using k by (intro owner_cong(2)) (simp add: kept_out_def)
    then show ?case
      using kept_out_inv [OF ci k] k out by (auto simp: kept_out_def)
  qed
  then show "cache_inv store' h'"
    "\<And>p. p \<in> set (owned (outgoing_of (pc_of z))) \<Longrightarrow> live h' p = live (heap_of z) p \<and> p \<notin> set (cached_ptrs store')"
    "\<And>i. i < SIM_COUNT \<Longrightarrow> sIaCached ?st ! i \<Longrightarrow> sIaCached store' ! i"
    "\<And>i. i < SIM_COUNT \<Longrightarrow> sIaCached store' ! i \<Longrightarrow>
       sIaCached ?st ! i \<and> payload_of h' (sIaCache store' ! i) = payload_of ?h (sIaCache ?st ! i)
       \<or> i = nat s \<and> payload_of h' (sIaCache store' ! i) = payload_of ?h src"
    by blast+
  then show "length (sIaCache store') = SIM_COUNT" "length (sIaCached store') = SIM_COUNT"
    by (simp_all add: cache_inv_def)
qed

text \<open>After the send the payload of the worker is released and nothing else.\<close>

lemma sent_memory:
  assumes inv: "attach_inv z" and pc: "pc_of z = Issue outgoing k i"
  shows "\<exists>h'. worker_resume a b c d (pc_of z) (st_of z) (heap_of z) = Some (Enter, st_of z, h')
    \<and> cache_inv (ia_store (st_of z)) h' \<and> (\<forall>p \<in> set (cached_ptrs (ia_store (st_of z))). live h' p = live (heap_of z) p)"
proof -
  have o: "owner (heap_of z) outgoing" "set (owned outgoing) \<inter> set (cached_ptrs (ia_store (st_of z))) = {}"
    and ci: "cache_inv (ia_store (st_of z)) (heap_of z)"
    using inv pc by (auto simp: attach_inv_def outgoing_of_def)
  obtain new where f: "freeIaStrings outgoing (heap_of z) = Some (zero_ia,
      (heap_of z)\<lparr>live := live (heap_of z) |` (- set (owned outgoing)), freed := new @ freed (heap_of z)\<rparr>)" (is "_ = Some (_, ?h)")
    using freeIaStrings_spec [OF o(1)] by blast
  have same: "live ?h p = live (heap_of z) p" if "p \<in> set (cached_ptrs (ia_store (st_of z)))" for p
    using that o(2) by (auto simp: restrict_map_def)
  have "heap_ok ?h" using ci by (auto simp: cache_inv_def heap_ok_def restrict_map_def)
  then show ?thesis
    using f pc same cache_inv_live [OF ci] by (auto simp: worker_resume_def)
qed

lemma worker_resume_cases:
  assumes "attach_inv z" "\<not> issuing (pc_of z)"
    "worker_resume afterWait now issuedAt lastIssue (pc_of z) (st_of z) (heap_of z) = Some (pc', st', h')"
  obtains (pass) st0 where "released (st_of z) st0" "attach_shape st0" "ia_store st0 = ia_store (st_of z)"
      "cache_inv (ia_store st0) (heap_of z)" "pass now issuedAt lastIssue st0 (heap_of z) pc' st' h'"
  | (slept) "pc' = Enter" "st' = st_of z" "h' = heap_of z"
proof -
  have st: "attach_shape (st_of z)" "cache_inv (ia_store (st_of z)) (heap_of z)"
    using assms(1) by (auto simp: attach_inv_def)
  show ?thesis
    using worker_resume_ends [OF st assms(2), of afterWait now issuedAt lastIssue] assms(3) st pass slept
      released_shape by fastforce
qed

lemma attach_inv_step:
  assumes "ia_step pool z z'" "attach_inv z" "held z \<subseteq> {..<REISSUE_TOKEN_SLOTS}"
  shows "attach_inv z'"
  using assms
proof (cases rule: ia_step.cases)
  case (step_worker afterWait now issuedAt lastIssue t' pc' st' h')
  show ?thesis
  proof (rule worker_resume_cases [OF assms(2) step_worker(3,4)], goal_cases pass slept)
    case (pass st0)
    then show ?thesis
      using pass_memory [OF pass(5,2,4)] step_worker(1) by (auto simp: attach_inv_def)
  next
    case slept
    then show ?thesis using assms(2) step_worker(1) by (simp add: attach_inv_def outgoing_of_def)
  qed
next
  case (step_send outgoing k i)
  then show ?thesis using assms(2) by (simp add: attach_inv_def)
next
  case (step_sent outgoing k i pc' st' h')
  then show ?thesis
    using sent_memory [OF assms(2) step_sent(2), of None None None None] assms(2)
    by (auto simp: attach_inv_def outgoing_of_def)
next
  case (step_complete k e r l eff st')
  then show ?thesis
    using assms(2,3) completeHook_own [of "st_of z" k pool e r l] same_frame_token [of "st_of z" k]
    by (intro attach_inv_frame [OF assms(2), of "with_token_done k (st_of z)"]) (auto simp: attach_inv_def)
next
  case (step_other_complete t e r l eff st')
  then show ?thesis
    using assms(2) completeHook_foreign [of pool t e r l "st_of z"] by (auto simp: attach_inv_def)
next
  case (step_unsol u d n s eff st')
  have "attach_shape (st_of z)" using assms(2) by (simp add: attach_inv_def)
  then have "same_frame (st_of z) st'"
    using step_unsol(2) same_frame_pending
    by (cases rule: unsolHook_cases [of _ u d n s]) (auto simp: same_frame_def)
  then show ?thesis using step_unsol(1) by (intro attach_inv_frame [OF assms(2)]) auto
next
  case (step_cache src s n store' h')
  note m = cache_step_memory [OF assms(2) step_cache(2,3)]
  show ?thesis
    using assms(2) m owner_cong(1) [of "outgoing_of (pc_of z)" h' "heap_of z"] step_cache(1)
    by (auto simp: attach_inv_def attach_shape_def)
next
  case (step_foreign h')
  have inv: "cache_inv (ia_store (st_of z)) (heap_of z)" "owner (heap_of z) (outgoing_of (pc_of z))"
    using assms(2) by (simp_all add: attach_inv_def)
  have "cache_inv (ia_store (st_of z)) h'" "owner h' (outgoing_of (pc_of z))"
    using cache_inv_live [OF inv(1) step_foreign(2)] owner_cong(1) [of "outgoing_of (pc_of z)" h' "heap_of z"] inv(2)
      step_foreign(3) by (simp_all add: shim_ptrs_def)
  then show ?thesis
    using assms(2) step_foreign(1) by (simp add: attach_inv_def)
next
  case (step_hooks x a b)
  then show ?thesis using assms(2) by (simp add: attach_inv_def attach_shape_def)
qed

section \<open>Tokens\<close>

definition about_to_send :: "ia_sys \<Rightarrow> nat \<Rightarrow> bool" where
  "about_to_send z k \<longleftrightarrow> \<not> handed z \<and> (\<exists>outgoing i. pc_of z = Issue outgoing k i)"

definition token_inv :: "ia_sys \<Rightarrow> bool" where
  "token_inv z \<longleftrightarrow> held z \<subseteq> {..<REISSUE_TOKEN_SLOTS}
     \<and> (\<forall>k < REISSUE_TOKEN_SLOTS. sIaTokenOutstanding (st_of z) ! k \<longleftrightarrow> k \<in> held z \<or> about_to_send z k)
     \<and> (\<forall>k. about_to_send z k \<longrightarrow> k < REISSUE_TOKEN_SLOTS \<and> k \<notin> held z)
     \<and> (sIaRequestInFlight (st_of z) \<longrightarrow> sIaTokenOutstanding (st_of z) ! sIaCurrentTokenIndex (st_of z))"

lemma not_issuing_send: "\<not> issuing (pc_of z) \<Longrightarrow> \<not> about_to_send z k"
  by (auto simp: issuing_def about_to_send_def)

lemma pass_tokens:
  assumes "pass now issuedAt lastIssue st h pc' st' h'" "attach_shape st"
  shows "(\<forall>outgoing k i. pc' = Issue outgoing k i \<longrightarrow> k < REISSUE_TOKEN_SLOTS \<and> \<not> sIaTokenOutstanding st ! k
      \<and> sIaTokenOutstanding st' = (sIaTokenOutstanding st)[k := True] \<and> sIaCurrentTokenIndex st' = k)
    \<and> (\<not> issuing pc' \<longrightarrow> sIaTokenOutstanding st' = sIaTokenOutstanding st
      \<and> (sIaRequestInFlight st' \<longrightarrow> sIaRequestInFlight st) \<and> sIaCurrentTokenIndex st' = sIaCurrentTokenIndex st)"
  using assms by cases (auto simp: issuing_def)

lemma token_inv_step:
  assumes "ia_step pool z z'" "attach_inv z" "token_inv z"
  shows "token_inv z'"
  using assms(1)
proof (cases rule: ia_step.cases)
  case (step_worker afterWait now issuedAt lastIssue t' pc' st' h')
  have before: "sIaTokenOutstanding (st_of z) ! k \<longleftrightarrow> k \<in> held z" if "k < REISSUE_TOKEN_SLOTS" for k
    using assms(3) that not_issuing_send [OF step_worker(3)] by (simp add: token_inv_def)
  show ?thesis
  proof (rule worker_resume_cases [OF assms(2) step_worker(3,4)], goal_cases pass slept)
    case (pass st0)
    note t = pass_tokens [OF pass(5,2)]
    have st0: "sIaTokenOutstanding st0 = sIaTokenOutstanding (st_of z)"
      "sIaCurrentTokenIndex st0 = sIaCurrentTokenIndex (st_of z)"
      "sIaRequestInFlight st0 \<Longrightarrow> sIaRequestInFlight (st_of z)" "length (sIaTokenOutstanding st0) = REISSUE_TOKEN_SLOTS"
      using pass(1,2) by (auto simp: released_def attach_shape_def)
    show ?thesis
    proof (cases "issuing pc'")
      case True
      then obtain outgoing k i where "pc' = Issue outgoing k i" by (auto simp: issuing_def)
      then show ?thesis
        using t st0 before assms(3) step_worker(1)
        by (auto simp: token_inv_def about_to_send_def nth_list_update)
    next
      case False
      then show ?thesis
        using t st0 before assms(3) step_worker(1)
        by (auto simp: token_inv_def about_to_send_def issuing_def)
    qed
  next
    case slept
    then show ?thesis
      using before assms(3) step_worker(1) by (auto simp: token_inv_def about_to_send_def)
  qed
next
  case (step_send outgoing k i)
  then show ?thesis using assms(3) by (auto simp: token_inv_def about_to_send_def)
next
  case (step_sent outgoing k i pc' st' h')
  then have "pc' = Enter" "st' = st_of z"
    using sent_memory [OF assms(2) step_sent(2), of None None None None] by auto
  then show ?thesis
    using assms(3) step_sent(1,2,3) by (auto simp: token_inv_def about_to_send_def)
next
  case (step_complete k e r l eff st')
  have k: "k < REISSUE_TOKEN_SLOTS" "\<not> about_to_send z k" and sh: "attach_shape (st_of z)"
    using step_complete(2) assms(2,3) by (auto simp: token_inv_def attach_inv_def)
  have "st' = with_token_done k (st_of z)" using completeHook_own [OF sh k(1)] step_complete(3) by simp
  moreover have "length (sIaTokenOutstanding (st_of z)) = REISSUE_TOKEN_SLOTS"
    "sIaCurrentTokenIndex (st_of z) < REISSUE_TOKEN_SLOTS" using sh by (simp_all add: attach_shape_def)
  ultimately show ?thesis
    using assms(3) step_complete(1,2) k
    by (auto simp: token_inv_def about_to_send_def with_token_done_def Let_def nth_list_update split: if_splits)
next
  case (step_other_complete t e r l eff st')
  then have "st' = st_of z" using completeHook_foreign [of pool t e r l "st_of z"] by auto
  then show ?thesis using assms(3) step_other_complete(1) by (auto simp: token_inv_def about_to_send_def)
next
  case (step_unsol u d n s eff st')
  have "attach_shape (st_of z)" using assms(2) by (simp add: attach_inv_def)
  then have "sIaTokenOutstanding st' = sIaTokenOutstanding (st_of z) \<and> sIaRequestInFlight st' = sIaRequestInFlight (st_of z)
      \<and> sIaCurrentTokenIndex st' = sIaCurrentTokenIndex (st_of z)"
    using step_unsol(2) by (cases rule: unsolHook_cases [of _ u d n s]) auto
  then show ?thesis using assms(3) step_unsol(1) by (auto simp: token_inv_def about_to_send_def)
qed (use assms(3) in \<open>auto simp: token_inv_def about_to_send_def\<close>)

section \<open>Payloads\<close>

definition payload_inv :: "ia_sys \<Rightarrow> bool" where
  "payload_inv z \<longleftrightarrow>
     (\<forall>i < SIM_COUNT. sIaCached (ia_store (st_of z)) ! i \<longrightarrow>
        (i, payload_of (heap_of z) (sIaCache (ia_store (st_of z)) ! i)) \<in> set (requested z))
     \<and> (\<forall>outgoing k i. pc_of z = Issue outgoing k i \<longrightarrow> (i, payload_of (heap_of z) outgoing) \<in> set (requested z))
     \<and> (\<forall>i k p. (i, k, p) \<in> set (resent z) \<longrightarrow> (i, p) \<in> set (requested z))"

lemma slot_cached: "i < SIM_COUNT \<Longrightarrow> sIaCached st ! i \<Longrightarrow> set (owned (sIaCache st ! i)) \<subseteq> set (cached_ptrs st)"
  by (auto simp: cached_ptrs_def slot_def)

lemma slot_payload:
  assumes "i < SIM_COUNT" "sIaCached st ! i" "\<And>p. p \<in> set (cached_ptrs st) \<Longrightarrow> live h' p = live h p"
  shows "payload_of h' (sIaCache st ! i) = payload_of h (sIaCache st ! i)"
  using slot_cached [OF assms(1,2)] assms(3) by (intro owner_cong(2)) auto

lemma pass_payload:
  assumes "pass now issuedAt lastIssue st h (Issue outgoing k i) st' h'"
  shows "i < SIM_COUNT" "sIaCached (ia_store st) ! i" "payload_of h' outgoing = payload_of h (sIaCache (ia_store st) ! i)"
  using assms by (cases; simp add: workable_def)+

lemma payload_inv_step:
  assumes "ia_step pool z z'" "attach_inv z" "token_inv z" "payload_inv z"
  shows "payload_inv z'"
  using assms(1)
proof (cases rule: ia_step.cases)
  case (step_worker afterWait now issuedAt lastIssue t' pc' st' h')
  show ?thesis
  proof (rule worker_resume_cases [OF assms(2) step_worker(3,4)], goal_cases pass slept)
    case (pass st0)
    note m = pass_memory [OF pass(5,2,4)]
    have "payload_of h' (sIaCache (ia_store st0) ! i) = payload_of (heap_of z) (sIaCache (ia_store st0) ! i)"
      if "i < SIM_COUNT" "sIaCached (ia_store st0) ! i" for i
      using that m(6) by (intro slot_payload)
    moreover have "(i, payload_of h' outgoing) \<in> set (requested z)" if "pc' = Issue outgoing k i" for outgoing k i
      using pass_payload [OF pass(5) [unfolded that]] assms(4) pass(3) by (simp add: payload_inv_def)
    ultimately show ?thesis
      using assms(4) step_worker(1) m(2) pass(3) by (auto simp: payload_inv_def)
  next
    case slept
    then show ?thesis using assms(4) step_worker(1) by (auto simp: payload_inv_def)
  qed
next
  case (step_sent outgoing k i pc' st' h')
  then have r: "pc' = Enter" "st' = st_of z"
    and same: "\<And>p. p \<in> set (cached_ptrs (ia_store (st_of z))) \<Longrightarrow> live h' p = live (heap_of z) p"
    using sent_memory [OF assms(2) step_sent(2), of None None None None] by auto
  then show ?thesis
    using assms(4) step_sent(1) slot_payload [OF _ _ same] by (auto simp: payload_inv_def)
next
  case (step_complete k e r l eff st')
  have "k < REISSUE_TOKEN_SLOTS" "attach_shape (st_of z)"
    using step_complete(2) assms(2,3) by (auto simp: token_inv_def attach_inv_def)
  then have "ia_store st' = ia_store (st_of z)"
    using completeHook_own step_complete(3) same_frame_token by (fastforce simp: same_frame_def)
  then show ?thesis using assms(4) step_complete(1) by (auto simp: payload_inv_def)
next
  case (step_other_complete t e r l eff st')
  then have "st' = st_of z" using completeHook_foreign [of pool t e r l "st_of z"] by auto
  then show ?thesis using assms(4) step_other_complete(1) by (auto simp: payload_inv_def)
next
  case (step_unsol u d n s eff st')
  have "attach_shape (st_of z)" using assms(2) by (simp add: attach_inv_def)
  then have "ia_store st' = ia_store (st_of z)"
    using step_unsol(2) by (cases rule: unsolHook_cases [of _ u d n s]) auto
  then show ?thesis using assms(4) step_unsol(1) by (auto simp: payload_inv_def)
next
  case (step_cache src s n store' h')
  note m = cache_step_memory [OF assms(2) step_cache(2,3)]
  have "payload_of h' (outgoing_of (pc_of z)) = payload_of (heap_of z) (outgoing_of (pc_of z))"
    using m(4) by (intro owner_cong(2)) blast
  then have out: "payload_of h' outgoing = payload_of (heap_of z) outgoing" if "pc_of z = Issue outgoing k i" for outgoing k i
    using that by (simp add: outgoing_of_def)
  have cached: "(i, payload_of h' (sIaCache store' ! i)) \<in> set ((nat s, payload_of (heap_of z) src) # requested z)"
    if "i < SIM_COUNT" "sIaCached store' ! i" for i
    using m(6) [OF that] assms(4) that(1) by (auto simp: payload_inv_def)
  show ?thesis
  proof (cases "0 \<le> s")
    case True
    then show ?thesis using cached assms(4) step_cache(1) out by (auto simp: payload_inv_def)
  next
    case False
    then have "store' = ia_store (st_of z)" "h' = heap_of z"
      using step_cache(3) by (simp_all add: cacheInitialAttachApn_def)
    then show ?thesis using False assms(4) step_cache(1) by (simp add: payload_inv_def)
  qed
next
  case (step_foreign h')
  have "payload_of h' (outgoing_of (pc_of z)) = payload_of (heap_of z) (outgoing_of (pc_of z))"
    using step_foreign(3) by (intro owner_cong(2)) (simp add: shim_ptrs_def)
  then have out: "payload_of h' outgoing = payload_of (heap_of z) outgoing" if "pc_of z = Issue outgoing k i" for outgoing k i
    using that by (simp add: outgoing_of_def)
  have same: "live h' p = live (heap_of z) p" if "p \<in> set (cached_ptrs (ia_store (st_of z)))" for p
    using that step_foreign(3) by (simp add: shim_ptrs_def)
  show ?thesis
    using assms(4) step_foreign(1) out slot_payload [OF _ _ same] by (auto simp: payload_inv_def)
qed (use assms(4) in \<open>auto simp: payload_inv_def\<close>)

section \<open>Waking up\<close>

definition wake_inv :: "ia_sys \<Rightarrow> bool" where
  "wake_inv z \<longleftrightarrow>
     (\<forall>i < SIM_COUNT. sIaPending (st_of z) ! i \<longrightarrow> sIaCached (ia_store (st_of z)) ! i)
     \<and> (pc_of z = CondWait \<longrightarrow> \<not> sIaRequestInFlight (st_of z) \<and> (signalled z \<or> (\<forall>i. \<not> workable (st_of z) i)))
     \<and> (\<forall>d. pc_of z = CondTimedWait d \<longrightarrow> (signalled z \<or> sIaRequestInFlight (st_of z))
          \<and> (sIaRequestInFlight (st_of z) \<longrightarrow> sIaInFlightDeadlineNs (st_of z) \<noteq> 0
               \<and> d = nsToTimespec (sIaInFlightDeadlineNs (st_of z))))"

lemma pass_waits:
  assumes "pass now issuedAt lastIssue st h pc' st' h'" "attach_shape st"
    "\<forall>i < SIM_COUNT. sIaPending st ! i \<longrightarrow> sIaCached (ia_store st) ! i"
  shows "(\<forall>i < SIM_COUNT. sIaPending st' ! i \<longrightarrow> sIaCached (ia_store st') ! i)
    \<and> (pc' = CondWait \<longrightarrow> \<not> sIaRequestInFlight st' \<and> (\<forall>i. \<not> workable st' i))
    \<and> (\<forall>d. pc' = CondTimedWait d \<longrightarrow> sIaRequestInFlight st' \<and> sIaInFlightDeadlineNs st' \<noteq> 0
          \<and> d = nsToTimespec (sIaInFlightDeadlineNs st'))"
  using assms by cases (auto simp: nth_list_update attach_shape_def workable_def split: if_splits)

lemma wake_inv_step:
  assumes "ia_step pool z z'" "attach_inv z" "token_inv z" "wake_inv z"
  shows "wake_inv z'"
  using assms(1)
proof (cases rule: ia_step.cases)
  case (step_worker afterWait now issuedAt lastIssue t' pc' st' h')
  show ?thesis
  proof (rule worker_resume_cases [OF assms(2) step_worker(3,4)], goal_cases pass slept)
    case (pass st0)
    have "\<forall>i < SIM_COUNT. sIaPending st0 ! i \<longrightarrow> sIaCached (ia_store st0) ! i"
      using assms(4) pass(1,3) by (auto simp: wake_inv_def released_def)
    then show ?thesis
      using pass_waits [OF pass(5,2)] step_worker(1) by (auto simp: wake_inv_def)
  next
    case slept
    then show ?thesis using assms(4) step_worker(1) by (auto simp: wake_inv_def)
  qed
next
  case (step_sent outgoing k i pc' st' h')
  then have r: "pc' = Enter" "st' = st_of z"
    using sent_memory [OF assms(2) step_sent(2), of None None None None] by auto
  then show ?thesis using assms(4) step_sent(1) by (auto simp: wake_inv_def)
next
  case (step_complete k e r l eff st')
  have "k < REISSUE_TOKEN_SLOTS" "attach_shape (st_of z)"
    using step_complete(2) assms(2,3) by (auto simp: token_inv_def attach_inv_def)
  then show ?thesis
    using assms(4) step_complete completeHook_own
    by (auto simp: wake_inv_def with_token_done_def workable_def Let_def split: if_splits)
next
  case (step_other_complete t e r l eff st')
  then have "st' = st_of z" using completeHook_foreign [of pool t e r l "st_of z"] by auto
  then show ?thesis using assms(4) step_other_complete(1) by (auto simp: wake_inv_def)
next
  case (step_unsol u d n s eff st')
  have sh: "attach_shape (st_of z)" using assms(2) by (simp add: attach_inv_def)
  then have len: "length (sIaPending (st_of z)) = SIM_COUNT" by (simp add: attach_shape_def)
  show ?thesis
  proof (rule unsolHook_cases [OF sh, of u d n s], goal_cases kept marked)
    case (kept eff')
    then show ?thesis using step_unsol assms(4) by (auto simp: wake_inv_def)
  next
    case (marked eff')
    then have "\<forall>i < SIM_COUNT. (sIaPending (st_of z))[nat s := True] ! i \<longrightarrow> sIaCached (ia_store (st_of z)) ! i"
      using len assms(4) by (auto simp: wake_inv_def nth_list_update)
    then show ?thesis using step_unsol marked(1,2) assms(4) by (auto simp: wake_inv_def)
  qed
next
  case (step_cache src s n store' h')
  note m = cache_step_memory [OF assms(2) step_cache(2,3)]
  have "workable (st_of z) i" if "workable ((st_of z)\<lparr>ia_store := store'\<rparr>) i" for i
    using that assms(4) by (auto simp: workable_def wake_inv_def)
  then show ?thesis
    using assms(4) step_cache(1) m(5) by (auto simp: wake_inv_def)
qed (use assms(4) in \<open>auto simp: wake_inv_def workable_def\<close>)

section \<open>Rate\<close>

definition spaced :: "int list \<Rightarrow> bool" where
  "spaced ts \<longleftrightarrow> sorted_wrt (\<lambda>later earlier. earlier + REISSUE_MIN_INTERVAL_NS \<le> later) ts"

definition rate_inv :: "ia_sys \<Rightarrow> bool" where
  "rate_inv z \<longleftrightarrow> 0 \<le> elapsed z \<and> (\<not> clock_failed z \<longrightarrow> spaced (issued z)
     \<and> (sIaLastIssueValid (st_of z) \<longrightarrow> 0 \<le> timespecToNs (sIaLastIssue (st_of z))
          \<and> timespecToNs (sIaLastIssue (st_of z)) \<le> elapsed z)
     \<and> (\<forall>t \<in> set (issued z). sIaLastIssueValid (st_of z) \<and> t \<le> timespecToNs (sIaLastIssue (st_of z))))"

lemma readings_mono: "readings t rs t' \<Longrightarrow> t \<le> t'"
  by (induction t rs t' rule: readings.induct) auto

lemma charge_last [simp]:
  "sIaLastIssueValid (charge (Some t) st)" "sIaLastIssue (charge (Some t) st) = t"
  by (simp_all add: charge_def)

text \<open>A pass with a working clock charges what it tries, and tries only when the interval is over.\<close>

lemma pass_rate:
  assumes "pass (Some now) issuedAt (Some lastIssue) st h pc' st' h'"
  shows "(sIaLastIssueValid st' = sIaLastIssueValid st \<and> sIaLastIssue st' = sIaLastIssue st \<or>
      sIaLastIssueValid st' \<and> sIaLastIssue st' = lastIssue) \<and> (issuing pc' \<longrightarrow> sIaLastIssueValid st' \<and> sIaLastIssue st' = lastIssue
      \<and> (sIaLastIssueValid st \<longrightarrow> timespecToNs (sIaLastIssue st) + REISSUE_MIN_INTERVAL_NS \<le> timespecToNs now
          \<or> timespecToNs (sIaLastIssue st) + REISSUE_MIN_INTERVAL_NS = 0))"
  using assms by cases (auto simp: issuing_def due_def)

lemma rate_inv_worker:
  assumes inv: "rate_inv z" and st0: "released (st_of z) st0"
    and pass: "pass now issuedAt lastIssue st0 h pc' st' h'"
    and r: "readings (elapsed z) [afterWait, now, issuedAt, lastIssue] t'"
  shows "rate_inv (z\<lparr>pc_of := pc', st_of := st', heap_of := h', handed := False,
      issued := (if issuing pc' then timespecToNs (the now) # issued z else issued z), elapsed := t',
      clock_failed := clock_failed z \<or> None \<in> set [afterWait, now, issuedAt, lastIssue], signalled := False\<rparr>)"
proof (cases "clock_failed z \<or> None \<in> set [afterWait, now, issuedAt, lastIssue]")
  case True
  then show ?thesis using inv readings_mono [OF r] by (simp add: rate_inv_def)
next
  case False
  then obtain a n i l where some: "afterWait = Some a" "now = Some n" "issuedAt = Some i" "lastIssue = Some l"
    by (cases afterWait; cases now; cases issuedAt; cases lastIssue) auto
  then have order: "elapsed z \<le> timespecToNs n" "timespecToNs n \<le> timespecToNs l" "timespecToNs l \<le> t'"
    using r by auto
  have last: "sIaLastIssueValid st0 = sIaLastIssueValid (st_of z)" "sIaLastIssue st0 = sIaLastIssue (st_of z)"
    using st0 by (auto simp: released_def)
  note p = pass_rate [of n issuedAt l st0 h pc' st' h', folded some, OF pass, unfolded last]
  have z: "0 \<le> elapsed z" "spaced (issued z)" "sIaLastIssueValid (st_of z) \<Longrightarrow>
      0 \<le> timespecToNs (sIaLastIssue (st_of z)) \<and> timespecToNs (sIaLastIssue (st_of z)) \<le> elapsed z"
    "\<And>t. t \<in> set (issued z) \<Longrightarrow> sIaLastIssueValid (st_of z) \<and> t \<le> timespecToNs (sIaLastIssue (st_of z))"
    using inv False by (auto simp: rate_inv_def)
  have "0 < REISSUE_MIN_INTERVAL_NS" by (simp add: REISSUE_MIN_INTERVAL_NS_def)
  then have "t + REISSUE_MIN_INTERVAL_NS \<le> timespecToNs n" if "issuing pc'" "t \<in> set (issued z)" for t
    using p z(3) z(4) [OF that(2)] that(1) by linarith
  then have "spaced (if issuing pc' then timespecToNs (the now) # issued z else issued z)"
    using z(2) some by (simp add: spaced_def)
  moreover have "sIaLastIssueValid st' \<Longrightarrow> 0 \<le> timespecToNs (sIaLastIssue st') \<and> timespecToNs (sIaLastIssue st') \<le> t'"
    using p z order some by fastforce
  moreover have "sIaLastIssueValid st' \<and> t \<le> timespecToNs (sIaLastIssue st')"
    if "t \<in> set (if issuing pc' then timespecToNs (the now) # issued z else issued z)" for t
    using p z order some that by (fastforce split: if_splits)
  ultimately show ?thesis
    using False readings_mono [OF r] z(1) by (simp add: rate_inv_def)
qed

lemma rate_inv_frame:
  "rate_inv z \<Longrightarrow> elapsed z' = elapsed z \<Longrightarrow> issued z' = issued z \<Longrightarrow> clock_failed z' = clock_failed z \<Longrightarrow>
   sIaLastIssueValid (st_of z') = sIaLastIssueValid (st_of z) \<Longrightarrow> sIaLastIssue (st_of z') = sIaLastIssue (st_of z) \<Longrightarrow>
   rate_inv z'"
  by (simp add: rate_inv_def)

lemma rate_inv_step:
  assumes "ia_step pool z z'" "attach_inv z" "token_inv z" "rate_inv z"
  shows "rate_inv z'"
  using assms(1)
proof (cases rule: ia_step.cases)
  case (step_worker afterWait now issuedAt lastIssue t' pc' st' h')
  show ?thesis
  proof (rule worker_resume_cases [OF assms(2) step_worker(3,4)], goal_cases pass slept)
    case (pass st0)
    then show ?thesis using rate_inv_worker [OF assms(4) pass(1,5) step_worker(2)] step_worker(1) by simp
  next
    case slept
    then show ?thesis
      using assms(4) step_worker(1) readings_mono [OF step_worker(2)] by (auto simp: rate_inv_def issuing_def)
  qed
next
  case (step_sent outgoing k i pc' st' h')
  then have "st' = st_of z"
    using sent_memory [OF assms(2) step_sent(2), of None None None None] by auto
  then show ?thesis using step_sent(1) by (intro rate_inv_frame [OF assms(4)]) auto
next
  case (step_complete k e r l eff st')
  have "k < REISSUE_TOKEN_SLOTS" "attach_shape (st_of z)"
    using step_complete(2) assms(2,3) by (auto simp: token_inv_def attach_inv_def)
  then have "st' = with_token_done k (st_of z)" using completeHook_own step_complete(3) by fastforce
  then show ?thesis
    using step_complete(1) by (intro rate_inv_frame [OF assms(4)]) (auto simp: with_token_done_def Let_def)
next
  case (step_other_complete t e r l eff st')
  then have "st' = st_of z" using completeHook_foreign [of pool t e r l "st_of z"] by auto
  then show ?thesis using step_other_complete(1) by (intro rate_inv_frame [OF assms(4)]) auto
next
  case (step_unsol u d n s eff st')
  have "attach_shape (st_of z)" using assms(2) by (simp add: attach_inv_def)
  then have "sIaLastIssueValid st' = sIaLastIssueValid (st_of z) \<and> sIaLastIssue st' = sIaLastIssue (st_of z)"
    using step_unsol(2) by (cases rule: unsolHook_cases [of _ u d n s]) auto
  then show ?thesis using step_unsol(1) by (intro rate_inv_frame [OF assms(4)]) auto
qed (use rate_inv_frame [OF assms(4)] in auto)

section \<open>Every reachable state\<close>

lemma reach_all:
  assumes "ia_reach pool z" shows "attach_inv z \<and> token_inv z \<and> payload_inv z \<and> wake_inv z \<and> rate_inv z"
  using assms
proof (induction rule: ia_reach.induct)
  case (reach_init h t)
  then show ?case
    using cache_inv_init [OF reach_init(1)]
    by (auto simp: attach_inv_def attach_shape_def outgoing_of_def token_inv_def about_to_send_def payload_inv_def
        wake_inv_def rate_inv_def spaced_def ia_state0_def ia_cache0_def)
next
  case (reach_step z z')
  then have "held z \<subseteq> {..<REISSUE_TOKEN_SLOTS}" by (simp add: token_inv_def)
  with reach_step show ?case
    using attach_inv_step token_inv_step payload_inv_step wake_inv_step rate_inv_step by blast
qed

text \<open>
  A run: the hooks are switched on, the framework sets a payload for socket 0, the vendor library asks for
  it again, and the worker hands it over.
\<close>

definition run_ia :: MtkInitialAttachApn where
  "run_ia = zero_ia\<lparr>ia_authtype := 3\<rparr>"

definition run_start :: ia_sys where
  "run_start = \<lparr>pc_of = Enter, st_of = ia_state0, heap_of = sample_heap, held = {}, handed = False, requested = [],
      resent = [], issued = [], elapsed = 0, clock_failed = False, signalled = False\<rparr>"

definition run_cached :: ia_state where
  "run_cached = ia_state0\<lparr>ia_store := \<lparr>sIaCache = [run_ia, zero_ia], sIaCached = [True, False]\<rparr>,
     sIaHookState := IA_HOOKS_ACTIVE, sRealOnUnsol := 8, sRealOnComplete := 16\<rparr>"

definition run_issued :: ia_state where
  "run_issued = run_cached\<lparr>sIaPending := [False, False], sIaRequestInFlight := True, sIaCurrentTokenIndex := 1,
     sIaTokenOutstanding := (replicate 16 False)[1 := True], sIaInFlightDeadlineNs := 15000000000,
     sIaLastIssueValid := True, sIaLastIssue := \<lparr>tv_sec = 5, tv_nsec = 0\<rparr>, sIaNextSocket := 1\<rparr>"

definition run_sending :: ia_sys where
  "run_sending = run_start\<lparr>pc_of := Issue run_ia 1 0, st_of := run_issued, held := {1}, handed := True,
     requested := [(0, payload_of sample_heap run_ia)], resent := [(0, 1, payload_of sample_heap run_ia)],
     issued := [5000000000], elapsed := 5000000000\<rparr>"

lemma replicate_sim: "replicate 2 x = [x, x]"
  by (simp add: numeral_2_eq_2)

lemma run_copy: "copyIa run_ia h = Some (True, run_ia, h)"
  by (simp add: copyIa_def run_ia_def zero_ia_def dupOrNull_def)

lemma run_cache:
  "cacheInitialAttachApn 0 (Some run_ia) APN_SIZE ia_cache0 h
     = Some (\<lparr>sIaCache = [run_ia, zero_ia], sIaCached = [True, False]\<rparr>, h)"
  by (simp add: cacheInitialAttachApn_def run_copy ia_cache0_def SIM_COUNT_def eval_nat_numeral)

lemma run_worker:
  fixes h :: heap
  defines "t \<equiv> Some \<lparr>tv_sec = 5, tv_nsec = 0\<rparr>"
  shows "worker_resume t t t t Enter (run_cached\<lparr>sIaPending := [True, False]\<rparr>) h = Some (Issue run_ia 1 0, run_issued, h)"
proof -
  define st where "st = run_cached\<lparr>sIaPending := [True, False]\<rparr>"
  have st: "\<not> sIaRequestInFlight st" "\<not> sIaLastIssueValid st" "pick_socket st 0 = Some (Some 0)"
    by (simp_all add: st_def run_cached_def ia_state0_def SIM_COUNT_def pick_socket.simps [of _ 0])
  have tok: "pick_token st (Suc 0) = Some (Some 1)"
    by (subst pick_token.simps) (simp add: st_def run_cached_def ia_state0_def REISSUE_TOKEN_SLOTS_def)
  have "worker_resume t t t t Enter st h = issue_pass 0 t t st h"
    using st by (simp add: worker_resume_def worker_head.simps [of _ _ _ st] due_pass_def t_def)
  also have "\<dots> = Some (Issue run_ia 1 0, run_issued, h)"
    unfolding issue_pass_def One_nat_def tok
    by (simp add: run_copy run_cached_def run_issued_def ia_state0_def SIM_COUNT_def st_def
        REISSUE_TOKEN_SLOTS_def charge_def t_def REISSUE_INFLIGHT_TIMEOUT_NS_def timespecToNs_def)
  finally show ?thesis by (simp add: st_def)
qed

lemma run_reached: "ia_reach pool run_sending"
proof -
  let ?on = "ia_state0\<lparr>sIaHookState := IA_HOOKS_ACTIVE, sRealOnUnsol := 8, sRealOnComplete := 16\<rparr>"
  let ?p = "payload_of sample_heap run_ia" and ?t = "Some \<lparr>tv_sec = 5, tv_nsec = 0\<rparr>"
  let ?cached = "run_start\<lparr>st_of := run_cached, requested := [(0, ?p)]\<rparr>"
  let ?asked = "?cached\<lparr>st_of := run_cached\<lparr>sIaPending := [True, False]\<rparr>, signalled := True\<rparr>"
  let ?issued = "?cached\<lparr>pc_of := Issue run_ia 1 0, st_of := run_issued, issued := [5000000000], elapsed := 5000000000\<rparr>"
  have "ia_reach pool run_start"
    unfolding run_start_def using sample_ok(1) by (intro reach_init) simp_all
  then have 1: "ia_reach pool (run_start\<lparr>st_of := ?on\<rparr>)"
    using step_hooks [where pool = pool and z = run_start and x = IA_HOOKS_ACTIVE and a = 8 and b = 16] reach_step by (fastforce simp: run_start_def)
  have 2: "ia_reach pool ?cached"
    using step_cache [where pool = pool and src = run_ia and z = "run_start\<lparr>st_of := ?on\<rparr>" and s = 0 and n = APN_SIZE] run_cache
    by (intro reach_step [OF 1])
      (fastforce simp: run_start_def run_cached_def ia_state0_def owned_def strings_def run_ia_def zero_ia_def)
  have "unsolHook RIL_UNSOL_RESET_ATTACH_APN 0 0 0 run_cached
      = Some ([SignalWake, CallUnsol 8 RIL_UNSOL_RESET_ATTACH_APN 0 0 0], run_cached\<lparr>sIaPending := [True, False]\<rparr>)"
    by (simp add: unsolHook_def run_cached_def ia_state0_def attachApnHooksActive_def replicate_sim SIM_COUNT_def)
  then have 3: "ia_reach pool ?asked"
    using step_unsol [where pool = pool and u = RIL_UNSOL_RESET_ATTACH_APN and d = 0 and n = 0 and s = 0 and z = ?cached]
    by (intro reach_step [OF 2]) (fastforce simp: run_start_def)
  have "ia_step pool ?asked ?issued"
    using step_worker [where pool = pool and z = ?asked and afterWait = ?t and now = ?t and issuedAt = ?t and lastIssue = ?t
        and t' = 5000000000 and pc' = "Issue run_ia 1 0" and st' = run_issued and h' = sample_heap]
      run_worker [of sample_heap]
    by (simp add: run_start_def issuing_def timespecToNs_def)
  then have 4: "ia_reach pool ?issued" using 3 reach_step by blast
  have "ia_step pool ?issued run_sending"
    using step_send [where pool = pool and z = ?issued and outgoing = run_ia and k = 1 and i = 0] by (simp add: run_start_def run_sending_def)
  then show ?thesis using 4 reach_step by blast
qed

text \<open>
  The run goes on: the worker waits for the completion, which comes, the vendor library asks again, and the
  next request leaves a second after the first.
\<close>

definition run_waiting :: ia_sys where
  "run_waiting = run_sending\<lparr>pc_of := CondTimedWait \<lparr>tv_sec = 15, tv_nsec = 0\<rparr>, handed := False\<rparr>"

definition run_again :: ia_state where
  "run_again = run_issued\<lparr>sIaPending := [True, False], sIaRequestInFlight := False, sIaInFlightDeadlineNs := 0,
     sIaTokenOutstanding := replicate 16 False\<rparr>"

definition run_second :: ia_sys where
  "run_second = run_waiting\<lparr>pc_of := Issue run_ia 2 0, st_of := run_issued\<lparr>sIaCurrentTokenIndex := 2,
       sIaTokenOutstanding := (replicate 16 False)[2 := True], sIaInFlightDeadlineNs := 16000000000,
       sIaLastIssue := \<lparr>tv_sec = 6, tv_nsec = 0\<rparr>\<rparr>, held := {},
     issued := [6000000000, 5000000000], elapsed := 6000000000\<rparr>"

lemma run_waits: "ia_reach pool run_waiting"
proof -
  let ?t = "Some \<lparr>tv_sec = 5, tv_nsec = 0\<rparr>"
  have "worker_resume None None None None (Issue run_ia 1 0) run_issued sample_heap = Some (Enter, run_issued, sample_heap)"
    by (simp add: worker_resume_def freeIaStrings_def free_def freeSecret_def run_ia_def zero_ia_def)
  then have "ia_step pool run_sending (run_sending\<lparr>pc_of := Enter\<rparr>)"
    using step_sent [where pool = pool and z = run_sending and outgoing = run_ia and k = 1 and i = 0
        and pc' = Enter and st' = run_issued and h' = sample_heap]
    by (simp add: run_sending_def run_start_def)
  then have r: "ia_reach pool (run_sending\<lparr>pc_of := Enter\<rparr>)" using run_reached reach_step by blast
  have "worker_resume ?t ?t ?t ?t Enter run_issued sample_heap
      = Some (CondTimedWait \<lparr>tv_sec = 15, tv_nsec = 0\<rparr>, run_issued, sample_heap)"
    by (simp add: worker_resume_def worker_head.simps [of _ _ _ run_issued])
      (simp add: run_issued_def nsToTimespec_def signed_divide_int_def signed_modulo_int_def)
  then have "ia_step pool (run_sending\<lparr>pc_of := Enter\<rparr>) run_waiting"
    using step_worker [where pool = pool and z = "run_sending\<lparr>pc_of := Enter\<rparr>" and afterWait = ?t and now = ?t
        and issuedAt = ?t and lastIssue = ?t and t' = 5000000000 and st' = run_issued and h' = sample_heap
        and pc' = "CondTimedWait \<lparr>tv_sec = 15, tv_nsec = 0\<rparr>"]
    by (simp add: run_sending_def run_start_def run_waiting_def issuing_def timespecToNs_def)
  then show ?thesis using r reach_step by blast
qed

lemma run_second_worker:
  fixes h :: heap and d :: timespec
  defines "t \<equiv> Some \<lparr>tv_sec = 6, tv_nsec = 0\<rparr>"
  shows "worker_resume t t t t (CondTimedWait d) run_again h = Some (Issue run_ia 2 0, st_of run_second, h)"
proof -
  have st: "\<not> sIaRequestInFlight run_again" "pick_socket run_again 0 = Some (Some 0)"
    by (simp_all add: run_again_def run_issued_def run_cached_def ia_state0_def SIM_COUNT_def pick_socket.simps [of _ 0]
        pick_socket.simps [of _ "Suc 0"])
  have tok: "pick_token run_again (Suc 0) = Some (Some 2)"
    by (subst pick_token.simps) (simp add: run_again_def run_issued_def REISSUE_TOKEN_SLOTS_def numeral_2_eq_2)
  have "worker_resume t t t t (CondTimedWait d) run_again h = worker_head t t t run_again h"
    using st by (simp add: worker_resume_def worker_timed_def)
  also have "\<dots> = issue_pass 0 t t run_again h"
    using st by (simp add: worker_head.simps [of _ _ _ run_again] due_pass_def t_def)
      (simp add: run_again_def run_issued_def timespecToNs_def REISSUE_MIN_INTERVAL_NS_def)
  also have "\<dots> = Some (Issue run_ia 2 0, st_of run_second, h)"
    unfolding issue_pass_def One_nat_def tok
    by (simp add: run_copy run_again_def run_issued_def run_cached_def run_second_def ia_state0_def SIM_COUNT_def
        charge_def t_def REISSUE_INFLIGHT_TIMEOUT_NS_def timespecToNs_def)
  finally show ?thesis .
qed

lemma run_on: "ia_reach pool run_second"
proof -
  let ?t = "Some \<lparr>tv_sec = 6, tv_nsec = 0\<rparr>"
  let ?done = "run_again\<lparr>sIaPending := [False, False]\<rparr>"
  let ?completed = "run_waiting\<lparr>st_of := ?done, held := {}, signalled := True\<rparr>"
  have "attach_shape run_issued"
    by (simp add: attach_shape_def run_issued_def run_cached_def SIM_COUNT_def REISSUE_TOKEN_SLOTS_def)
  moreover have "(replicate 16 False)[Suc 0 := False] = replicate 16 False"
    by (simp add: list_update_same_conv)
  ultimately have "completeHook pool (REISSUE_TOKEN_AT pool 1) 0 0 0 run_issued = Some ([SignalWake], ?done)"
    by (subst completeHook_own)
      (simp_all add: REISSUE_TOKEN_SLOTS_def with_token_done_def run_issued_def run_again_def run_cached_def
        ia_state0_def)
  then have "ia_step pool run_waiting ?completed"
    using step_complete [where pool = pool and z = run_waiting and k = 1 and e = 0 and r = 0 and l = 0]
    by (fastforce simp: run_waiting_def run_sending_def run_start_def)
  then have 1: "ia_reach pool ?completed" using run_waits reach_step by blast
  have "unsolHook RIL_UNSOL_RESET_ATTACH_APN 0 0 0 ?done
      = Some ([SignalWake, CallUnsol 8 RIL_UNSOL_RESET_ATTACH_APN 0 0 0], run_again)"
    by (simp add: unsolHook_def run_again_def run_issued_def run_cached_def attachApnHooksActive_def SIM_COUNT_def)
  then have "ia_step pool ?completed (?completed\<lparr>st_of := run_again, signalled := True\<rparr>)"
    using step_unsol [where pool = pool and u = RIL_UNSOL_RESET_ATTACH_APN and d = 0 and n = 0 and s = 0 and z = ?completed
        and st' = run_again and eff = "[SignalWake, CallUnsol 8 RIL_UNSOL_RESET_ATTACH_APN 0 0 0]"]
    by simp
  then have 2: "ia_reach pool (?completed\<lparr>st_of := run_again, signalled := True\<rparr>)" using 1 reach_step by blast
  have "ia_step pool (?completed\<lparr>st_of := run_again, signalled := True\<rparr>) run_second"
    using step_worker [where pool = pool and z = "?completed\<lparr>st_of := run_again, signalled := True\<rparr>" and afterWait = ?t and now = ?t
        and issuedAt = ?t and lastIssue = ?t and t' = 6000000000 and pc' = "Issue run_ia 2 0"
        and st' = "st_of run_second" and h' = sample_heap]
      run_second_worker [of _ sample_heap]
    by (simp add: run_waiting_def run_sending_def run_start_def run_second_def issuing_def timespecToNs_def)
  then show ?thesis using 2 reach_step by blast
qed

section \<open>Properties\<close>

text \<open>C32: In every reachable state, whatever the clock, the allocator, the vendor library and the framework do,
  each entry point of the attach-APN part returns: no array is left, no released or unterminated string is
  read, and no block is released twice.\<close>

theorem attach_never_faults:
  assumes "ia_reach pool z"
  shows "worker_resume afterWait now issuedAt lastIssue (pc_of z) (st_of z) (heap_of z) \<noteq> None
    \<and> completeHook pool t e response responselen (st_of z) \<noteq> None
    \<and> unsolHook u data datalen socketId (st_of z) \<noteq> None
    \<and> ((\<forall>p \<in> set (owned src). readable (heap_of z) p) \<longrightarrow>
      cacheInitialAttachApn socketId (Some src) n (ia_store (st_of z)) (heap_of z) \<noteq> None)"
proof (intro conjI impI)
  have inv: "attach_inv z" using reach_all [OF assms] by simp
  then have st: "attach_shape (st_of z)" "cache_inv (ia_store (st_of z)) (heap_of z)"
    by (simp_all add: attach_inv_def)
  show "worker_resume afterWait now issuedAt lastIssue (pc_of z) (st_of z) (heap_of z) \<noteq> None"
    using worker_resume_ends [OF st, of "pc_of z" afterWait now issuedAt lastIssue] sent_memory [OF inv]
    by (fastforce simp: issuing_def)
  show "completeHook pool t e response responselen (st_of z) \<noteq> None"
  proof (cases "isReissueToken pool t")
    case True
    then show ?thesis using completeHook_own [OF st(1)] by (auto simp: isReissueToken_iff)
  next
    case False
    then show ?thesis using completeHook_foreign [of pool t e response responselen "st_of z"] by auto
  qed
  show "unsolHook u data datalen socketId (st_of z) \<noteq> None"
    by (rule unsolHook_cases [OF st(1), of u data datalen socketId]) auto
  show "cacheInitialAttachApn socketId (Some src) n (ia_store (st_of z)) (heap_of z) \<noteq> None"
    if "\<forall>p \<in> set (owned src). readable (heap_of z) p"
    by (rule cacheInitialAttachApn_cases [OF st(2), of "Some src" socketId n]) (use that in auto)
qed

theorem attach_never_faults_witness:
  "worker_resume None None None None (pc_of run_sending) (st_of run_sending) (heap_of run_sending) \<noteq> None
   \<and> completeHook 4096 (REISSUE_TOKEN_AT 4096 1) 0 0 0 (st_of run_sending) \<noteq> None
   \<and> cacheInitialAttachApn 1 (Some sample_ia) APN_SIZE (ia_store (st_of run_sending)) (heap_of run_sending) \<noteq> None"
proof -
  have "heap_of run_sending = sample_heap" by (simp add: run_sending_def run_start_def)
  then show ?thesis
    using attach_never_faults [OF run_reached [of 4096], of None None None None "REISSUE_TOKEN_AT 4096 1" 0 0 0 0 0 0 1 sample_ia APN_SIZE]
      sample_ok(3) by simp
qed

text \<open>C1: In every reachable state a token of the pool is reserved exactly while the vendor library holds it or
  the worker is about to hand it over, so a request never carries a token the vendor library still holds, however late
  completions arrive; and while a request counts as in flight, its token is reserved.\<close>

theorem token_exclusive:
  assumes "ia_reach pool z"
  shows "(\<forall>k < REISSUE_TOKEN_SLOTS. sIaTokenOutstanding (st_of z) ! k \<longleftrightarrow> k \<in> held z \<or> about_to_send z k)
    \<and> (\<forall>outgoing k i. pc_of z = Issue outgoing k i \<and> \<not> handed z \<longrightarrow> k < REISSUE_TOKEN_SLOTS \<and> k \<notin> held z)
    \<and> (sIaRequestInFlight (st_of z) \<longrightarrow> sIaTokenOutstanding (st_of z) ! sIaCurrentTokenIndex (st_of z))"
  using reach_all [OF assms] by (auto simp: token_inv_def about_to_send_def)

theorem token_exclusive_witness:
  "sIaTokenOutstanding (st_of run_sending) ! 1 \<and> 1 \<in> held run_sending \<and> \<not> sIaTokenOutstanding (st_of run_sending) ! 2"
  using token_exclusive [OF run_reached [of 4096]]
  by (auto simp: REISSUE_TOKEN_SLOTS_def run_sending_def run_start_def about_to_send_def)

text \<open>C33: Every payload the shim re-sends for a socket is one the framework itself set for that socket, string for
  string: nothing is altered, mixed between sockets or read after release on the way.\<close>

theorem resent_payloads:
  assumes "ia_reach pool z" "(i, k, p) \<in> set (resent z)"
  shows "(i, p) \<in> set (requested z)"
  using reach_all [OF assms(1)] assms(2) unfolding payload_inv_def by blast

theorem resent_payloads_witness: "(0, payload_of sample_heap run_ia) \<in> set (requested run_sending)"
  using resent_payloads [OF run_reached [of 4096], of 0 1 "payload_of sample_heap run_ia"]
  by (simp add: run_sending_def)

text \<open>C9: As long as the monotonic clock can be read, any two requests the worker issues are at least one interval
  apart, whatever the vendor library signals and whichever attempts fail in between.\<close>

theorem reissue_rate:
  assumes "ia_reach pool z" "\<not> clock_failed z" "a < b" "b < length (issued z)"
  shows "issued z ! b + REISSUE_MIN_INTERVAL_NS \<le> issued z ! a"
  using reach_all [OF assms(1)] assms(2-4) by (simp add: rate_inv_def spaced_def sorted_wrt_iff_nth_less)

theorem reissue_rate_witness: "issued run_second ! 1 + REISSUE_MIN_INTERVAL_NS \<le> issued run_second ! 0"
  using reissue_rate [OF run_on [of 4096], of 0 1]
  by (simp add: run_second_def run_waiting_def run_sending_def run_start_def)

text \<open>C11: No wake-up is lost. While the worker waits without a deadline, a payload to re-send implies that it has been
  signalled since; while it waits for a completion, it waits for exactly the deadline latched at the issue, or has been
  signalled, so a storm of indications cannot extend the wait.\<close>

theorem no_lost_wakeup:
  assumes "ia_reach pool z"
  shows "(pc_of z = CondWait \<and> (\<exists>i < SIM_COUNT. sIaPending (st_of z) ! i) \<longrightarrow> signalled z)
    \<and> (\<forall>d. pc_of z = CondTimedWait d \<longrightarrow> signalled z \<or>
         sIaRequestInFlight (st_of z) \<and> d = nsToTimespec (sIaInFlightDeadlineNs (st_of z)))"
  using reach_all [OF assms] by (auto simp: wake_inv_def workable_def)

theorem no_lost_wakeup_witness:
  "signalled run_waiting \<or> \<lparr>tv_sec = 15, tv_nsec = 0\<rparr> = nsToTimespec (sIaInFlightDeadlineNs (st_of run_waiting))"
  using no_lost_wakeup [OF run_waits [of 4096]] by (auto simp: run_waiting_def)

text \<open>C34: When the wait for a completion ends at or after the latched deadline, the worker gives the in-flight slot up
  in that very pass. The token of the overdue request stays reserved, and a request issued in the same pass carries
  another one.\<close>

theorem slot_timeout:
  assumes "ia_reach pool z" "pc_of z = CondTimedWait d" "sIaRequestInFlight (st_of z)"
    "sIaInFlightDeadlineNs (st_of z) \<le> timespecToNs t"
  shows "\<exists>pc' st' h'. worker_resume (Some t) now issuedAt lastIssue (pc_of z) (st_of z) (heap_of z) = Some (pc', st', h')
    \<and> sIaTokenOutstanding st' ! sIaCurrentTokenIndex (st_of z)
    \<and> (sIaRequestInFlight st' \<longrightarrow> (\<exists>outgoing k i. pc' = Issue outgoing k i \<and> k \<noteq> sIaCurrentTokenIndex (st_of z)))"
proof -
  let ?st1 = "after_timed_wait (Some t) (st_of z)"
  have inv: "attach_inv z" "token_inv z" using reach_all [OF assms(1)] by auto
  have st1: "\<not> sIaRequestInFlight ?st1" "sIaTokenOutstanding ?st1 = sIaTokenOutstanding (st_of z)"
    using assms(3,4) by (auto simp: after_timed_wait_def)
  have "attach_shape ?st1" "cache_inv (ia_store ?st1) (heap_of z)"
    using released_shape [OF after_timed_wait_released] inv(1) by (auto simp: attach_inv_def)
  then obtain st0 pc' st' h' where r: "worker_head now issuedAt lastIssue ?st1 (heap_of z) = Some (pc', st', h')"
    "released ?st1 st0" "pass now issuedAt lastIssue st0 (heap_of z) pc' st' h'" "attach_shape st0"
    using worker_head_ends [of ?st1 "heap_of z" now issuedAt lastIssue] released_shape(1) by blast
  have st0: "\<not> sIaRequestInFlight st0" "sIaTokenOutstanding st0 = sIaTokenOutstanding (st_of z)"
    using r(2) st1 by (auto simp: released_def)
  have cur: "sIaTokenOutstanding (st_of z) ! sIaCurrentTokenIndex (st_of z)"
    using inv(2) assms(3) by (simp add: token_inv_def)
  have "worker_resume (Some t) now issuedAt lastIssue (pc_of z) (st_of z) (heap_of z) = Some (pc', st', h')"
    using r(1) assms(2) by (simp add: worker_resume_def worker_timed_head)
  moreover have "sIaTokenOutstanding st' ! sIaCurrentTokenIndex (st_of z)
    \<and> (sIaRequestInFlight st' \<longrightarrow> (\<exists>outgoing k i. pc' = Issue outgoing k i \<and> k \<noteq> sIaCurrentTokenIndex (st_of z)))"
  proof (cases "issuing pc'")
    case True
    then obtain outgoing k i where pc': "pc' = Issue outgoing k i" by (auto simp: issuing_def)
    then have "\<not> sIaTokenOutstanding st0 ! k" "sIaTokenOutstanding st' = (sIaTokenOutstanding st0)[k := True]"
      using pass_tokens [OF r(3,4)] by auto
    then show ?thesis using cur st0 pc' by (metis nth_list_update_neq)
  next
    case False
    then show ?thesis using pass_tokens [OF r(3,4)] cur st0 by auto
  qed
  ultimately show ?thesis by blast
qed

theorem slot_timeout_witness:
  "\<exists>pc' st' h'. worker_resume (Some \<lparr>tv_sec = 15, tv_nsec = 0\<rparr>) None None None (pc_of run_waiting) (st_of run_waiting)
      (heap_of run_waiting) = Some (pc', st', h') \<and> sIaTokenOutstanding st' ! 1"
  using slot_timeout [OF run_waits [of 4096], of "\<lparr>tv_sec = 15, tv_nsec = 0\<rparr>" "\<lparr>tv_sec = 15, tv_nsec = 0\<rparr>" None None None]
  by (auto simp: run_waiting_def run_sending_def run_issued_def timespecToNs_def)

text \<open>C37: For every reading of the monotonic clock within 272 years of start-up, the nanosecond arithmetic of the shim
  stays inside a signed 64-bit integer, deadlines included, and converting to nanoseconds and back loses nothing.\<close>

theorem time_roundtrip:
  assumes "0 \<le> tv_sec t" "tv_sec t < 2 ^ 33" "0 \<le> tv_nsec t" "tv_nsec t < 1000000000"
  shows "nsToTimespec (timespecToNs t) = t \<and> 0 \<le> timespecToNs t
    \<and> timespecToNs t + REISSUE_MIN_INTERVAL_NS < 2 ^ 63 \<and> timespecToNs t + REISSUE_INFLIGHT_TIMEOUT_NS < 2 ^ 63"
proof -
  have ns: "0 \<le> timespecToNs t" using assms by (simp add: timespecToNs_def)
  then have "timespecToNs t sdiv 1000000000 = timespecToNs t div 1000000000"
    "timespecToNs t smod 1000000000 = timespecToNs t mod 1000000000"
    by (simp_all add: signed_divide_int_def signed_modulo_int_def sgn_if)
  moreover have "timespecToNs t div 1000000000 = tv_sec t" "timespecToNs t mod 1000000000 = tv_nsec t"
    using assms by (simp_all add: timespecToNs_def)
  ultimately have "timespecToNs t sdiv 1000000000 = tv_sec t" "timespecToNs t smod 1000000000 = tv_nsec t"
    by simp_all
  then show ?thesis
    using ns assms by (simp add: nsToTimespec_def timespecToNs_def REISSUE_MIN_INTERVAL_NS_def REISSUE_INFLIGHT_TIMEOUT_NS_def)
qed

theorem time_roundtrip_witness: "nsToTimespec (timespecToNs \<lparr>tv_sec = 7, tv_nsec = 999999999\<rparr>) = \<lparr>tv_sec = 7, tv_nsec = 999999999\<rparr>"
  using time_roundtrip [of "\<lparr>tv_sec = 7, tv_nsec = 999999999\<rparr>"] by simp

end
