(* ===== verification/Process.thy ===== *)
theory Process
  imports Wmt_Protocol
begin

text \<open>
  The memory of the process that \<open>ril-shim/k50sv1_ril_shim.c\<close> patches: bytes, the mappings with their
  protections, and the kernel calls on them. Reading or writing an address without the permission, which
  ends the process, has no result. The mappings are what \<open>/proc/self/maps\<close> lists. Which of the coming
  kernel calls are refused is a list of booleans; when it is used up none is.
\<close>

definition PROT_NONE :: int where "PROT_NONE = 0"
definition PROT_READ :: int where "PROT_READ = 1"
definition PROT_WRITE :: int where "PROT_WRITE = 2"
definition PROT_EXEC :: int where "PROT_EXEC = 4"

type_synonym addr = u64
type_synonym mapping = "addr \<times> addr \<times> int"

record process =
  ram :: "addr \<Rightarrow> byte"
  maps :: "mapping list"
  refused :: "bool list"

fun prot_at :: "mapping list \<Rightarrow> addr \<Rightarrow> int option" where
  "prot_at [] a = None"
| "prot_at ((s, e, pr) # ms) a = (if s \<le> a \<and> a < e then Some pr else prot_at ms a)"

definition can :: "int \<Rightarrow> process \<Rightarrow> addr \<Rightarrow> bool" where
  "can right p a = (case prot_at (maps p) a of Some pr \<Rightarrow> pr AND right \<noteq> 0 | None \<Rightarrow> False)"

definition span :: "addr \<Rightarrow> nat \<Rightarrow> addr list" where
  "span a n = map (\<lambda>i. a + of_nat i) [0..<n]"

definition peek :: "process \<Rightarrow> addr \<Rightarrow> nat \<Rightarrow> bytes option" where
  "peek p a n = (if list_all (can PROT_READ p) (span a n) then Some (map (ram p) (span a n)) else None)"

definition poke :: "process \<Rightarrow> addr \<Rightarrow> bytes \<Rightarrow> process option" where
  "poke p a b =
     (if list_all (can PROT_WRITE p) (span a (length b))
      then Some (p\<lparr>ram := fold (\<lambda>(x, v) m. m(x := v)) (zip (span a (length b)) b) (ram p)\<rparr>) else None)"

definition peek64 :: "process \<Rightarrow> addr \<Rightarrow> u64 option" where
  "peek64 p a = do { b \<leftarrow> peek p a 8; read64 b 0 }"

definition peek32 :: "process \<Rightarrow> addr \<Rightarrow> u32 option" where
  "peek32 p a = do { b \<leftarrow> peek p a 4; read32 b 0 }"

definition poke64 :: "process \<Rightarrow> addr \<Rightarrow> u64 \<Rightarrow> process option" where
  "poke64 p a v = poke p a (le64 v)"

text \<open>The effect of \<open>mprotect\<close> on the mappings: each is cut at the ends of the range.\<close>

fun protect :: "mapping list \<Rightarrow> addr \<Rightarrow> addr \<Rightarrow> int \<Rightarrow> mapping list" where
  "protect [] lo hi new = []"
| "protect ((s, e, pr) # ms) lo hi new =
     (s, min e lo, pr) # (max s lo, min e hi, new) # (max s hi, e, pr) # protect ms lo hi new"

definition kernel_refuses :: "process \<Rightarrow> bool \<times> process" where
  "kernel_refuses p = (case refused p of [] \<Rightarrow> (False, p) | r # rs \<Rightarrow> (r, p\<lparr>refused := rs\<rparr>))"

definition mprotect :: "addr \<Rightarrow> u64 \<Rightarrow> int \<Rightarrow> process \<Rightarrow> int \<times> process" where
  "mprotect page len prot p = (let (no, p) = kernel_refuses p in
     if no then (- 1, p) else (0, p\<lparr>maps := protect (maps p) page (page + len) prot\<rparr>))"

text \<open>The lines of \<open>/proc/self/maps\<close> as \<open>sscanf\<close> splits them; \<^term>\<open>None\<close> stands for a line it does not match.\<close>

type_synonym maps_line = "(addr \<times> addr \<times> string) option"

definition perms_of :: "int \<Rightarrow> string" where
  "perms_of pr = [if pr AND PROT_READ \<noteq> 0 then CHR ''r'' else CHR ''-'', if pr AND PROT_WRITE \<noteq> 0 then CHR ''w'' else CHR ''-'',
     if pr AND PROT_EXEC \<noteq> 0 then CHR ''x'' else CHR ''-'', CHR ''p'']"

definition maps_text :: "mapping list \<Rightarrow> maps_line list" where
  "maps_text ms = map (\<lambda>(s, e, pr). Some (s, e, perms_of pr)) ms"

fun mappingProt_lines :: "addr \<Rightarrow> maps_line list \<Rightarrow> int" where
  "mappingProt_lines addr [] = - 1"
| "mappingProt_lines addr (None # lines) = mappingProt_lines addr lines"
| "mappingProt_lines addr (Some (start, stop, perms) # lines) =
     (if addr < start \<or> addr \<ge> stop then mappingProt_lines addr lines
      else (let prot = PROT_NONE;
                prot = (if rd perms 0 = Some CHR ''r'' then prot OR PROT_READ else prot);
                prot = (if rd perms 1 = Some CHR ''w'' then prot OR PROT_WRITE else prot);
                prot = (if rd perms 2 = Some CHR ''x'' then prot OR PROT_EXEC else prot)
            in prot))"

definition mappingProt :: "addr \<Rightarrow> process \<Rightarrow> int \<times> process" where
  "mappingProt addr p = (let (no, p) = kernel_refuses p in
     if no then (- 1, p) else (mappingProt_lines addr (maps_text (maps p)), p))"

section \<open>Lemmas\<close>

lemma prot_at_protect [simp]:
  "prot_at (protect ms lo hi new) a = map_option (\<lambda>pr. if lo \<le> a \<and> a < hi then new else pr) (prot_at ms a)"
  by (induction ms lo hi new rule: protect.induct) (auto simp: min_def max_def)

definition proper :: "mapping list \<Rightarrow> bool" where
  "proper ms \<longleftrightarrow> (\<forall>(s, e, pr) \<in> set ms. 0 \<le> pr \<and> pr < 8)"

lemma perms_roundtrip:
  assumes "0 \<le> pr" "pr < 8"
  shows "mappingProt_lines a (Some (s, e, perms_of pr) # ls) = (if s \<le> a \<and> a < e then pr else mappingProt_lines a ls)"
proof -
  have "pr \<in> {0, 1, 2, 3, 4, 5, 6, 7}" using assms by auto
  then show ?thesis
    by (auto simp: perms_of_def PROT_NONE_def PROT_READ_def PROT_WRITE_def PROT_EXEC_def)
qed

lemma mappingProt_lines_text:
  "proper ms \<Longrightarrow> mappingProt_lines a (maps_text ms) = (case prot_at ms a of Some pr \<Rightarrow> pr | None \<Rightarrow> - 1)"
proof (induction ms a rule: prot_at.induct)
  case (2 s e pr ms a)
  then show ?case
    using perms_roundtrip [of pr a s e] by (auto simp: maps_text_def proper_def)
qed (simp add: maps_text_def)

lemma proper_protect: "proper ms \<Longrightarrow> 0 \<le> new \<Longrightarrow> new < 8 \<Longrightarrow> proper (protect ms lo hi new)"
  by (induction ms lo hi new rule: protect.induct) (auto simp: proper_def)

lemma proper_prot_at: "proper ms \<Longrightarrow> prot_at ms a = Some pr \<Longrightarrow> 0 \<le> pr \<and> pr < 8"
  by (induction ms a rule: prot_at.induct) (auto simp: proper_def split: if_splits)

lemma fold_upd_other: "a \<notin> set xs \<Longrightarrow> fold (\<lambda>(x, v) m. m(x := v)) (zip xs vs) m a = m a"
  by (induction xs arbitrary: vs m) (auto simp: zip_Cons1 split: list.split)

lemma fold_upd_map:
  "distinct xs \<Longrightarrow> length vs = length xs \<Longrightarrow> map (fold (\<lambda>(x, v) m. m(x := v)) (zip xs vs) m) xs = vs"
proof (induction xs arbitrary: vs m)
  case (Cons x xs)
  then obtain v vs' where "vs = v # vs'" by (cases vs) auto
  with Cons show ?case
    using fold_upd_other [of x xs vs' "m(x := v)"] by (simp del: fun_upd_apply) simp
qed simp

lemma length_span [simp]: "length (span a n) = n"
  by (simp add: span_def)

lemma distinct_span: "n \<le> 2 ^ 64 \<Longrightarrow> distinct (span a n)"
proof -
  assume n: "n \<le> 2 ^ 64"
  have "inj_on (\<lambda>i. a + of_nat i :: addr) {0..<n}"
  proof (rule inj_onI)
    fix i j assume ij: "i \<in> {0..<n}" "j \<in> {0..<n}" and eq: "a + of_nat i = a + of_nat j"
    then have "(of_nat i :: addr) = of_nat j" by simp
    moreover have "i < 2 ^ LENGTH(64)" "j < 2 ^ LENGTH(64)" using ij n by auto
    ultimately show "i = j" by (metis mod_less unat_of_nat)
  qed
  then show ?thesis by (simp add: span_def distinct_map)
qed

lemma poke_peek:
  assumes "poke p a b = Some p'" "length b \<le> 2 ^ 64"
  shows "maps p' = maps p" "refused p' = refused p"
    and "map (ram p') (span a (length b)) = b"
    and "\<And>x. x \<notin> set (span a (length b)) \<Longrightarrow> ram p' x = ram p x"
  using assms distinct_span [OF assms(2), of a]
  by (auto simp: poke_def fold_upd_map fold_upd_other split: if_splits)

lemma poke_defined: "\<forall>x \<in> set (span a (length b)). can PROT_WRITE p x \<Longrightarrow> \<exists>p'. poke p a b = Some p'"
  by (simp add: poke_def list_all_iff)

lemma peek_defined: "\<forall>x \<in> set (span a n). can PROT_READ p x \<Longrightarrow> peek p a n = Some (map (ram p) (span a n))"
  by (simp add: peek_def list_all_iff)

lemma peek64_defined: "\<forall>x \<in> set (span a 8). can PROT_READ p x \<Longrightarrow> \<exists>v. peek64 p a = Some v"
  using f64.read_total [of 0 "map (ram p) (span a 8)"] by (auto simp: peek64_def peek_defined)

lemma peek32_defined: "\<forall>x \<in> set (span a 4). can PROT_READ p x \<Longrightarrow> \<exists>v. peek32 p a = Some v"
  using f32.read_total [of 0 "map (ram p) (span a 4)"] by (auto simp: peek32_def peek_defined)

lemma peek64_iff:
  "peek64 p a = Some v \<longleftrightarrow> (\<forall>x \<in> set (span a 8). can PROT_READ p x) \<and> map (ram p) (span a 8) = le64 v"
  by (auto simp: peek64_def peek_def list_all_iff f64.read_iff slice_def f64.enc_length)

lemma poke64_peek64:
  assumes "poke64 p a v = Some p'"
  shows "maps p' = maps p" "refused p' = refused p" "map (ram p') (span a 8) = le64 v"
    "\<And>x. x \<notin> set (span a 8) \<Longrightarrow> ram p' x = ram p x"
  using poke_peek [of p a "le64 v" p'] assms f64.enc_length [of v] by (auto simp: poke64_def)

end
