(* ===== verification/Ril_Got.thy ===== *)
theory Ril_Got
  imports Process
begin

text \<open>
  Finding and rewriting the two function pointers of the vendor library (\<open>ril-shim/k50sv1_ril_shim.c\<close>, from
  \<open>GotScan\<close> to \<open>rollbackGotHooks\<close>). The library's tables are read from the memory of the process as the
  loader left them, with 64-bit little-endian ELF structures; nothing is assumed about their contents.
\<close>

section \<open>ELF constants and structures\<close>

definition PT_LOAD :: u32 where "PT_LOAD = 1"
definition PT_DYNAMIC :: u32 where "PT_DYNAMIC = 2"
definition DT_NULL :: u64 where "DT_NULL = 0"
definition DT_PLTRELSZ :: u64 where "DT_PLTRELSZ = 2"
definition DT_STRTAB :: u64 where "DT_STRTAB = 5"
definition DT_SYMTAB :: u64 where "DT_SYMTAB = 6"
definition DT_RELA :: u64 where "DT_RELA = 7"
definition DT_PLTREL :: u64 where "DT_PLTREL = 20"
definition DT_JMPREL :: u64 where "DT_JMPREL = 23"
definition RELA_SIZE :: u64 where "RELA_SIZE = 24"
definition SYM_SIZE :: u64 where "SYM_SIZE = 24"
definition K50SV1_JUMP_SLOT :: u64 where "K50SV1_JUMP_SLOT = 1026"
definition UINTPTR_MAX :: u64 where "UINTPTR_MAX = - 1"

record Phdr =
  p_type :: u32
  p_vaddr :: u64
  p_memsz :: u64

record dl_phdr_info =
  dlpi_name :: "bytes option"
  dlpi_addr :: addr
  dlpi_phdr :: "Phdr list"

record GotScan =
  gs_soname :: bytes
  gs_base :: addr
  gs_phdr :: "Phdr list"
  gs_jmprel :: addr
  gs_jmprelCount :: u64
  gs_symtab :: addr
  gs_strtab :: addr
  gs_found :: bool

section \<open>Ranges\<close>

fun inModule_from :: "addr \<Rightarrow> Phdr list \<Rightarrow> addr \<Rightarrow> u64 \<Rightarrow> bool" where
  "inModule_from base [] a len = False"
| "inModule_from base (ph # phs) a len =
     (if p_type ph \<noteq> PT_LOAD then inModule_from base phs a len
      else if p_vaddr ph > UINTPTR_MAX - base then inModule_from base phs a len
      else let start = base + p_vaddr ph in
        if p_memsz ph > UINTPTR_MAX - start then inModule_from base phs a len
        else let stop = start + p_memsz ph in
          if a \<ge> start \<and> a \<le> stop \<and> len \<le> stop - a then True else inModule_from base phs a len)"

definition inModule :: "GotScan \<Rightarrow> addr \<Rightarrow> u64 \<Rightarrow> bool" where
  "inModule scan a len = inModule_from (gs_base scan) (gs_phdr scan) a len"

definition resolveDynPtr :: "GotScan \<Rightarrow> addr \<Rightarrow> u64 \<Rightarrow> addr" where
  "resolveDynPtr scan val len =
     (if val \<le> UINTPTR_MAX - gs_base scan \<and> inModule scan (gs_base scan + val) len then gs_base scan + val
      else if inModule scan val len then val else 0)"

section \<open>The scan of a loaded library\<close>

text \<open>\<open>strrchr\<close>: the offset of the last \<open>c\<close> of the string, within the access check.\<close>

definition strrchr :: "bytes \<Rightarrow> byte \<Rightarrow> nat option option" where
  "strrchr b c = do {
     n \<leftarrow> strlen b;
     Some (find (\<lambda>i. b ! i = c) (rev [0..<n]))
   }"

text \<open>What the walk over the dynamic section collects.\<close>

record dyn_ptrs =
  dp_jmprel :: addr
  dp_pltrelsz :: u64
  dp_symtab :: addr
  dp_strtab :: addr

text \<open>The loop over the dynamic section; \<^term>\<open>Inl ()\<close> is the early return for a table that is not RELA.\<close>

partial_function (option) dyn_walk :: "process \<Rightarrow> addr \<Rightarrow> dyn_ptrs \<Rightarrow> (unit + dyn_ptrs) option" where
  "dyn_walk p dyn acc = do {
     tag \<leftarrow> peek64 p dyn;
     if tag = DT_NULL then Some (Inr acc)
     else if tag = DT_JMPREL then do { v \<leftarrow> peek64 p (dyn + 8); dyn_walk p (dyn + 16) (acc\<lparr>dp_jmprel := v\<rparr>) }
     else if tag = DT_PLTRELSZ then do { v \<leftarrow> peek64 p (dyn + 8); dyn_walk p (dyn + 16) (acc\<lparr>dp_pltrelsz := v\<rparr>) }
     else if tag = DT_SYMTAB then do { v \<leftarrow> peek64 p (dyn + 8); dyn_walk p (dyn + 16) (acc\<lparr>dp_symtab := v\<rparr>) }
     else if tag = DT_STRTAB then do { v \<leftarrow> peek64 p (dyn + 8); dyn_walk p (dyn + 16) (acc\<lparr>dp_strtab := v\<rparr>) }
     else if tag = DT_PLTREL then do {
       v \<leftarrow> peek64 p (dyn + 8);
       if v \<noteq> DT_RELA then Some (Inl ()) else dyn_walk p (dyn + 16) acc
     }
     else dyn_walk p (dyn + 16) acc
   }"

definition scan_resolve :: "GotScan \<Rightarrow> dyn_ptrs \<Rightarrow> GotScan" where
  "scan_resolve scan d =
     (let scan = scan\<lparr>gs_jmprel := resolveDynPtr scan (dp_jmprel d) (dp_pltrelsz d)\<rparr>;
          scan = scan\<lparr>gs_symtab := resolveDynPtr scan (dp_symtab d) SYM_SIZE\<rparr>;
          scan = scan\<lparr>gs_strtab := resolveDynPtr scan (dp_strtab d) 1\<rparr>;
          scan = scan\<lparr>gs_jmprelCount := dp_pltrelsz d div RELA_SIZE\<rparr>
      in scan\<lparr>gs_found := (gs_jmprel scan \<noteq> 0 \<and> gs_symtab scan \<noteq> 0 \<and> gs_strtab scan \<noteq> 0)\<rparr>)"

definition gotScanCallback :: "process \<Rightarrow> dl_phdr_info \<Rightarrow> GotScan \<Rightarrow> (int \<times> GotScan) option" where
  "gotScanCallback p info scan = (case dlpi_name info of None \<Rightarrow> Some (0, scan)
     | Some path \<Rightarrow> do {
       slash \<leftarrow> strrchr path (of_char CHR ''/'');
       let name = (case slash of Some i \<Rightarrow> drop (i + 1) path | None \<Rightarrow> path);
       same \<leftarrow> streq name (gs_soname scan);
       if \<not> same then Some (0, scan)
       else do {
         let scan = scan\<lparr>gs_base := dlpi_addr info, gs_phdr := dlpi_phdr info\<rparr>;
         case find (\<lambda>ph. p_type ph = PT_DYNAMIC) (dlpi_phdr info) of None \<Rightarrow> Some (1, scan)
         | Some ph \<Rightarrow> do {
           r \<leftarrow> dyn_walk p (dlpi_addr info + p_vaddr ph) \<lparr>dp_jmprel = 0, dp_pltrelsz = 0, dp_symtab = 0, dp_strtab = 0\<rparr>;
           case r of Inl _ \<Rightarrow> Some (1, scan)
           | Inr d \<Rightarrow>
             if dp_pltrelsz d = 0 \<or> dp_pltrelsz d mod RELA_SIZE \<noteq> 0 then Some (1, scan)
             else Some (1, scan_resolve scan d)
         }
       }
     })"

section \<open>One entry\<close>

record GotEntry =
  ge_symbol :: bytes
  ge_slot :: addr
  ge_original :: u64
  ge_replacement :: u64
  ge_page :: addr
  ge_pageSize :: u64
  ge_protection :: int

definition loadGotValue :: "GotEntry \<Rightarrow> process \<Rightarrow> u64 option" where
  "loadGotValue entry p = peek64 p (ge_slot entry)"

text \<open>
  The part of the loop of \<open>findGotEntry\<close> that runs for a matching name: \<^term>\<open>None\<close> inside is the return of
  false. \<open>pageSize\<close> is what \<open>sysconf\<close> returns.
\<close>

definition got_entry_at ::
  "GotScan \<Rightarrow> bytes \<Rightarrow> u64 \<Rightarrow> int \<Rightarrow> u64 \<Rightarrow> process \<Rightarrow> (GotEntry option \<times> process) option" where
  "got_entry_at scan symbol replacement pageSize r_offset p =
     (if r_offset > UINTPTR_MAX - gs_base scan then Some (None, p)
      else let slotAddr = gs_base scan + r_offset in
        if \<not> inModule scan slotAddr 8 then Some (None, p)
        else if pageSize \<le> 0 then Some (None, p)
        else do {
          let size = of_int pageSize;
          let (prot, p) = mappingProt slotAddr p;
          if prot < 0 then Some (None, p)
          else do {
            original \<leftarrow> peek64 p slotAddr;
            if original = 0 \<or> original = replacement then Some (None, p)
            else Some (Some \<lparr>ge_symbol = symbol, ge_slot = slotAddr, ge_original = original,
                   ge_replacement = replacement, ge_page = slotAddr - slotAddr mod size, ge_pageSize = size,
                   ge_protection = prot\<rparr>, p)
          }
        })"

text \<open>Whether relocation \<open>i\<close> is a jump slot for \<open>symbol\<close>; if so, its offset.\<close>

definition got_match :: "GotScan \<Rightarrow> bytes \<Rightarrow> nat \<Rightarrow> u64 \<Rightarrow> process \<Rightarrow> u64 option option" where
  "got_match scan symbol symbolLen i p = do {
     let rela = gs_jmprel scan + RELA_SIZE * i;
     r_info \<leftarrow> peek64 p (rela + 8);
     let symIndex = drop_bit 32 r_info;
     if r_info AND 0xffffffff \<noteq> K50SV1_JUMP_SLOT then Some None
     else do {
       let sym = gs_symtab scan + SYM_SIZE * symIndex;
       if \<not> inModule scan sym SYM_SIZE then Some None
       else do {
         st_name \<leftarrow> peek32 p sym;
         if ucast st_name > UINTPTR_MAX - gs_strtab scan then Some None
         else do {
           let name = gs_strtab scan + ucast st_name;
           if \<not> inModule scan name (of_nat symbolLen) then Some None
           else do {
             b \<leftarrow> peek p name symbolLen;
             if b \<noteq> take symbolLen symbol then Some None
             else do {
               r_offset \<leftarrow> peek64 p rela;
               Some (Some r_offset)
             }
           }
         }
       }
     }
   }"

lemma word_loop_decrease:
  fixes i n :: u64
  assumes "i < n" shows "unat (n - (i + 1)) < unat (n - i)"
proof -
  have "n - (i + 1) = (n - i) - 1" "n - i \<noteq> 0" using assms by auto
  then show ?thesis using measure_unat [of "n - i"] by metis
qed

function findGotEntry_from ::
  "GotScan \<Rightarrow> bytes \<Rightarrow> u64 \<Rightarrow> int \<Rightarrow> nat \<Rightarrow> u64 \<Rightarrow> GotEntry option \<Rightarrow> process \<Rightarrow> (GotEntry option \<times> process) option" where
  "findGotEntry_from scan symbol replacement pageSize symbolLen i found p =
     (if i < gs_jmprelCount scan then do {
        m \<leftarrow> got_match scan symbol symbolLen i p;
        case m of None \<Rightarrow> findGotEntry_from scan symbol replacement pageSize symbolLen (i + 1) found p
        | Some r_offset \<Rightarrow> do {
            (e, p) \<leftarrow> got_entry_at scan symbol replacement pageSize r_offset p;
            case e of None \<Rightarrow> Some (None, p)
            | Some entry \<Rightarrow>
                if found \<noteq> None then Some (None, p)
                else findGotEntry_from scan symbol replacement pageSize symbolLen (i + 1) (Some entry) p
          }
      }
      else Some (found, p))"
  by pat_completeness auto
termination
proof (relation "measure (\<lambda>(scan, symbol, replacement, pageSize, symbolLen, i, found, p). unat (gs_jmprelCount scan - i))")
qed (simp_all add: word_loop_decrease)

declare findGotEntry_from.simps [simp del]

definition findGotEntry ::
  "GotScan \<Rightarrow> bytes \<Rightarrow> u64 \<Rightarrow> int \<Rightarrow> process \<Rightarrow> (GotEntry option \<times> process) option" where
  "findGotEntry scan symbol replacement pageSize p = do {
     n \<leftarrow> strlen symbol;
     findGotEntry_from scan symbol replacement pageSize (n + 1) 0 None p
   }"

section \<open>Writing\<close>

definition verifyGotValue :: "GotEntry \<Rightarrow> u64 \<Rightarrow> process \<Rightarrow> (bool \<times> process) option" where
  "verifyGotValue entry expected p = do {
     actual \<leftarrow> loadGotValue entry p;
     let (actualProt, p) = mappingProt (ge_slot entry) p;
     Some (actual = expected \<and> actualProt = ge_protection entry, p)
   }"

text \<open>The compare-and-exchange on a slot.\<close>

definition compare_exchange :: "addr \<Rightarrow> u64 \<Rightarrow> u64 \<Rightarrow> process \<Rightarrow> (bool \<times> process) option" where
  "compare_exchange slot_addr expected desired p = do {
     v \<leftarrow> peek64 p slot_addr;
     if v = expected then do { p \<leftarrow> poke64 p slot_addr desired; Some (True, p) } else Some (False, p)
   }"

definition writeGotValue :: "GotEntry \<Rightarrow> u64 \<Rightarrow> u64 \<Rightarrow> process \<Rightarrow> (bool \<times> process) option" where
  "writeGotValue entry expected desired p = (
     let writable = (ge_protection entry AND PROT_WRITE \<noteq> 0);
         (rc, p) = (if \<not> writable then mprotect (ge_page entry) (ge_pageSize entry) (ge_protection entry OR PROT_WRITE) p
                    else (0, p))
     in if rc \<noteq> 0 then Some (False, p)
        else do {
          (success, p) \<leftarrow> compare_exchange (ge_slot entry) expected desired p;
          now \<leftarrow> (if success then peek64 p (ge_slot entry) else Some desired);
          let success = (success \<and> now = desired);
          let (rc, p) = (if \<not> writable then mprotect (ge_page entry) (ge_pageSize entry) (ge_protection entry) p
                         else (0, p));
          let success = (success \<and> rc = 0);
          if success then verifyGotValue entry desired p else Some (False, p)
        })"

definition rollbackGotHooks :: "GotEntry \<Rightarrow> GotEntry \<Rightarrow> process \<Rightarrow> (bool \<times> process) option" where
  "rollbackGotHooks unsol complete p = do {
     v \<leftarrow> loadGotValue complete p;
     (r, p) \<leftarrow> (if v = ge_replacement complete
                then writeGotValue complete (ge_replacement complete) (ge_original complete) p else Some (False, p));
     v \<leftarrow> loadGotValue unsol p;
     (r, p) \<leftarrow> (if v = ge_replacement unsol
                then writeGotValue unsol (ge_replacement unsol) (ge_original unsol) p else Some (False, p));
     (completeRestored, p) \<leftarrow> verifyGotValue complete (ge_original complete) p;
     (unsolRestored, p) \<leftarrow> verifyGotValue unsol (ge_original unsol) p;
     Some (completeRestored \<and> unsolRestored, p)
   }"

section \<open>Ranges as numbers\<close>

text \<open>The guards against wrap-around, read over the natural numbers.\<close>

lemma unat_max: "unat UINTPTR_MAX = 2 ^ 64 - 1"
  by (simp add: UINTPTR_MAX_def unsigned_minus_1_eq_mask mask_eq_exp_minus_1)

lemma no_wrap: "x \<le> UINTPTR_MAX - y \<longleftrightarrow> unat y + unat x < 2 ^ 64" for x y :: u64
proof -
  have "y \<le> UINTPTR_MAX" by (simp add: UINTPTR_MAX_def)
  then have "unat (UINTPTR_MAX - y) = 2 ^ 64 - 1 - unat y" by (simp add: unat_sub unat_max)
  moreover have "unat y < 2 ^ 64" using unsigned_less [of y] by simp
  ultimately show ?thesis by (auto simp: word_le_nat_alt)
qed

lemma unat_add64: "unat y + unat x < 2 ^ 64 \<Longrightarrow> unat (y + x) = unat y + unat x" for x y :: u64
  using unat_add_lem [of y x] by simp

definition segment :: "GotScan \<Rightarrow> nat \<Rightarrow> nat \<Rightarrow> bool" where
  "segment scan lo hi \<longleftrightarrow> hi < 2 ^ 64 \<and> (\<exists>ph \<in> set (gs_phdr scan). p_type ph = PT_LOAD
     \<and> lo = unat (gs_base scan) + unat (p_vaddr ph) \<and> hi = lo + unat (p_memsz ph))"

lemma inModule_from_iff:
  "inModule_from base phs a len \<longleftrightarrow> (\<exists>ph \<in> set phs. p_type ph = PT_LOAD
     \<and> unat base + unat (p_vaddr ph) \<le> unat a \<and> unat a + unat len \<le> unat base + unat (p_vaddr ph) + unat (p_memsz ph)
     \<and> unat base + unat (p_vaddr ph) + unat (p_memsz ph) < 2 ^ 64)"
proof (induction phs)
  case (Cons ph phs)
  define fits where "fits \<longleftrightarrow> unat base + unat (p_vaddr ph) \<le> unat a
     \<and> unat a + unat len \<le> unat base + unat (p_vaddr ph) + unat (p_memsz ph)
     \<and> unat base + unat (p_vaddr ph) + unat (p_memsz ph) < 2 ^ 64"
  let ?start = "base + p_vaddr ph"
  have "inModule_from base (ph # phs) a len \<longleftrightarrow> p_type ph = PT_LOAD \<and> fits \<or> inModule_from base phs a len"
  proof (cases "p_vaddr ph \<le> UINTPTR_MAX - base \<and> p_memsz ph \<le> UINTPTR_MAX - ?start")
    case True
    then have sums: "unat ?start = unat base + unat (p_vaddr ph)"
      "unat (?start + p_memsz ph) = unat base + unat (p_vaddr ph) + unat (p_memsz ph)"
      "unat base + unat (p_vaddr ph) + unat (p_memsz ph) < 2 ^ 64"
      using unat_add64 [of base "p_vaddr ph"] unat_add64 [of ?start "p_memsz ph"] by (auto simp: no_wrap)
    have "?start \<le> a \<and> a \<le> ?start + p_memsz ph \<and> len \<le> ?start + p_memsz ph - a \<longleftrightarrow> fits"
      using sums unfolding fits_def by (auto simp: word_le_nat_alt unat_sub)
    then show ?thesis using True by (auto simp: Let_def not_le [symmetric])
  next
    case False
    then have "\<not> fits"
      using unat_add64 [of base "p_vaddr ph"] by (auto simp: fits_def no_wrap)
    then show ?thesis using False by (auto simp: Let_def)
  qed
  also have "\<dots> \<longleftrightarrow> (\<exists>ph \<in> set (ph # phs). p_type ph = PT_LOAD
     \<and> unat base + unat (p_vaddr ph) \<le> unat a \<and> unat a + unat len \<le> unat base + unat (p_vaddr ph) + unat (p_memsz ph)
     \<and> unat base + unat (p_vaddr ph) + unat (p_memsz ph) < 2 ^ 64)"
    using Cons.IH by (simp add: fits_def)
  finally show ?case .
qed simp

lemma inModule_iff:
  "inModule scan a len \<longleftrightarrow> (\<exists>lo hi. segment scan lo hi \<and> lo \<le> unat a \<and> unat a + unat len \<le> hi)"
  unfolding inModule_def inModule_from_iff segment_def by blast

lemma inModule_span:
  assumes "inModule scan a len" "x \<in> set (span a (unat len))"
  shows "inModule scan x 1"
proof -
  obtain lo hi where s: "segment scan lo hi" "lo \<le> unat a" "unat a + unat len \<le> hi" "hi < 2 ^ 64"
    using assms(1) by (auto simp: inModule_iff segment_def)
  obtain i where i: "i < unat len" "x = a + of_nat i" using assms(2) by (auto simp: span_def)
  then have "unat (of_nat i :: u64) = i" using s by (simp add: unat_of_nat)
  then have "unat x = unat a + i" using i s by (simp add: unat_add64)
  then show ?thesis
    unfolding inModule_iff using s i by (intro exI [of _ lo] exI [of _ hi]) simp
qed

lemma inModule_within:
  assumes "inModule scan a len" "unat off + n \<le> unat len"
  shows "set (span (a + off) n) \<subseteq> set (span a (unat len))"
proof
  fix x assume "x \<in> set (span (a + off) n)"
  then obtain i where "i < n" "x = a + off + of_nat i" by (auto simp: span_def)
  then have "x = a + of_nat (unat off + i)" "unat off + i < unat len" using assms(2) by auto
  then show "x \<in> set (span a (unat len))"
    unfolding span_def set_map set_upt by (intro image_eqI [of _ _ "unat off + i"]) auto
qed

section \<open>Reading a module\<close>

definition module_mapped :: "process \<Rightarrow> GotScan \<Rightarrow> bool" where
  "module_mapped p scan \<longleftrightarrow> (\<forall>a. inModule scan a 1 \<longrightarrow> can PROT_READ p a)"

text \<open>What a scan that reports success promises of the tables it found.\<close>

definition tables_in :: "GotScan \<Rightarrow> bool" where
  "tables_in scan \<longleftrightarrow> 24 * unat (gs_jmprelCount scan) < 2 ^ 64
     \<and> inModule scan (gs_jmprel scan) (RELA_SIZE * gs_jmprelCount scan)
     \<and> inModule scan (gs_symtab scan) SYM_SIZE \<and> inModule scan (gs_strtab scan) 1"

lemma module_peek:
  assumes "module_mapped p scan" "inModule scan a len" "unat off + n \<le> unat len"
  shows "\<forall>x \<in> set (span (a + off) n). can PROT_READ p x"
  using assms inModule_within inModule_span unfolding module_mapped_def by blast

lemma unat_mult24: "24 * unat i < 2 ^ 64 \<Longrightarrow> unat (24 * i) = 24 * unat i" for i :: u64
  using unat_mult_lem [of 24 i] by simp

lemma resolveDynPtr_in: "resolveDynPtr scan v len \<noteq> 0 \<Longrightarrow> inModule scan (resolveDynPtr scan v len) len"
  by (auto simp: resolveDynPtr_def split: if_splits)

definition same_mem :: "process \<Rightarrow> process \<Rightarrow> bool" where
  "same_mem p p' \<longleftrightarrow> ram p' = ram p \<and> maps p' = maps p"

lemma same_mem_peek:
  assumes "same_mem p p'"
  shows "can r p' = can r p" "peek p' a n = peek p a n" "peek64 p' a = peek64 p a" "peek32 p' a = peek32 p a"
    "got_match scan symbol n i p' = got_match scan symbol n i p"
proof -
  show can: "can r p' = can r p" for r using assms by (simp add: same_mem_def can_def fun_eq_iff)
  show pk: "peek p' a n = peek p a n" for a n using assms by (simp add: peek_def can same_mem_def)
  show "peek64 p' a = peek64 p a" "peek32 p' a = peek32 p a" for a
    by (simp_all add: peek64_def peek32_def pk)
  then show "got_match scan symbol n i p' = got_match scan symbol n i p"
    by (simp add: got_match_def pk Let_def cong: if_cong)
qed

lemma same_mem_trans: "same_mem p p' \<Longrightarrow> same_mem p' p'' \<Longrightarrow> same_mem p p''"
  by (simp add: same_mem_def)

lemma kernel_refuses_same: "kernel_refuses p = (no, p') \<Longrightarrow> same_mem p p'"
  by (auto simp: kernel_refuses_def same_mem_def split: list.splits)

lemma mappingProt_result:
  assumes "proper (maps p)"
  shows "\<exists>pr p'. mappingProt a p = (pr, p') \<and> same_mem p p' \<and> (pr = - 1 \<or> prot_at (maps p) a = Some pr \<and> 0 \<le> pr \<and> pr < 8)"
proof -
  obtain no p' where k: "kernel_refuses p = (no, p')" by (cases "kernel_refuses p")
  then have m: "same_mem p p'" by (rule kernel_refuses_same)
  then have "mappingProt_lines a (maps_text (maps p')) = (case prot_at (maps p) a of Some pr \<Rightarrow> pr | None \<Rightarrow> - 1)"
    using mappingProt_lines_text [OF assms] by (simp add: same_mem_def)
  then show ?thesis
    using k m proper_prot_at [OF assms, of a] by (auto simp: mappingProt_def split: option.splits)
qed

lemma got_match_defined:
  assumes "module_mapped p scan" "tables_in scan" "i < gs_jmprelCount scan" "n < 2 ^ 64"
  shows "\<exists>m. got_match scan symbol n i p = Some m"
proof -
  have i: "unat i < unat (gs_jmprelCount scan)" using assms(3) by (simp add: word_less_nat_alt)
  have t: "inModule scan (gs_jmprel scan) (RELA_SIZE * gs_jmprelCount scan)"
    "unat (RELA_SIZE * gs_jmprelCount scan) = 24 * unat (gs_jmprelCount scan)" "unat (RELA_SIZE * i) = 24 * unat i"
    "24 * unat (gs_jmprelCount scan) < 2 ^ 64"
    using assms(2) i unat_mult24 [of i] unat_mult24 [of "gs_jmprelCount scan"]
    by (auto simp: tables_in_def RELA_SIZE_def)
  have "unat (RELA_SIZE * i + 8) = 24 * unat i + 8"
    using unat_add64 [of "RELA_SIZE * i" 8] t i by simp
  then have rela: "\<exists>v. peek64 p (gs_jmprel scan + RELA_SIZE * i) = Some v"
    "\<exists>v. peek64 p (gs_jmprel scan + RELA_SIZE * i + 8) = Some v"
    using module_peek [OF assms(1) t(1), of "RELA_SIZE * i" 8] module_peek [OF assms(1) t(1), of "RELA_SIZE * i + 8" 8]
      t i peek64_defined by (auto simp: add.assoc)
  have sym: "\<exists>v. peek32 p a = Some v" if "inModule scan a SYM_SIZE" for a
    using module_peek [OF assms(1) that, of 0 4] peek32_defined by (auto simp: SYM_SIZE_def)
  have name: "\<exists>b. peek p a n = Some b" if "inModule scan a (of_nat n)" for a
    using module_peek [OF assms(1) that, of 0 n] assms(4) peek_defined [of a n p] by (simp add: unat_of_nat)
  obtain r_info r_offset where r: "peek64 p (gs_jmprel scan + RELA_SIZE * i + 8) = Some r_info"
    "peek64 p (gs_jmprel scan + RELA_SIZE * i) = Some r_offset" using rela by auto
  let ?sym = "gs_symtab scan + SYM_SIZE * drop_bit 32 r_info"
  show ?thesis
  proof (cases "r_info AND 0xffffffff = K50SV1_JUMP_SLOT \<and> inModule scan ?sym SYM_SIZE")
    case True
    obtain st_name where st: "peek32 p ?sym = Some st_name" using sym True by auto
    let ?name = "gs_strtab scan + ucast st_name"
    show ?thesis
    proof (cases "inModule scan ?name (of_nat n)")
      case True
      then obtain b where "peek p ?name n = Some b" using name by auto
      then show ?thesis using r st by (auto simp: got_match_def Let_def)
    qed (use True r st in \<open>auto simp: got_match_def Let_def\<close>)
  qed (use r in \<open>auto simp: got_match_def Let_def\<close>)
qed

text \<open>What an entry that the search returns promises.\<close>

definition sound_entry :: "process \<Rightarrow> GotScan \<Rightarrow> u64 \<Rightarrow> int \<Rightarrow> GotEntry \<Rightarrow> bool" where
  "sound_entry p scan replacement pageSize e \<longleftrightarrow>
     0 < pageSize \<and> inModule scan (ge_slot e) 8 \<and> peek64 p (ge_slot e) = Some (ge_original e)
     \<and> ge_original e \<noteq> 0 \<and> ge_original e \<noteq> replacement \<and> ge_replacement e = replacement
     \<and> ge_pageSize e = of_int pageSize \<and> ge_page e = ge_slot e - ge_slot e mod ge_pageSize e
     \<and> prot_at (maps p) (ge_slot e) = Some (ge_protection e) \<and> 0 \<le> ge_protection e \<and> ge_protection e < 8"

lemma got_entry_at_spec:
  assumes "module_mapped p scan" "proper (maps p)"
  shows "\<exists>r p'. got_entry_at scan symbol replacement pageSize r_offset p = Some (r, p') \<and> same_mem p p'
    \<and> (\<forall>e. r = Some e \<longrightarrow> sound_entry p scan replacement pageSize e \<and> ge_slot e = gs_base scan + r_offset)"
proof (cases "r_offset > UINTPTR_MAX - gs_base scan \<or> \<not> inModule scan (gs_base scan + r_offset) 8 \<or> pageSize \<le> 0")
  case True
  then show ?thesis by (auto simp: got_entry_at_def Let_def same_mem_def)
next
  case False
  let ?slot = "gs_base scan + r_offset"
  obtain pr p' where m: "mappingProt ?slot p = (pr, p')" "same_mem p p'"
    "pr = - 1 \<or> prot_at (maps p) ?slot = Some pr \<and> 0 \<le> pr \<and> pr < 8"
    using mappingProt_result [OF assms(2)] by blast
  have "\<forall>x \<in> set (span ?slot 8). can PROT_READ p x"
    using module_peek [OF assms(1), of ?slot 8 0 8] False by simp
  then obtain v where v: "peek64 p ?slot = Some v" using peek64_defined by blast
  have call: "got_entry_at scan symbol replacement pageSize r_offset p = (if pr < 0 then Some (None, p')
      else if v = 0 \<or> v = replacement then Some (None, p')
      else Some (Some \<lparr>ge_symbol = symbol, ge_slot = ?slot, ge_original = v, ge_replacement = replacement,
        ge_page = ?slot - ?slot mod of_int pageSize, ge_pageSize = of_int pageSize, ge_protection = pr\<rparr>, p'))"
    using False m v same_mem_peek(3) [OF m(2)] by (simp add: got_entry_at_def Let_def)
  show ?thesis
    unfolding call using m v False by (auto simp: sound_entry_def)
qed

text \<open>The relocations from \<open>i\<close> on that are jump slots for \<open>symbol\<close>.\<close>

definition matches :: "process \<Rightarrow> GotScan \<Rightarrow> bytes \<Rightarrow> nat \<Rightarrow> u64 \<Rightarrow> u64 set" where
  "matches p scan symbol n i = {j. i \<le> j \<and> j < gs_jmprelCount scan \<and> (\<exists>off. got_match scan symbol n j p = Some (Some off))}"

lemma word_range_step:
  fixes i j n :: u64
  assumes "i < n" shows "i \<le> j \<and> j < n \<longleftrightarrow> j = i \<or> i + 1 \<le> j \<and> j < n"
proof -
  have "unat n < 2 ^ 64" using unsigned_less [of n] by simp
  then have "unat (i + 1) = unat i + 1"
    using assms unat_add64 [of i 1] by (simp add: word_less_nat_alt)
  then show ?thesis using assms by (auto simp: word_le_nat_alt word_less_nat_alt word_unat_eq_iff)
qed

lemma matches_step:
  assumes "i < gs_jmprelCount scan"
  shows "matches p scan symbol n i =
     {j. j = i \<and> (\<exists>off. got_match scan symbol n i p = Some (Some off))} \<union> matches p scan symbol n (i + 1)"
proof -
  have "j \<in> matches p scan symbol n i \<longleftrightarrow>
      (j = i \<or> i + 1 \<le> j \<and> j < gs_jmprelCount scan) \<and> (\<exists>off. got_match scan symbol n j p = Some (Some off))" for j
    unfolding matches_def using word_range_step [OF assms, of j] by auto
  then show ?thesis by (auto simp: matches_def)
qed

text \<open>
  The search from relocation \<open>i\<close> on. It always returns, changes nothing, and what it reports is the one
  relocation for the symbol.
\<close>

lemma findGotEntry_from_spec:
  assumes "module_mapped p scan" "tables_in scan" "proper (maps p)" "n < 2 ^ 64"
    "\<forall>e. found = Some e \<longrightarrow> sound_entry p scan replacement pageSize e"
  shows "\<exists>r p'. findGotEntry_from scan symbol replacement pageSize n i found p = Some (r, p') \<and> same_mem p p'
    \<and> (\<forall>e. r = Some e \<longrightarrow> sound_entry p scan replacement pageSize e
        \<and> (found = Some e \<and> matches p scan symbol n i = {}
           \<or> found = None \<and> (\<exists>j off. matches p scan symbol n i = {j} \<and> got_match scan symbol n j p = Some (Some off)
                \<and> ge_slot e = gs_base scan + off)))"
  using assms
proof (induction scan symbol replacement pageSize n i found p rule: findGotEntry_from.induct)
  case (1 scan symbol replacement pageSize n i found p)
  note prems = 1(3-7)
  show ?case
  proof (cases "i < gs_jmprelCount scan")
    case False
    then show ?thesis
      using prems by (subst findGotEntry_from.simps) (auto simp: matches_def same_mem_def)
  next
    case True
    note step = matches_step [OF True, of p symbol n]
    obtain m where m: "got_match scan symbol n i p = Some m" using got_match_defined [OF prems(1,2) True prems(4)] by blast
    show ?thesis
    proof (cases m)
      case None
      then show ?thesis
        using 1(1) [OF True m None prems] step m True by (subst findGotEntry_from.simps) simp
    next
      case (Some off)
      obtain r p' where e: "got_entry_at scan symbol replacement pageSize off p = Some (r, p')" "same_mem p p'"
        "\<forall>e. r = Some e \<longrightarrow> sound_entry p scan replacement pageSize e \<and> ge_slot e = gs_base scan + off"
        using got_entry_at_spec [OF prems(1,3)] by blast
      show ?thesis
      proof (cases "r \<noteq> None \<and> found = None")
        case False
        then show ?thesis
          using True m Some e by (subst findGotEntry_from.simps) (auto split: option.splits)
      next
        case go: True
        then obtain entry where r: "r = Some entry" by auto
        have same: "module_mapped p' scan" "proper (maps p')" "sound_entry p' scan replacement pageSize = sound_entry p scan replacement pageSize"
          "matches p' scan symbol n k = matches p scan symbol n k" for k
          using e(2) prems same_mem_peek [OF e(2)]
          by (auto simp: module_mapped_def same_mem_def sound_entry_def matches_def fun_eq_iff)
        have "\<exists>r p''. findGotEntry_from scan symbol replacement pageSize n (i + 1) (Some entry) p' = Some (r, p'') \<and> same_mem p' p''
          \<and> (\<forall>e. r = Some e \<longrightarrow> sound_entry p scan replacement pageSize e \<and> Some entry = Some e \<and> matches p scan symbol n (i + 1) = {})"
          using 1(2) [OF True m Some e(1) refl r] go prems(2,4) e(3) r same by simp
        then show ?thesis
          using True m Some e r go step same_mem_trans [OF e(2)]
          by (subst findGotEntry_from.simps) (fastforce simp: same_mem_peek(5) [OF e(2)])
      qed
    qed
  qed
qed

section \<open>The scan\<close>

lemma unat_div_mult:
  fixes n :: u64
  assumes "n mod 24 = 0" shows "24 * (n div 24) = n" "24 * unat (n div 24) = unat n"
proof -
  show "24 * (n div 24) = n" using assms mult_div_mod_eq [of 24 n] by simp
  have "unat n mod 24 = 0" using assms unat_mod_distrib [of n 24] by simp
  then show "24 * unat (n div 24) = unat n"
    using mult_div_mod_eq [of 24 "unat n"] by (simp add: unat_div_distrib)
qed

lemma resolve_update [simp]:
  "inModule (scan\<lparr>gs_jmprel := a\<rparr>) = inModule scan" "inModule (scan\<lparr>gs_symtab := a\<rparr>) = inModule scan"
  "inModule (scan\<lparr>gs_strtab := a\<rparr>) = inModule scan" "inModule (scan\<lparr>gs_jmprelCount := c\<rparr>) = inModule scan"
  "inModule (scan\<lparr>gs_found := b\<rparr>) = inModule scan"
  "resolveDynPtr (scan\<lparr>gs_jmprel := a\<rparr>) = resolveDynPtr scan" "resolveDynPtr (scan\<lparr>gs_symtab := a\<rparr>) = resolveDynPtr scan"
  by (simp_all add: inModule_def resolveDynPtr_def fun_eq_iff)

lemma gotScanCallback_tables:
  assumes "gotScanCallback p info scan = Some (rc, scan')" "\<not> gs_found scan" "gs_found scan'"
  shows "tables_in scan'"
proof -
  have "\<exists>d base. dp_pltrelsz d mod RELA_SIZE = 0 \<and> scan' = scan_resolve base d"
    using assms unfolding gotScanCallback_def Let_def
    by (auto split: option.splits if_splits sum.splits Option.bind_splits del: mod_0_imp_dvd)
  then obtain d base where d: "dp_pltrelsz d mod RELA_SIZE = 0" "scan' = scan_resolve base d"
    by (elim exE conjE)
  then have "dp_pltrelsz d mod 24 = 0" by (simp add: RELA_SIZE_def)
  note size = unat_div_mult [OF this]
  have "unat (dp_pltrelsz d) < 2 ^ 64" using unsigned_less [of "dp_pltrelsz d"] by simp
  then have "24 * unat (dp_pltrelsz d div 24) < 2 ^ 64" using size(2) by simp
  then show ?thesis
    using assms(3) size(1) resolveDynPtr_in [of base]
    unfolding d(2) by (simp add: scan_resolve_def tables_in_def Let_def RELA_SIZE_def)
qed

text \<open>A dynamic section that ends after \<open>k\<close> entries, all of it readable.\<close>

definition terminated :: "process \<Rightarrow> addr \<Rightarrow> nat \<Rightarrow> bool" where
  "terminated p dyn k \<longleftrightarrow> (\<forall>x \<in> set (span dyn (16 * k + 8)). can PROT_READ p x) \<and> peek64 p (dyn + of_nat (16 * k)) = Some DT_NULL"

lemma span_mono: "n \<le> m \<Longrightarrow> set (span a n) \<subseteq> set (span a m)"
  by (auto simp: span_def)

lemma span_shift: "set (span (a + of_nat k) n) \<subseteq> set (span a (k + n))"
proof
  fix x assume "x \<in> set (span (a + of_nat k) n)"
  then obtain i where "i < n" "x = a + of_nat (k + i)" by (auto simp: span_def add.assoc)
  then show "x \<in> set (span a (k + n))" unfolding span_def set_map set_upt by (intro image_eqI [of _ _ "k + i"]) auto
qed

lemma dyn_walk_returns: "terminated p dyn k \<Longrightarrow> \<exists>r. dyn_walk p dyn acc = Some r"
proof (induction k arbitrary: dyn acc)
  case 0
  then show ?case by (subst dyn_walk.simps) (simp add: terminated_def)
next
  case (Suc k)
  have all: "can PROT_READ p x" if "x \<in> set (span dyn (16 * Suc k + 8))" for x
    using Suc.prems that by (simp add: terminated_def)
  have "\<forall>x \<in> set (span dyn 8). can PROT_READ p x" "\<forall>x \<in> set (span (dyn + 8) 8). can PROT_READ p x"
    "\<forall>x \<in> set (span (dyn + 16) (16 * k + 8)). can PROT_READ p x"
    using all span_mono [of 8 "16 * Suc k + 8" dyn] span_shift [of dyn 8 8] span_mono [of 16 "16 * Suc k + 8" dyn]
      span_shift [of dyn 16 "16 * k + 8"] by (auto simp: subset_iff)
  then obtain tag v where "peek64 p dyn = Some tag" "peek64 p (dyn + 8) = Some v" and
    rest: "terminated p (dyn + 16) k"
    using peek64_defined Suc.prems by (fastforce simp: terminated_def algebra_simps)
  then show ?case
    using Suc.IH [OF rest] by (subst dyn_walk.simps) auto
qed

section \<open>Pages\<close>

text \<open>Mappings begin and end at page boundaries.\<close>

definition paged :: "nat \<Rightarrow> mapping list \<Rightarrow> bool" where
  "paged n ms \<longleftrightarrow> 0 < n \<and> 8 dvd n \<and> n < 2 ^ 64 \<and> (\<forall>(s, e, pr) \<in> set ms. n dvd unat s \<and> n dvd unat e)"

definition page_of :: "nat \<Rightarrow> addr \<Rightarrow> nat" where
  "page_of n a = unat a div n"

lemma page_of_iff: "0 < n \<Longrightarrow> page_of n a = k \<longleftrightarrow> k * n \<le> unat a \<and> unat a < k * n + n"
  unfolding page_of_def using div_less_iff_less_mult [of n "unat a" "Suc k"] less_eq_div_iff_mult_less_eq [of n k "unat a"]
  by (auto simp: less_Suc_eq_le)

lemma mapping_pages:
  assumes "0 < n" "n dvd unat s" "n dvd unat e" "page_of n a = page_of n b"
  shows "s \<le> a \<and> a < e \<longleftrightarrow> s \<le> b \<and> b < e"
proof -
  obtain i j where "unat s = n * i" "unat e = n * j" using assms(2,3) unfolding dvd_def by blast
  moreover have "n * i \<le> m \<longleftrightarrow> i \<le> m div n" "m < n * j \<longleftrightarrow> m div n < j" for m
    using assms(1) by (simp_all add: less_eq_div_iff_mult_less_eq div_less_iff_less_mult mult.commute)
  ultimately show ?thesis
    using assms(4) by (simp add: word_le_nat_alt word_less_nat_alt page_of_def)
qed

text \<open>A page has one protection.\<close>

lemma prot_at_page: "paged n ms \<Longrightarrow> page_of n a = page_of n b \<Longrightarrow> prot_at ms a = prot_at ms b"
proof (induction ms a rule: prot_at.induct)
  case (2 s e pr ms a)
  then have "s \<le> a \<and> a < e \<longleftrightarrow> s \<le> b \<and> b < e" by (intro mapping_pages [of n]) (auto simp: paged_def)
  then show ?case using 2 by (auto simp: paged_def)
qed simp

text \<open>The page of an aligned slot holds all of the slot, and its range does not wrap.\<close>

lemma slot_page:
  assumes n: "paged n ms" and al: "8 dvd unat a" and m: "prot_at ms a \<noteq> None"
  defines "page \<equiv> a - a mod of_nat n"
  shows "unat page = page_of n a * n" "unat (page + of_nat n) = page_of n a * n + n"
    "\<And>x. page \<le> x \<and> x < page + of_nat n \<longleftrightarrow> page_of n x = page_of n a"
    "\<And>x. x \<in> set (span a 8) \<Longrightarrow> page_of n x = page_of n a"
proof -
  have n0: "0 < n" "n < 2 ^ 64" "8 dvd n" using n by (auto simp: paged_def)
  then have un: "unat (of_nat n :: u64) = n" by (simp add: unat_of_nat)
  then have um: "unat (a mod of_nat n) = unat a mod n" by (simp add: unat_mod_distrib)
  have "a mod of_nat n \<le> a" using um by (simp add: word_le_nat_alt)
  then have "unat page = unat a - unat a mod n"
    unfolding page_def by (simp only: unat_sub um)
  then show pg: "unat page = page_of n a * n"
    by (simp add: page_of_def minus_mod_eq_div_mult)
  obtain s e pr where e: "(s, e, pr) \<in> set ms" "a < e"
    using m by (induction ms a rule: prot_at.induct) (auto split: if_splits)
  have "n dvd unat e" using n e(1) by (auto simp: paged_def)
  then obtain j where "unat e = n * j" unfolding dvd_def by blast
  with e(2) have "page_of n a * n + n \<le> unat e"
    using n0(1) by (metis Suc_leI div_less_iff_less_mult mult.commute mult_Suc mult_le_mono2 page_of_def add.commute word_less_nat_alt)
  moreover have "unat e < 2 ^ 64" using unsigned_less [of e] by simp
  ultimately show hi: "unat (page + of_nat n) = page_of n a * n + n"
    using unat_add64 [of page "of_nat n"] pg un by simp
  show "page \<le> x \<and> x < page + of_nat n \<longleftrightarrow> page_of n x = page_of n a" for x
    using page_of_iff [OF n0(1), of x "page_of n a"] pg hi by (simp add: word_le_nat_alt word_less_nat_alt)
  show "page_of n x = page_of n a" if mem: "x \<in> set (span a 8)" for x
  proof -
    obtain i where i: "i < 8" "x = a + of_nat i" using mem by (auto simp: span_def)
    obtain q where q: "unat a = 8 * q" using al by (auto elim: dvdE)
    obtain w where w: "n = 8 * w" using n0(3) by (auto elim: dvdE)
    have "unat a < 2 ^ 64" using unsigned_less [of a] by simp
    then have "unat x = unat a + i" using i q unat_add64 [of a "of_nat i"] by (simp add: unat_of_nat)
    then have "unat x div 8 = q" using i q by simp
    then show ?thesis using q by (simp add: page_of_def w div_mult2_eq)
  qed
qed

section \<open>Writing as a transaction\<close>

text \<open>An entry found in \<open>p0\<close>, with its slot aligned as the ABI requires and its page readable.\<close>

definition entry_ok :: "nat \<Rightarrow> process \<Rightarrow> GotEntry \<Rightarrow> bool" where
  "entry_ok n p0 e \<longleftrightarrow> 8 dvd unat (ge_slot e) \<and> prot_at (maps p0) (ge_slot e) = Some (ge_protection e)
     \<and> 0 \<le> ge_protection e \<and> ge_protection e < 8 \<and> ge_protection e AND PROT_READ \<noteq> 0
     \<and> ge_pageSize e = of_nat n \<and> ge_page e = ge_slot e - ge_slot e mod ge_pageSize e
     \<and> ge_original e \<noteq> ge_replacement e \<and> map (ram p0) (span (ge_slot e) 8) = le64 (ge_original e)"

definition pair_ok :: "nat \<Rightarrow> process \<Rightarrow> GotEntry \<Rightarrow> GotEntry \<Rightarrow> bool" where
  "pair_ok n p0 e1 e2 \<longleftrightarrow> paged n (maps p0) \<and> proper (maps p0) \<and> entry_ok n p0 e1 \<and> entry_ok n p0 e2
     \<and> ge_slot e1 \<noteq> ge_slot e2"

definition page_prot :: "nat \<Rightarrow> process \<Rightarrow> addr \<Rightarrow> int \<Rightarrow> bool" where
  "page_prot n p a pr \<longleftrightarrow> (\<forall>x. page_of n x = page_of n a \<longrightarrow> prot_at (maps p) x = Some pr)"

definition holds :: "process \<Rightarrow> GotEntry \<Rightarrow> u64 \<Rightarrow> bool" where
  "holds p e v \<longleftrightarrow> map (ram p) (span (ge_slot e) 8) = le64 v"

text \<open>
  What holds between any two steps on the pair: each slot has its original or its replacement, its page has
  its protection or that with writing added, and nothing else differs from \<open>p0\<close>.
\<close>

definition txn :: "nat \<Rightarrow> process \<Rightarrow> GotEntry set \<Rightarrow> process \<Rightarrow> bool" where
  "txn n p0 E p \<longleftrightarrow> proper (maps p)
     \<and> (\<forall>a. (\<forall>e \<in> E. page_of n a \<noteq> page_of n (ge_slot e)) \<longrightarrow> prot_at (maps p) a = prot_at (maps p0) a)
     \<and> (\<forall>a. (\<forall>e \<in> E. a \<notin> set (span (ge_slot e) 8)) \<longrightarrow> ram p a = ram p0 a)
     \<and> (\<forall>e \<in> E. (holds p e (ge_original e) \<or> holds p e (ge_replacement e))
          \<and> (page_prot n p (ge_slot e) (ge_protection e) \<or> page_prot n p (ge_slot e) (ge_protection e OR PROT_WRITE)))"

lemma rights:
  assumes "0 \<le> pr" "pr < 8"
  shows "0 \<le> pr OR PROT_WRITE" "pr OR PROT_WRITE < 8" "(pr OR PROT_WRITE) AND PROT_WRITE \<noteq> 0"
    "pr AND PROT_READ \<noteq> 0 \<Longrightarrow> (pr OR PROT_WRITE) AND PROT_READ \<noteq> 0" "pr AND PROT_WRITE \<noteq> 0 \<Longrightarrow> pr OR PROT_WRITE = pr"
proof -
  have "pr \<in> {0, 1, 2, 3, 4, 5, 6, 7}" using assms by auto
  then show "0 \<le> pr OR PROT_WRITE" "pr OR PROT_WRITE < 8" "(pr OR PROT_WRITE) AND PROT_WRITE \<noteq> 0"
    "pr AND PROT_READ \<noteq> 0 \<Longrightarrow> (pr OR PROT_WRITE) AND PROT_READ \<noteq> 0" "pr AND PROT_WRITE \<noteq> 0 \<Longrightarrow> pr OR PROT_WRITE = pr"
    by (auto simp: PROT_READ_def PROT_WRITE_def)
qed

lemma page_prot_slot: "page_prot n p a pr \<Longrightarrow> prot_at (maps p) a = Some pr"
  by (simp add: page_prot_def)

lemma page_prot_can:
  assumes "paged n (maps p0)" "entry_ok n p0 e" "page_prot n p (ge_slot e) pr" "pr AND right \<noteq> 0"
  shows "\<forall>x \<in> set (span (ge_slot e) 8). can right p x"
  using slot_page(4) [OF assms(1), of "ge_slot e"] assms(2-4)
  by (auto simp: entry_ok_def page_prot_def can_def)

lemma same_page_prot:
  assumes "pair_ok n p0 e1 e2" "e \<in> {e1, e2}" "e' \<in> {e1, e2}" "page_of n (ge_slot e) = page_of n (ge_slot e')"
  shows "ge_protection e = ge_protection e'"
proof -
  have "prot_at (maps p0) (ge_slot e) = prot_at (maps p0) (ge_slot e')"
    using assms(1,4) by (intro prot_at_page) (auto simp: pair_ok_def)
  then show ?thesis using assms(1-3) by (auto simp: pair_ok_def entry_ok_def)
qed

lemma slots_apart:
  assumes "8 dvd unat a" "8 dvd unat b" "a \<noteq> b" shows "set (span a 8) \<inter> set (span b 8) = {}"
proof -
  have idx: "unat x div 8 = unat c div 8" if mem: "x \<in> set (span c 8)" and al: "8 dvd unat c" for x c :: addr
  proof -
    obtain i where i: "i < 8" "x = c + of_nat i" using mem by (auto simp: span_def)
    obtain q where q: "unat c = 8 * q" using al unfolding dvd_def by blast
    have "unat c < 2 ^ 64" using unsigned_less [of c] by simp
    then have "unat x = unat c + i" using i q unat_add64 [of c "of_nat i"] by (simp add: unat_of_nat)
    then show ?thesis using i q by simp
  qed
  have "unat a div 8 \<noteq> unat b div 8"
    using assms by (metis dvd_div_mult_self word_unat_eq_iff)
  then show ?thesis using idx assms(1,2) by (metis Int_emptyI)
qed

lemma txn_same_mem: "same_mem p p' \<Longrightarrow> txn n p0 E p' = txn n p0 E p"
  by (simp add: same_mem_def txn_def holds_def page_prot_def)

lemma mprotect_page:
  assumes ok: "pair_ok n p0 e1 e2" and e: "e \<in> {e1, e2}" and p: "txn n p0 {e1, e2} p"
    and new: "new = ge_protection e \<or> new = ge_protection e OR PROT_WRITE"
  shows "\<exists>rc p'. mprotect (ge_page e) (ge_pageSize e) new p = (rc, p') \<and> txn n p0 {e1, e2} p' \<and> ram p' = ram p
    \<and> (rc = 0 \<longrightarrow> page_prot n p' (ge_slot e) new)"
proof -
  obtain no p1 where k: "kernel_refuses p = (no, p1)" by (cases "kernel_refuses p")
  then have same: "same_mem p p1" by (rule kernel_refuses_same)
  then have p1: "txn n p0 {e1, e2} p1" using p txn_same_mem by blast
  have eo: "entry_ok n p0 e" "paged n (maps p0)" using ok e by (auto simp: pair_ok_def)
  define p' where "p' = p1\<lparr>maps := protect (maps p1) (ge_page e) (ge_page e + ge_pageSize e) new\<rparr>"
  have sp: "ge_page e \<le> x \<and> x < ge_page e + ge_pageSize e \<longleftrightarrow> page_of n x = page_of n (ge_slot e)" for x
    using slot_page(3) [OF eo(2), of "ge_slot e" x] eo(1) by (auto simp: entry_ok_def)
  have prot: "prot_at (maps p') x = (if page_of n x = page_of n (ge_slot e) then Some new else prot_at (maps p1) x)" for x
    using p1 e sp [of x] by (auto simp: p'_def txn_def page_prot_def option.map_ident_strong)
  then have pe: "page_prot n p' (ge_slot e) new" by (simp add: page_prot_def)
  have pages: "page_prot n p' (ge_slot e') (ge_protection e') \<or> page_prot n p' (ge_slot e') (ge_protection e' OR PROT_WRITE)"
    if e': "e' \<in> {e1, e2}" for e'
  proof (cases "page_of n (ge_slot e') = page_of n (ge_slot e)")
    case True
    then have "page_prot n p' (ge_slot e') pr = page_prot n p' (ge_slot e) pr" for pr by (simp add: page_prot_def)
    then show ?thesis using same_page_prot [OF ok e' e True] new pe by auto
  next
    case False
    then have "page_prot n p' (ge_slot e') pr = page_prot n p1 (ge_slot e') pr" for pr
      using prot by (simp add: page_prot_def)
    then show ?thesis using p1 e' by (auto simp: txn_def)
  qed
  have "proper (maps p')"
    using p1 new rights [of "ge_protection e"] eo(1) by (auto simp: p'_def txn_def entry_ok_def intro!: proper_protect)
  moreover have "ram p' = ram p1" by (simp add: p'_def)
  ultimately have t: "txn n p0 {e1, e2} p'"
    using p1 e prot pages unfolding txn_def holds_def by auto
  then show ?thesis
    using k p1 pe same t by (cases no) (auto simp: mprotect_def same_mem_def p'_def)
qed

lemma entry_peek:
  assumes ok: "pair_ok n p0 e1 e2" and e: "e \<in> {e1, e2}" and p: "txn n p0 {e1, e2} p"
  shows "peek64 p (ge_slot e) = Some v \<longleftrightarrow> holds p e v" "\<exists>v \<in> {ge_original e, ge_replacement e}. peek64 p (ge_slot e) = Some v"
proof -
  have eo: "entry_ok n p0 e" "paged n (maps p0)" using ok e by (auto simp: pair_ok_def)
  obtain pr where pr: "page_prot n p (ge_slot e) pr" "pr AND PROT_READ \<noteq> 0"
    using p e eo(1) rights(4) [of "ge_protection e"] by (auto simp: txn_def entry_ok_def)
  show *: "peek64 p (ge_slot e) = Some v \<longleftrightarrow> holds p e v" for v
    using page_prot_can [OF eo(2,1) pr] by (simp add: peek64_iff holds_def)
  show "\<exists>v \<in> {ge_original e, ge_replacement e}. peek64 p (ge_slot e) = Some v"
    using p e by (auto simp: txn_def *)
qed

lemma exchange_slot:
  assumes ok: "pair_ok n p0 e1 e2" and e: "e \<in> {e1, e2}" and p: "txn n p0 {e1, e2} p"
    and w: "page_prot n p (ge_slot e) pr" "pr AND PROT_WRITE \<noteq> 0"
    and d: "desired = ge_original e \<or> desired = ge_replacement e"
  shows "\<exists>b p'. compare_exchange (ge_slot e) expected desired p = Some (b, p') \<and> txn n p0 {e1, e2} p' \<and> maps p' = maps p
    \<and> b = holds p e expected \<and> (b \<longrightarrow> holds p' e desired) \<and> (\<not> b \<longrightarrow> p' = p)
    \<and> (\<forall>e' \<in> {e1, e2}. e' \<noteq> e \<longrightarrow> (\<forall>v. holds p' e' v = holds p e' v))"
proof -
  have eo: "entry_ok n p0 e" "paged n (maps p0)" using ok e by (auto simp: pair_ok_def)
  obtain v where v: "peek64 p (ge_slot e) = Some v" "holds p e v" using entry_peek [OF ok e p] by blast
  then have iff: "v = expected \<longleftrightarrow> holds p e expected" by (auto simp: holds_def f64.enc_inj)
  obtain p' where p': "poke64 p (ge_slot e) desired = Some p'"
    using poke_defined [of "ge_slot e" "le64 desired" p] page_prot_can [OF eo(2,1) w] f64.enc_length [of desired]
    by (auto simp: poke64_def)
  note after = poke64_peek64 [OF p']
  have others: "holds p' e' v' = holds p e' v'" if "e' \<in> {e1, e2}" "e' \<noteq> e" for e' v'
  proof -
    have "ge_slot e' \<noteq> ge_slot e" "8 dvd unat (ge_slot e')" "8 dvd unat (ge_slot e)"
      using ok e that by (auto simp: pair_ok_def entry_ok_def)
    then have "set (span (ge_slot e') 8) \<inter> set (span (ge_slot e) 8) = {}" by (intro slots_apart) auto
    then have "map (ram p') (span (ge_slot e') 8) = map (ram p) (span (ge_slot e') 8)"
      using after(4) by (intro map_cong) auto
    then show ?thesis by (simp only: holds_def)
  qed
  moreover have he: "holds p' e desired" using after(3) by (simp add: holds_def)
  moreover have "txn n p0 {e1, e2} p'"
  proof -
    have "\<forall>e' \<in> {e1, e2}. holds p' e' (ge_original e') \<or> holds p' e' (ge_replacement e')"
      using others he d p e by (metis (no_types, lifting) txn_def)
    then show ?thesis using p after(1,4) e unfolding txn_def page_prot_def by auto
  qed
  ultimately show ?thesis
    using v iff p' p after(1) by (cases "v = expected") (auto simp: compare_exchange_def)
qed

definition at_rest :: "nat \<Rightarrow> process \<Rightarrow> GotEntry \<Rightarrow> u64 \<Rightarrow> bool" where
  "at_rest n p e v \<longleftrightarrow> holds p e v \<and> page_prot n p (ge_slot e) (ge_protection e)"

lemma verify_spec:
  assumes ok: "pair_ok n p0 e1 e2" and e: "e \<in> {e1, e2}" and p: "txn n p0 {e1, e2} p"
  shows "\<exists>b p'. verifyGotValue e expected p = Some (b, p') \<and> same_mem p p' \<and> (b \<longrightarrow> at_rest n p e expected)"
proof -
  obtain v where v: "peek64 p (ge_slot e) = Some v" using entry_peek [OF ok e p] by blast
  have "proper (maps p)" using p by (simp add: txn_def)
  then obtain pr p' where m: "mappingProt (ge_slot e) p = (pr, p')" "same_mem p p'"
    "pr = - 1 \<or> prot_at (maps p) (ge_slot e) = Some pr" using mappingProt_result by blast
  have "0 \<le> ge_protection e" using ok e by (auto simp: pair_ok_def entry_ok_def)
  then have "page_prot n p (ge_slot e) (ge_protection e)" if "pr = ge_protection e"
    using m(3) that p e by (auto simp: txn_def page_prot_def)
  moreover have "holds p e v" using v entry_peek(1) [OF ok e p] by blast
  ultimately show ?thesis
    using v m(1,2) by (auto simp: verifyGotValue_def loadGotValue_def at_rest_def)
qed

text \<open>A write succeeds completely or is known to have failed, and the other slot never changes.\<close>

lemma writeGotValue_spec:
  assumes ok: "pair_ok n p0 e1 e2" and e: "e \<in> {e1, e2}" and p: "txn n p0 {e1, e2} p"
    and d: "desired = ge_original e \<or> desired = ge_replacement e"
  shows "\<exists>b p'. writeGotValue e expected desired p = Some (b, p') \<and> txn n p0 {e1, e2} p' \<and> (b \<longrightarrow> at_rest n p' e desired)
    \<and> (\<forall>e' \<in> {e1, e2}. e' \<noteq> e \<longrightarrow> (\<forall>v. holds p' e' v = holds p e' v))"
proof -
  let ?w = "ge_protection e AND PROT_WRITE \<noteq> 0"
  have prot: "0 \<le> ge_protection e" "ge_protection e < 8" using ok e by (auto simp: pair_ok_def entry_ok_def)
  obtain rc p1 where 1: "(if \<not> ?w then mprotect (ge_page e) (ge_pageSize e) (ge_protection e OR PROT_WRITE) p else (0, p)) = (rc, p1)"
    "txn n p0 {e1, e2} p1" "ram p1 = ram p" "rc = 0 \<longrightarrow> page_prot n p1 (ge_slot e) (ge_protection e OR PROT_WRITE)"
  proof (cases ?w)
    case True
    then have "page_prot n p (ge_slot e) (ge_protection e OR PROT_WRITE)"
      using p e rights(5) [OF prot] by (auto simp: txn_def)
    then show ?thesis using True p that [of 0 p] by simp
  next
    case False
    then show ?thesis using mprotect_page [OF ok e p] that by auto
  qed
  show ?thesis
  proof (cases "rc = 0")
    case False
    then show ?thesis using 1 by (auto simp: writeGotValue_def holds_def)
  next
    case True
    then have w: "page_prot n p1 (ge_slot e) (ge_protection e OR PROT_WRITE)" using 1(4) by simp
    obtain b p2 where 2: "compare_exchange (ge_slot e) expected desired p1 = Some (b, p2)" "txn n p0 {e1, e2} p2"
      "b \<longrightarrow> holds p2 e desired" "\<forall>e' \<in> {e1, e2}. e' \<noteq> e \<longrightarrow> (\<forall>v. holds p2 e' v = holds p1 e' v)"
      using exchange_slot [OF ok e 1(2) w rights(3) [OF prot] d] by blast
    have now: "(if b then peek64 p2 (ge_slot e) else Some desired) = Some desired"
      using 2(3) entry_peek(1) [OF ok e 2(2)] by simp
    obtain rc' p3 where 3: "(if \<not> ?w then mprotect (ge_page e) (ge_pageSize e) (ge_protection e) p2 else (0, p2)) = (rc', p3)"
      "txn n p0 {e1, e2} p3" "ram p3 = ram p2"
      using mprotect_page [OF ok e 2(2), of "ge_protection e"] 2(2) by (cases ?w) auto
    obtain c p4 where 4: "verifyGotValue e desired p3 = Some (c, p4)" "same_mem p3 p4" "c \<longrightarrow> at_rest n p3 e desired"
      using verify_spec [OF ok e 3(2)] by blast
    have "at_rest n p4 e v = at_rest n p3 e v" "holds p4 e' v = holds p2 e' v" "holds p3 e' v = holds p2 e' v" for e' v
      using 4(2) 3(3) by (simp_all add: at_rest_def holds_def page_prot_def same_mem_def)
    moreover have "holds p1 e' v = holds p e' v" for e' v using 1(3) by (simp add: holds_def)
    moreover have "txn n p0 {e1, e2} p4" using txn_same_mem [OF 4(2)] 3(2) by simp
    moreover have "writeGotValue e expected desired p = (if b \<and> rc' = 0 then Some (c, p4) else Some (False, p3))"
      unfolding writeGotValue_def Let_def 1(1) using True 2(1) now 3(1) 4(1) by auto
    ultimately show ?thesis using 2(4) 3(2) 4(3) by (cases "b \<and> rc' = 0") auto
  qed
qed

lemma restore_slot:
  assumes ok: "pair_ok n p0 e1 e2" and e: "e \<in> {e1, e2}" and p: "txn n p0 {e1, e2} p"
  shows "\<exists>v b p'. loadGotValue e p = Some v \<and> (if v = ge_replacement e
      then writeGotValue e (ge_replacement e) (ge_original e) p else Some (False, p)) = Some (b, p') \<and> txn n p0 {e1, e2} p'"
proof -
  obtain v where "loadGotValue e p = Some v" using entry_peek [OF ok e p] by (auto simp: loadGotValue_def)
  moreover obtain b p' where "writeGotValue e (ge_replacement e) (ge_original e) p = Some (b, p')" "txn n p0 {e1, e2} p'"
    using writeGotValue_spec [OF ok e p, of "ge_original e" "ge_replacement e"] by blast
  ultimately show ?thesis using p by auto
qed

lemma rollback_spec:
  assumes ok: "pair_ok n p0 e1 e2" and p: "txn n p0 {e1, e2} p"
  shows "\<exists>b p'. rollbackGotHooks e1 e2 p = Some (b, p') \<and> txn n p0 {e1, e2} p'
    \<and> (b \<longrightarrow> at_rest n p' e1 (ge_original e1) \<and> at_rest n p' e2 (ge_original e2))"
proof -
  obtain v2 b2 p2 where 2: "loadGotValue e2 p = Some v2" "(if v2 = ge_replacement e2
      then writeGotValue e2 (ge_replacement e2) (ge_original e2) p else Some (False, p)) = Some (b2, p2)" "txn n p0 {e1, e2} p2"
    using restore_slot [OF ok _ p, of e2] by auto
  obtain v1 b1 p1 where 1: "loadGotValue e1 p2 = Some v1" "(if v1 = ge_replacement e1
      then writeGotValue e1 (ge_replacement e1) (ge_original e1) p2 else Some (False, p2)) = Some (b1, p1)" "txn n p0 {e1, e2} p1"
    using restore_slot [OF ok _ 2(3), of e1] by auto
  obtain c2 p3 where 3: "verifyGotValue e2 (ge_original e2) p1 = Some (c2, p3)" "same_mem p1 p3"
    "c2 \<longrightarrow> at_rest n p1 e2 (ge_original e2)" using verify_spec [OF ok _ 1(3), of e2] by blast
  have t3: "txn n p0 {e1, e2} p3" using txn_same_mem [OF 3(2)] 1(3) by simp
  obtain c1 p4 where 4: "verifyGotValue e1 (ge_original e1) p3 = Some (c1, p4)" "same_mem p3 p4"
    "c1 \<longrightarrow> at_rest n p3 e1 (ge_original e1)" using verify_spec [OF ok _ t3, of e1] by blast
  have "at_rest n p4 e v = at_rest n p1 e v" "at_rest n p4 e v = at_rest n p3 e v" for e v
    using 3(2) 4(2) by (simp_all add: at_rest_def holds_def page_prot_def same_mem_def)
  moreover have "txn n p0 {e1, e2} p4" using txn_same_mem [OF 4(2)] t3 by simp
  moreover have "rollbackGotHooks e1 e2 p = Some (c2 \<and> c1, p4)"
    unfolding rollbackGotHooks_def using 1(1,2) 2(1,2) 3(1) 4(1) by simp
  ultimately show ?thesis using 3(3) 4(3) by auto
qed

text \<open>When both slots have their originals and both pages their protections, the process is as it was.\<close>

lemma at_rest_restored:
  assumes ok: "pair_ok n p0 e1 e2" and p: "txn n p0 {e1, e2} p"
    and r: "\<And>e. e \<in> {e1, e2} \<Longrightarrow> at_rest n p e (v e)"
  shows "prot_at (maps p) = prot_at (maps p0)" "\<And>e. e \<in> {e1, e2} \<Longrightarrow> v e = ge_original e \<Longrightarrow>
      (\<forall>e' \<in> {e1, e2}. v e' = ge_original e') \<Longrightarrow> ram p = ram p0"
proof
  fix a
  show "prot_at (maps p) a = prot_at (maps p0) a"
  proof (cases "\<exists>e \<in> {e1, e2}. page_of n a = page_of n (ge_slot e)")
    case True
    then obtain e where e: "e \<in> {e1, e2}" "page_of n a = page_of n (ge_slot e)" by blast
    have "prot_at (maps p0) a = prot_at (maps p0) (ge_slot e)"
      using ok e(2) by (intro prot_at_page) (auto simp: pair_ok_def)
    then show ?thesis
      using r [OF e(1)] e ok by (auto simp: at_rest_def page_prot_def pair_ok_def entry_ok_def)
  next
    case False
    then show ?thesis using p by (auto simp: txn_def)
  qed
next
  assume all: "\<forall>e' \<in> {e1, e2}. v e' = ge_original e'"
  show "ram p = ram p0"
  proof
    fix a
    show "ram p a = ram p0 a"
    proof (cases "\<exists>e \<in> {e1, e2}. a \<in> set (span (ge_slot e) 8)")
      case True
      then obtain e where e: "e \<in> {e1, e2}" "a \<in> set (span (ge_slot e) 8)" by blast
      then have "map (ram p) (span (ge_slot e) 8) = map (ram p0) (span (ge_slot e) 8)"
        using r [OF e(1)] all ok by (auto simp: at_rest_def holds_def pair_ok_def entry_ok_def)
      then show ?thesis using e(2) by (auto simp: map_eq_conv)
    next
      case False
      then show ?thesis using p by (auto simp: txn_def)
    qed
  qed
qed

end
