(* ===== verification/Ril_Got_Search.thy ===== *)
theory Ril_Got_Search
  imports Ril_Got
begin

text \<open>What the GOT search of ril-shim/k50sv1_ril_shim.c (gotScanCallback, findGotEntry) promises, on top of the
  lemmas of the theory Ril_Got, and a small loaded library on which it is run.\<close>

section \<open>When the search succeeds\<close>

text \<open>A relocation offset whose slot can be recorded.\<close>

definition usable :: "process \<Rightarrow> GotScan \<Rightarrow> u64 \<Rightarrow> int \<Rightarrow> u64 \<Rightarrow> bool" where
  "usable p scan replacement pageSize off \<longleftrightarrow>
     0 < pageSize \<and> unat (gs_base scan) + unat off < 2 ^ 64 \<and> inModule scan (gs_base scan + off) 8
     \<and> peek64 p (gs_base scan + off) \<notin> {None, Some 0, Some replacement}"

lemma got_entry_at_usable:
  assumes "module_mapped p scan" "proper (maps p)" "refused p = []" "usable p scan replacement pageSize off"
  shows "\<exists>e. got_entry_at scan symbol replacement pageSize off p = Some (Some e, p)"
proof -
  let ?slot = "gs_base scan + off"
  have u: "\<not> off > UINTPTR_MAX - gs_base scan" "inModule scan ?slot 8" "\<not> pageSize \<le> 0"
    using assms(4) no_wrap [of off "gs_base scan"] by (auto simp: usable_def not_less)
  obtain v where v: "peek64 p ?slot = Some v" "v \<noteq> 0" "v \<noteq> replacement"
    using assms(4) by (auto simp: usable_def)
  have "can PROT_READ p ?slot"
    using module_peek [OF assms(1) u(2), of 0 1] by (simp add: span_def)
  then obtain pr where pr: "prot_at (maps p) ?slot = Some pr" by (auto simp: can_def split: option.splits)
  have "mappingProt ?slot p = (pr, p)" "0 \<le> pr"
    using assms(3) pr mappingProt_lines_text [OF assms(2)] proper_prot_at [OF assms(2) pr]
    by (auto simp: mappingProt_def kernel_refuses_def)
  then show ?thesis using u v by (auto simp: got_entry_at_def Let_def)
qed

lemma search_keeps:
  assumes "module_mapped p scan" "tables_in scan" "n < 2 ^ 64"
  shows "matches p scan symbol n i = {} \<Longrightarrow>
    findGotEntry_from scan symbol replacement pageSize n i (Some e) p = Some (Some e, p)"
proof (induction "unat (gs_jmprelCount scan - i)" arbitrary: i rule: less_induct)
  case less
  show ?case
  proof (cases "i < gs_jmprelCount scan")
    case True
    obtain m where m: "got_match scan symbol n i p = Some m" using got_match_defined [OF assms(1,2) True assms(3)] by blast
    have "m = None" "matches p scan symbol n (i + 1) = {}"
      using matches_step [OF True, of p symbol n] less.prems m by (cases m; auto)+
    then show ?thesis
      using less.hyps [OF word_loop_decrease [OF True]] m True by (subst findGotEntry_from.simps) simp
  qed (subst findGotEntry_from.simps, simp)
qed

lemma search_finds:
  assumes "module_mapped p scan" "tables_in scan" "n < 2 ^ 64" "proper (maps p)" "refused p = []"
    "got_match scan symbol n j p = Some (Some off)" "usable p scan replacement pageSize off"
  shows "matches p scan symbol n i = {j} \<Longrightarrow>
    \<exists>e. findGotEntry_from scan symbol replacement pageSize n i None p = Some (Some e, p)"
proof (induction "unat (gs_jmprelCount scan - i)" arbitrary: i rule: less_induct)
  case less
  have "j \<in> matches p scan symbol n i" using less.prems by simp
  then have i: "i < gs_jmprelCount scan" by (simp add: matches_def) (meson le_less_trans)
  obtain m where m: "got_match scan symbol n i p = Some m" using got_match_defined [OF assms(1,2) i assms(3)] by blast
  have "unat (gs_jmprelCount scan) < 2 ^ 64" using unsigned_less [of "gs_jmprelCount scan"] by simp
  then have "unat (i + 1) = unat i + 1" using i unat_add64 [of i 1] by (simp add: word_less_nat_alt)
  then have later: "i \<notin> matches p scan symbol n (i + 1)" by (simp add: matches_def word_le_nat_alt)
  show ?case
  proof (cases m)
    case None
    then have "matches p scan symbol n (i + 1) = {j}" using matches_step [OF i, of p symbol n] less.prems m by auto
    then show ?thesis
      using less.hyps [OF word_loop_decrease [OF i]] None m i by (subst findGotEntry_from.simps) simp
  next
    case (Some k)
    then have j: "j = i" "matches p scan symbol n (i + 1) = {}"
      using matches_step [OF i, of p symbol n] less.prems later m by auto
    then obtain e where "got_entry_at scan symbol replacement pageSize off p = Some (Some e, p)"
      using got_entry_at_usable [OF assms(1,4,5,7)] by blast
    then show ?thesis
      using search_keeps [OF assms(1,2,3) j(2)] assms(6) i j(1) by (subst findGotEntry_from.simps) simp
  qed
qed

lemma findGotEntry_finds:
  assumes "module_mapped p scan" "tables_in scan" "proper (maps p)" "refused p = []" "strlen symbol = Some n" "Suc n < 2 ^ 64"
    "matches p scan symbol (Suc n) 0 = {j}" "got_match scan symbol (Suc n) j p = Some (Some off)"
    "usable p scan replacement pageSize off"
  shows "\<exists>e. findGotEntry scan symbol replacement pageSize p = Some (Some e, p)"
  using search_finds [OF assms(1,2,6,3,4,8,9,7)] assms(5) by (simp add: findGotEntry_def)

lemma findGotEntry_result:
  assumes "module_mapped p scan'" "tables_in scan'" "proper (maps p)" "0 \<in> set symbol" "length symbol < 2 ^ 64"
    "symbolLen = length (str_of symbol) + 1"
  shows "\<exists>r p'. findGotEntry scan' symbol replacement pageSize p = Some (r, p') \<and> same_mem p p'
    \<and> (\<forall>e. r = Some e \<longrightarrow> sound_entry p scan' replacement pageSize e
        \<and> (\<exists>j off. matches p scan' symbol symbolLen 0 = {j} \<and> got_match scan' symbol symbolLen j p = Some (Some off)
             \<and> ge_slot e = gs_base scan' + off))
    \<and> (\<forall>j off. refused p = [] \<and> matches p scan' symbol symbolLen 0 = {j}
          \<and> got_match scan' symbol symbolLen j p = Some (Some off) \<and> usable p scan' replacement pageSize off \<longrightarrow> r \<noteq> None)"
proof -
  have len: "strlen symbol = Some (length (str_of symbol))" "length (str_of symbol) < length symbol"
    using assms(4) length_str_of_le [of symbol] by (auto simp: strlen_Some_iff str_of_less_iff)
  then have n: "symbolLen < 2 ^ 64" using assms(5,6) by linarith
  have call: "findGotEntry scan' symbol replacement pageSize p
      = findGotEntry_from scan' symbol replacement pageSize symbolLen 0 None p"
    using len(1) assms(6) by (simp add: findGotEntry_def)
  obtain r p' where r: "findGotEntry_from scan' symbol replacement pageSize symbolLen 0 None p = Some (r, p')"
    "same_mem p p'"
    "\<forall>e. r = Some e \<longrightarrow> sound_entry p scan' replacement pageSize e
        \<and> (\<exists>j off. matches p scan' symbol symbolLen 0 = {j} \<and> got_match scan' symbol symbolLen j p = Some (Some off)
             \<and> ge_slot e = gs_base scan' + off)"
    using findGotEntry_from_spec [OF assms(1,2,3) n, of None replacement pageSize symbol 0] by auto
  have "r \<noteq> None" if "refused p = [] \<and> matches p scan' symbol symbolLen 0 = {j}
      \<and> got_match scan' symbol symbolLen j p = Some (Some off) \<and> usable p scan' replacement pageSize off" for j off
    using search_finds [OF assms(1,2) n assms(3), of symbol j off replacement pageSize 0] that r(1) by auto
  then show ?thesis unfolding call using r by blast
qed

section \<open>Properties\<close>

text \<open>C36: Once the scan of the loaded library reports success, the search for a symbol returns whatever the tables
  contain, reading only inside the library's own segments and changing nothing. An entry it reports is for the only
  relocation of that symbol; its slot lies in the library, holds a pointer that is neither NULL nor the replacement,
  and is recorded with its page and the protection the kernel reports. If there is exactly one relocation for the
  symbol, its slot is usable, and no kernel call is refused, an entry is reported.\<close>

theorem got_search_sound:
  assumes "gotScanCallback p info scan = Some (rc, scan')" "\<not> gs_found scan" "gs_found scan'"
    "module_mapped p scan'" "proper (maps p)" "0 \<in> set symbol" "length symbol < 2 ^ 64"
    "symbolLen = length (str_of symbol) + 1"
  shows "\<exists>r p'. findGotEntry scan' symbol replacement pageSize p = Some (r, p') \<and> same_mem p p'
    \<and> (\<forall>e. r = Some e \<longrightarrow> sound_entry p scan' replacement pageSize e
        \<and> (\<exists>j off. matches p scan' symbol symbolLen 0 = {j} \<and> got_match scan' symbol symbolLen j p = Some (Some off)
             \<and> ge_slot e = gs_base scan' + off))
    \<and> (\<forall>j off. refused p = [] \<and> matches p scan' symbol symbolLen 0 = {j}
          \<and> got_match scan' symbol symbolLen j p = Some (Some off) \<and> usable p scan' replacement pageSize off \<longrightarrow> r \<noteq> None)"
  using findGotEntry_result [OF assms(4) gotScanCallback_tables [OF assms(1-3)] assms(5-8)] .

section \<open>A loaded library\<close>

text \<open>A process with the given bytes from address 65536 on, in one readable page.\<close>

definition loaded_at :: "bytes \<Rightarrow> process" where
  "loaded_at bs = \<lparr>ram = (\<lambda>a. if 65536 \<le> a \<and> unat a < 65536 + length bs then bs ! (unat a - 65536) else 0),
     maps = [(65536, 69632, 1)], refused = []\<rparr>"

lemma loaded_can: "65536 \<le> a \<Longrightarrow> a < 69632 \<Longrightarrow> can PROT_READ (loaded_at bs) a"
  by (simp add: can_def loaded_at_def PROT_READ_def)

lemma loaded_peek:
  assumes "i + n \<le> length bs" "length bs \<le> 4096"
  shows "peek (loaded_at bs) (65536 + of_nat i) n = Some (take n (drop i bs))"
proof -
  have at: "unat (65536 + of_nat i + of_nat k :: addr) = 65536 + i + k" if "k < n" for k
  proof -
    have "65536 + of_nat i + of_nat k = (of_nat (65536 + i + k) :: addr)" by simp
    moreover have "65536 + i + k < 2 ^ 64" using assms that by simp
    ultimately show ?thesis by (simp add: unat_of_nat del: of_nat_add)
  qed
  have "can PROT_READ (loaded_at bs) x" if mem: "x \<in> set (span (65536 + of_nat i) n)" for x
  proof -
    obtain k where "k < n" "x = 65536 + of_nat i + of_nat k" using mem by (auto simp: span_def)
    then have "unat x = 65536 + i + k" "i + k < 4096" using at [of k] assms by auto
    then show ?thesis by (intro loaded_can) (simp_all add: word_le_nat_alt word_less_nat_alt)
  qed
  moreover have "map (ram (loaded_at bs)) (span (65536 + of_nat i) n) = take n (drop i bs)"
    using assms at by (intro nth_equalityI) (auto simp: span_def loaded_at_def word_le_nat_alt)
  ultimately show ?thesis by (simp add: peek_def list_all_iff)
qed

lemma concat_chunks:
  "\<forall>x \<in> set xs. length (f x) = 8 \<Longrightarrow> i < length xs \<Longrightarrow> take 8 (drop (8 * i) (concat (map f xs) @ ys)) = f (xs ! i)"
proof (induction xs arbitrary: i)
  case (Cons x xs)
  then show ?case by (cases i) auto
qed simp

lemma concat_prefix:
  assumes "i < length xs" "n \<le> 8"
  shows "take n (drop (8 * i) (concat (map le64 xs) @ ys)) = take n (le64 (xs ! i))"
proof -
  let ?l = "drop (8 * i) (concat (map le64 xs) @ ys)"
  have "take 8 ?l = le64 (xs ! i)" using concat_chunks [of xs le64 i ys] assms(1) by (simp only: f64.enc_length) simp
  moreover have "take n ?l = take n (take 8 ?l)" by (simp only: take_take min.absorb1 [OF assms(2)])
  ultimately show ?thesis by simp
qed

text \<open>
  The vendor library with one segment: its dynamic section, two slots, two relocations, two symbols, and after
  these 26 words the two names.
\<close>

definition lib_words :: "u64 list" where
  "lib_words = [23, 112, 2, 48, 6, 160, 5, 208, 20, 7, 0, 0, 0x5555, 0x6666, 96, 1026, 0, 104, 4294968322, 0,
     0, 0, 0, 26, 0, 0]"

definition lib_process :: process where
  "lib_process = loaded_at (concat (map le64 lib_words) @ cstr ''RIL_onUnsolicitedResponse'' @ cstr ''RIL_onRequestComplete'')"

definition lib_info :: dl_phdr_info where
  "lib_info = \<lparr>dlpi_name = Some (cstr ''/vendor/mtk-rilproxy.so''), dlpi_addr = 65536,
     dlpi_phdr = [\<lparr>p_type = 1, p_vaddr = 0, p_memsz = 256\<rparr>, \<lparr>p_type = 2, p_vaddr = 0, p_memsz = 96\<rparr>]\<rparr>"

definition lib_scan :: GotScan where
  "lib_scan = \<lparr>gs_soname = cstr ''mtk-rilproxy.so'', gs_base = 0, gs_phdr = [], gs_jmprel = 0, gs_jmprelCount = 0,
     gs_symtab = 0, gs_strtab = 0, gs_found = False\<rparr>"

definition lib_found :: GotScan where
  "lib_found = \<lparr>gs_soname = cstr ''mtk-rilproxy.so'', gs_base = 65536, gs_phdr = dlpi_phdr lib_info, gs_jmprel = 65648,
     gs_jmprelCount = 2, gs_symtab = 65696, gs_strtab = 65744, gs_found = True\<rparr>"

lemma lib_length:
  "length lib_words = 26" "length (concat (map le64 lib_words)) = 208" "length (cstr ''RIL_onUnsolicitedResponse'') = 26"
  "length (cstr ''RIL_onRequestComplete'') = 22"
  by (simp_all add: lib_words_def f64.enc_length cstr_def ascii_def)

lemma lib_peek:
  assumes "i < 26" "n \<le> 8"
  shows "peek lib_process (65536 + of_nat (8 * i)) n = Some (take n (le64 (lib_words ! i)))"
  using assms loaded_peek [of "8 * i" n] concat_prefix [of i lib_words n] lib_length
  unfolding lib_process_def by simp

lemma lib_peek64: "i < 26 \<Longrightarrow> peek64 lib_process (65536 + of_nat (8 * i)) = Some (lib_words ! i)"
  using lib_peek [of i 8] by (simp add: peek64_def f64.read_iff slice_def f64.enc_length)

lemma lib_name:
  "peek lib_process 65744 26 = Some (cstr ''RIL_onUnsolicitedResponse'')"
  "peek lib_process 65770 22 = Some (cstr ''RIL_onRequestComplete'')"
  "\<exists>b. peek lib_process 65744 22 = Some b \<and> b \<noteq> cstr ''RIL_onRequestComplete''"
proof -
  have "peek lib_process (65536 + of_nat 208) 26 = Some (cstr ''RIL_onUnsolicitedResponse'')"
    "peek lib_process (65536 + of_nat 234) 22 = Some (cstr ''RIL_onRequestComplete'')"
    "peek lib_process (65536 + of_nat 208) 22 = Some (take 22 (cstr ''RIL_onUnsolicitedResponse''))"
    using lib_length unfolding lib_process_def by (subst loaded_peek; simp)+
  moreover have "take 22 (cstr ''RIL_onUnsolicitedResponse'') \<noteq> cstr ''RIL_onRequestComplete''" by code_simp
  ultimately show "peek lib_process 65744 26 = Some (cstr ''RIL_onUnsolicitedResponse'')"
    "peek lib_process 65770 22 = Some (cstr ''RIL_onRequestComplete'')"
    "\<exists>b. peek lib_process 65744 22 = Some b \<and> b \<noteq> cstr ''RIL_onRequestComplete''" by simp_all
qed

lemma lib_word:
  "peek64 lib_process 65536 = Some 23" "peek64 lib_process 65544 = Some 112" "peek64 lib_process 65552 = Some 2"
  "peek64 lib_process 65560 = Some 48" "peek64 lib_process 65568 = Some 6" "peek64 lib_process 65576 = Some 160"
  "peek64 lib_process 65584 = Some 5" "peek64 lib_process 65592 = Some 208" "peek64 lib_process 65600 = Some 20"
  "peek64 lib_process 65608 = Some 7" "peek64 lib_process 65616 = Some 0" "peek64 lib_process 65632 = Some 0x5555"
  "peek64 lib_process 65640 = Some 0x6666" "peek64 lib_process 65648 = Some 96" "peek64 lib_process 65656 = Some 1026"
  "peek64 lib_process 65672 = Some 104" "peek64 lib_process 65680 = Some 4294968322"
  using lib_peek64 [of 0] lib_peek64 [of 1] lib_peek64 [of 2] lib_peek64 [of 3] lib_peek64 [of 4] lib_peek64 [of 5]
    lib_peek64 [of 6] lib_peek64 [of 7] lib_peek64 [of 8] lib_peek64 [of 9] lib_peek64 [of 10] lib_peek64 [of 12]
    lib_peek64 [of 13] lib_peek64 [of 14] lib_peek64 [of 15] lib_peek64 [of 17] lib_peek64 [of 18]
  by (simp_all add: lib_words_def)

lemma lib_symbol: "peek32 lib_process 65696 = Some 0" "peek32 lib_process 65720 = Some 26"
proof -
  have "take 4 (le64 0) = le32 0" "take 4 (le64 26) = le32 26" by code_simp+
  then have "peek lib_process 65696 4 = Some (le32 0)" "peek lib_process 65720 4 = Some (le32 26)"
    using lib_peek [of 20 4] lib_peek [of 23 4] by (simp_all add: lib_words_def)
  then show "peek32 lib_process 65696 = Some 0" "peek32 lib_process 65720 = Some 26"
    by (simp_all add: peek32_def f32.read_iff slice_def f32.enc_length)
qed

lemma lib_walk:
  "dyn_walk lib_process 65536 \<lparr>dp_jmprel = 0, dp_pltrelsz = 0, dp_symtab = 0, dp_strtab = 0\<rparr> =
     Some (Inr \<lparr>dp_jmprel = 112, dp_pltrelsz = 48, dp_symtab = 160, dp_strtab = 208\<rparr>)"
  by (simp add: dyn_walk.simps [of _ 65536] dyn_walk.simps [of _ 65552] dyn_walk.simps [of _ 65568]
      dyn_walk.simps [of _ 65584] dyn_walk.simps [of _ 65600] dyn_walk.simps [of _ 65616] lib_word
      DT_NULL_def DT_JMPREL_def DT_PLTRELSZ_def DT_SYMTAB_def DT_STRTAB_def DT_PLTREL_def DT_RELA_def)

lemma lib_module:
  "inModule_from 65536 (dlpi_phdr lib_info) a len \<longleftrightarrow> 65536 \<le> unat a \<and> unat a + unat len \<le> 65792"
  by (simp add: inModule_from_iff lib_info_def PT_LOAD_def)

lemma lib_scanned: "gotScanCallback lib_process lib_info lib_scan = Some (1, lib_found)"
proof -
  have name: "strrchr (cstr ''/vendor/mtk-rilproxy.so'') (of_char CHR ''/'') = Some (Some 7)"
    "streq (drop 8 (cstr ''/vendor/mtk-rilproxy.so'')) (cstr ''mtk-rilproxy.so'') = Some True"
    by code_simp+
  have info: "dlpi_name lib_info = Some (cstr ''/vendor/mtk-rilproxy.so'')" "dlpi_addr lib_info = 65536"
    "find (\<lambda>ph. p_type ph = PT_DYNAMIC) (dlpi_phdr lib_info) = Some \<lparr>p_type = 2, p_vaddr = 0, p_memsz = 96\<rparr>"
    by (simp_all add: lib_info_def PT_DYNAMIC_def)
  show ?thesis
    using name lib_walk info
    by (simp add: gotScanCallback_def lib_scan_def lib_found_def scan_resolve_def Let_def resolveDynPtr_def inModule_def
        lib_module RELA_SIZE_def SYM_SIZE_def UINTPTR_MAX_def)
qed

lemma lib_mapped: "module_mapped lib_process lib_found"
  unfolding module_mapped_def lib_process_def
  by (intro allI impI loaded_can) (auto simp: inModule_def lib_module lib_found_def word_le_nat_alt word_less_nat_alt)

lemmas lib_match_simps = got_match_def inModule_def lib_module lib_found_def RELA_SIZE_def SYM_SIZE_def
  UINTPTR_MAX_def K50SV1_JUMP_SLOT_def lib_word lib_symbol lib_name Let_def

lemma lib_match:
  "got_match lib_found (cstr ''RIL_onUnsolicitedResponse'') 26 0 lib_process = Some (Some 96)"
  "got_match lib_found (cstr ''RIL_onUnsolicitedResponse'') 26 1 lib_process = Some None"
  "got_match lib_found (cstr ''RIL_onRequestComplete'') 22 0 lib_process = Some None"
  "got_match lib_found (cstr ''RIL_onRequestComplete'') 22 1 lib_process = Some (Some 104)"
proof -
  have shift: "drop_bit 32 (4294968322 :: u64) = 1" "drop_bit 32 (1026 :: u64) = 0" by code_simp+
  have full: "take 26 (cstr ''RIL_onUnsolicitedResponse'') = cstr ''RIL_onUnsolicitedResponse''"
    "take 22 (cstr ''RIL_onRequestComplete'') = cstr ''RIL_onRequestComplete''"
    using lib_length by simp_all
  show "got_match lib_found (cstr ''RIL_onUnsolicitedResponse'') 26 0 lib_process = Some (Some 96)"
    "got_match lib_found (cstr ''RIL_onRequestComplete'') 22 1 lib_process = Some (Some 104)"
    "got_match lib_found (cstr ''RIL_onUnsolicitedResponse'') 26 1 lib_process = Some None"
    by (simp_all add: lib_match_simps shift full)
  obtain b where "peek lib_process 65744 22 = Some b" "b \<noteq> cstr ''RIL_onRequestComplete''" using lib_name(3) by blast
  then show "got_match lib_found (cstr ''RIL_onRequestComplete'') 22 0 lib_process = Some None"
    by (simp add: lib_match_simps shift full)
qed

lemma two_relocations: "j < gs_jmprelCount lib_found \<longleftrightarrow> j = 0 \<or> j = 1"
  by (auto simp: lib_found_def word_less_nat_alt word_unat_eq_iff)

lemma lib_matches:
  "matches lib_process lib_found (cstr ''RIL_onUnsolicitedResponse'') 26 0 = {0}"
  "matches lib_process lib_found (cstr ''RIL_onRequestComplete'') 22 0 = {1}"
  using lib_match by (auto simp: matches_def two_relocations)

lemma lib_usable:
  assumes "h < 0x5555" shows "usable lib_process lib_found h 4096 96" "usable lib_process lib_found h 4096 104"
  using assms by (auto simp: usable_def inModule_def lib_module lib_found_def lib_word)

lemma lib_sound:
  "\<not> gs_found lib_scan" "gs_found lib_found" "proper (maps lib_process)" "refused lib_process = []"
  "maps lib_process = [(65536, 69632, 1)]" "gs_base lib_found = 65536"
  by (simp_all add: lib_scan_def lib_found_def lib_process_def loaded_at_def proper_def)

lemma lib_string:
  "0 \<in> set (cstr ''RIL_onUnsolicitedResponse'')" "length (cstr ''RIL_onUnsolicitedResponse'') < 2 ^ 64"
  "26 = length (str_of (cstr ''RIL_onUnsolicitedResponse'')) + 1"
  "0 \<in> set (cstr ''RIL_onRequestComplete'')" "length (cstr ''RIL_onRequestComplete'') < 2 ^ 64"
  "22 = length (str_of (cstr ''RIL_onRequestComplete'')) + 1"
proof -
  have "length (str_of (cstr ''RIL_onUnsolicitedResponse'')) = 25" "length (str_of (cstr ''RIL_onRequestComplete'')) = 21"
    by code_simp+
  then show "26 = length (str_of (cstr ''RIL_onUnsolicitedResponse'')) + 1"
    "22 = length (str_of (cstr ''RIL_onRequestComplete'')) + 1" by simp_all
qed (simp_all add: cstr_def ascii_def)

lemma lib_entries:
  assumes "h < 0x5555"
  shows "\<exists>e. findGotEntry lib_found (cstr ''RIL_onUnsolicitedResponse'') h 4096 lib_process = Some (Some e, lib_process)"
    "\<exists>e. findGotEntry lib_found (cstr ''RIL_onRequestComplete'') h 4096 lib_process = Some (Some e, lib_process)"
proof -
  note tables = gotScanCallback_tables [OF lib_scanned lib_sound(1,2)]
  have "strlen (cstr ''RIL_onUnsolicitedResponse'') = Some 25" "strlen (cstr ''RIL_onRequestComplete'') = Some 21" by code_simp+
  note len = this [THEN findGotEntry_finds [OF lib_mapped tables lib_sound(3,4)]]
  show "\<exists>e. findGotEntry lib_found (cstr ''RIL_onUnsolicitedResponse'') h 4096 lib_process = Some (Some e, lib_process)"
    by (rule len(1) [of 0 96]) (use lib_matches(1) lib_match(1) lib_usable(1) [OF assms] in simp_all)
  show "\<exists>e. findGotEntry lib_found (cstr ''RIL_onRequestComplete'') h 4096 lib_process = Some (Some e, lib_process)"
    by (rule len(2) [of 1 104]) (use lib_matches(2) lib_match(4) lib_usable(2) [OF assms] in simp_all)
qed

theorem got_search_sound_witness:
  "\<exists>e p'. findGotEntry lib_found (cstr ''RIL_onUnsolicitedResponse'') 9 4096 lib_process = Some (Some e, p')
     \<and> ge_slot e = 65632 \<and> ge_original e = 0x5555 \<and> ge_protection e = 1 \<and> ge_page e = 65536"
proof -
  obtain r p' where r: "findGotEntry lib_found (cstr ''RIL_onUnsolicitedResponse'') 9 4096 lib_process = Some (r, p')" "r \<noteq> None"
    "\<forall>e. r = Some e \<longrightarrow> sound_entry lib_process lib_found 9 4096 e \<and> (\<exists>j off.
        matches lib_process lib_found (cstr ''RIL_onUnsolicitedResponse'') 26 0 = {j}
        \<and> got_match lib_found (cstr ''RIL_onUnsolicitedResponse'') 26 j lib_process = Some (Some off)
        \<and> ge_slot e = gs_base lib_found + off)"
    using got_search_sound [OF lib_scanned lib_sound(1,2) lib_mapped lib_sound(3) lib_string(1-3), of 9 4096]
      lib_sound(4) lib_matches(1) lib_match(1) lib_usable(1) [of 9] by auto
  then obtain e where e: "r = Some e" by auto
  have s: "sound_entry lib_process lib_found 9 4096 e" "ge_slot e = 65632"
    using r(3) e lib_matches(1) lib_match(1) lib_sound(6) by auto
  then have "ge_original e = 0x5555" "ge_protection e = 1" "ge_page e = 65536"
    using lib_word(12) lib_sound(5) by (auto simp: sound_entry_def)
  then show ?thesis using r(1) e s(2) by auto
qed

end
