(* ===== verification/Ril_Init.thy ===== *)
theory Ril_Init
  imports Ril_Attach Ril_Got_Search
begin

text \<open>
  Installing the shim (\<open>ril-shim/k50sv1_ril_shim.c\<close>, from \<open>initIaWake\<close> to \<open>RIL_SAP_Init\<close>): the worker's
  condition variable and thread, the two hooks as one transaction, the dispatch of requests, the patch of the
  vendor library's function table and the two entry points. The linker and the vendor library are arguments;
  the results of the coming \<open>pthread\<close> calls are a list, and when it is used up they succeed.
\<close>

section \<open>State\<close>

record threads =
  thread_rcs :: "int list"
  sIaWake_monotonic :: bool
  workers :: nat

record shim =
  sh_ia :: ia_state
  sh_heap :: heap
  sh_rc :: rc_state
  sh_proc :: process
  sh_threads :: threads
  sRealFuncs :: addr
  sRealOnRequest :: u64
  sEnv :: u64
  sRealHandle :: u64
  sOnRequestPatched :: bool

text \<open>What the shim takes from its own image and from the linker.\<close>

record image =
  im_modules :: "process \<Rightarrow> dl_phdr_info list"
  im_pageSize :: int
  im_unsolHook :: u64
  im_completeHook :: u64
  im_onRequestShim :: u64

text \<open>The linker's calls and the code behind a function address of the vendor library.\<close>

record init_args =
  ar_env :: u64
  ar_argc :: int
  ar_argv :: u64

record vendor =
  vn_dlopen :: "string \<Rightarrow> process \<Rightarrow> u64 \<times> process"
  vn_dlsym :: "u64 \<Rightarrow> string \<Rightarrow> u64"
  vn_call :: "u64 \<Rightarrow> init_args \<Rightarrow> process \<Rightarrow> (addr \<times> process) option"

definition REAL_RIL_SONAME :: string where "REAL_RIL_SONAME = ''mtk-rilproxy.so''"

text \<open>A call through a NULL function pointer is a fault.\<close>

definition vendor_call :: "vendor \<Rightarrow> u64 \<Rightarrow> init_args \<Rightarrow> process \<Rightarrow> (addr \<times> process) option" where
  "vendor_call vn f args p = (if f = 0 then None else vn_call vn f args p)"

section \<open>The worker thread\<close>

definition pthread_rc :: "threads \<Rightarrow> int \<times> threads" where
  "pthread_rc th = (case thread_rcs th of [] \<Rightarrow> (0, th) | rc # rcs \<Rightarrow> (rc, th\<lparr>thread_rcs := rcs\<rparr>))"

definition initIaWake :: "threads \<Rightarrow> int \<times> threads" where
  "initIaWake th = (let (rc, th) = pthread_rc th in
     if rc \<noteq> 0 then (rc, th)
     else let (rc, th) = pthread_rc th in
       if rc = 0 then
         (let (rc, th) = pthread_rc th in (rc, if rc = 0 then th\<lparr>sIaWake_monotonic := True\<rparr> else th))
       else (rc, th))"

definition startIaWorker :: "threads \<Rightarrow> int \<times> threads" where
  "startIaWorker th = (let (rc, th) = initIaWake th in
     if rc \<noteq> 0 then (rc, th)
     else let (rc, th) = pthread_rc th in
       if rc \<noteq> 0 then (rc, th)
       else let (rc, th) = pthread_rc th in
         if rc = 0 then
           (let (rc, th) = pthread_rc th in (rc, if rc = 0 then th\<lparr>workers := Suc (workers th)\<rparr> else th))
         else (rc, th))"

section \<open>Installing the hooks\<close>

definition hook_state :: "IaHookState \<Rightarrow> shim \<Rightarrow> shim" where
  "hook_state hs s = s\<lparr>sh_ia := (sh_ia s)\<lparr>sIaHookState := hs\<rparr>\<rparr>"

text \<open>\<open>dl_iterate_phdr\<close>: the callback on each loaded library until it returns nonzero.\<close>

fun dl_iterate_phdr :: "process \<Rightarrow> dl_phdr_info list \<Rightarrow> GotScan \<Rightarrow> GotScan option" where
  "dl_iterate_phdr p [] scan = Some scan"
| "dl_iterate_phdr p (info # infos) scan = do {
     (rc, scan) \<leftarrow> gotScanCallback p info scan;
     if rc \<noteq> 0 then Some scan else dl_iterate_phdr p infos scan
   }"

definition new_scan :: GotScan where
  "new_scan = \<lparr>gs_soname = cstr REAL_RIL_SONAME, gs_base = 0, gs_phdr = [], gs_jmprel = 0, gs_jmprelCount = 0,
     gs_symtab = 0, gs_strtab = 0, gs_found = False\<rparr>"

text \<open>The two searches; \<^term>\<open>None\<close> inside when one of them fails or both give the same slot.\<close>

definition find_pair :: "image \<Rightarrow> process \<Rightarrow> ((GotEntry \<times> GotEntry) option \<times> process) option" where
  "find_pair im p = do {
     scan \<leftarrow> dl_iterate_phdr p (im_modules im p) new_scan;
     if \<not> gs_found scan then Some (None, p)
     else do {
       (unsol, p) \<leftarrow> findGotEntry scan (cstr ''RIL_onUnsolicitedResponse'') (im_unsolHook im) (im_pageSize im) p;
       case unsol of None \<Rightarrow> Some (None, p)
       | Some unsol \<Rightarrow> do {
         (complete, p) \<leftarrow> findGotEntry scan (cstr ''RIL_onRequestComplete'') (im_completeHook im) (im_pageSize im) p;
         case complete of None \<Rightarrow> Some (None, p)
         | Some complete \<Rightarrow> Some (if ge_slot unsol = ge_slot complete then None else Some (unsol, complete), p)
       }
     }
   }"

text \<open>Both writes and both verifications, each only when the ones before it succeeded.\<close>

definition write_pair :: "GotEntry \<Rightarrow> GotEntry \<Rightarrow> process \<Rightarrow> (bool \<times> process) option" where
  "write_pair unsol complete p = do {
     (ok, p) \<leftarrow> writeGotValue unsol (ge_original unsol) (ge_replacement unsol) p;
     (ok, p) \<leftarrow> (if ok then writeGotValue complete (ge_original complete) (ge_replacement complete) p else Some (False, p));
     (ok, p) \<leftarrow> (if ok then verifyGotValue unsol (ge_replacement unsol) p else Some (False, p));
     if ok then verifyGotValue complete (ge_replacement complete) p else Some (False, p)
   }"

definition abort_hooks :: "GotEntry \<Rightarrow> GotEntry \<Rightarrow> shim \<Rightarrow> (int \<times> shim) option" where
  "abort_hooks unsol complete s = do {
     (rolledBack, p) \<leftarrow> rollbackGotHooks unsol complete (sh_proc s);
     Some (- 1, hook_state (if rolledBack then IA_HOOKS_DISABLED else IA_HOOKS_FAILED) (s\<lparr>sh_proc := p\<rparr>))
   }"

definition installAttachApnHooks :: "image \<Rightarrow> shim \<Rightarrow> (int \<times> shim) option" where
  "installAttachApnHooks im s =
     (if sIaHookState (sh_ia s) \<noteq> IA_HOOKS_DISABLED
      then Some (if sIaHookState (sh_ia s) = IA_HOOKS_ACTIVE then 0 else - 1, s)
      else do {
        let s = hook_state IA_HOOKS_INSTALLING s;
        (found, p) \<leftarrow> find_pair im (sh_proc s);
        let s = s\<lparr>sh_proc := p\<rparr>;
        case found of None \<Rightarrow> Some (- 1, hook_state IA_HOOKS_DISABLED s)
        | Some (unsol, complete) \<Rightarrow> do {
            let s = s\<lparr>sh_ia := (sh_ia s)\<lparr>sRealOnUnsol := ge_original unsol, sRealOnComplete := ge_original complete\<rparr>\<rparr>;
            (ok, p) \<leftarrow> write_pair unsol complete (sh_proc s);
            let s = s\<lparr>sh_proc := p\<rparr>;
            if \<not> ok then abort_hooks unsol complete s
            else let (rc, th) = startIaWorker (sh_threads s); s = s\<lparr>sh_threads := th\<rparr> in
              if rc \<noteq> 0 then abort_hooks unsol complete s
              else Some (0, hook_state IA_HOOKS_ACTIVE s)
          }
      })"

section \<open>Requests\<close>

text \<open>The requests the shim looks at; every other one by its number.\<close>

datatype ril_request =
    RIL_REQUEST_GET_RADIO_CAPABILITY
  | RIL_REQUEST_SET_RADIO_CAPABILITY
  | RIL_REQUEST_SET_INITIAL_ATTACH_APN
  | RIL_REQUEST_OTHER int

text \<open>A \<open>void *\<close> argument: the address, and what it reads as at each of the two structure types.\<close>

record void_data =
  vd_addr :: addr
  vd_capability :: "RIL_RadioCapability option"
  vd_apn :: "MtkInitialAttachApn option"

datatype shim_effect =
    Respond ril_event
  | CallOnRequest u64 ril_request void_data nat token int

text \<open>
  The code behind a request function of the vendor library is an argument, \<open>real\<close>: it runs in the state the shim has
  reached when it calls it, and may change that state, as the library's calls back into the shim do.
\<close>

type_synonym request_fn = "u64 \<Rightarrow> ril_request \<Rightarrow> void_data \<Rightarrow> nat \<Rightarrow> token \<Rightarrow> int \<Rightarrow> shim \<Rightarrow> shim option"

definition onRequestShim ::
  "request_fn \<Rightarrow> ril_request \<Rightarrow> void_data \<Rightarrow> nat \<Rightarrow> token \<Rightarrow> int \<Rightarrow> shim \<Rightarrow> (shim_effect list \<times> shim) option" where
  "onRequestShim real request data datalen t socketId s =
     (if request = RIL_REQUEST_GET_RADIO_CAPABILITY then do {
        es \<leftarrow> getRadioCapability t socketId;
        Some (map Respond es, s)
      }
      else if request = RIL_REQUEST_SET_RADIO_CAPABILITY then do {
        (rc, es) \<leftarrow> setRadioCapability (vd_capability data) datalen t socketId (sh_rc s);
        Some (map Respond es, s\<lparr>sh_rc := rc\<rparr>)
      }
      else do {
        s \<leftarrow> (if request = RIL_REQUEST_SET_INITIAL_ATTACH_APN \<and> attachApnHooksActive (sh_ia s) then do {
               (cache, h) \<leftarrow> cacheInitialAttachApn socketId (vd_apn data) datalen (ia_store (sh_ia s)) (sh_heap s);
               Some (s\<lparr>sh_ia := (sh_ia s)\<lparr>ia_store := cache\<rparr>, sh_heap := h\<rparr>)
             } else Some s);
        if sRealOnRequest s = 0 then None
        else do {
          s' \<leftarrow> real (sRealOnRequest s) request data datalen t socketId s;
          Some ([CallOnRequest (sRealOnRequest s) request data datalen t socketId], s')
        }
      })"

section \<open>The function table\<close>

text \<open>
  The kernel changes whole pages, so a length is rounded up. The table's version is a C int at offset 0 and
  its \<open>onRequest\<close> a pointer at offset 8, as the source asserts.
\<close>

definition round_page :: "u64 \<Rightarrow> u64 \<Rightarrow> u64" where
  "round_page pageSize len = (len + (pageSize - 1)) div pageSize * pageSize"

definition table_version :: "addr \<Rightarrow> process \<Rightarrow> int option" where
  "table_version funcs p = do { v \<leftarrow> peek32 p funcs; Some (sint v) }"

definition patchOnRequest :: "image \<Rightarrow> addr \<Rightarrow> shim \<Rightarrow> (int \<times> shim) option" where
  "patchOnRequest im funcs s = (
     let field = funcs + 8; pageSize = im_pageSize im; p = sh_proc s in
     if pageSize \<le> 0 then Some (- 1, s)
     else do {
       version \<leftarrow> table_version funcs p;
       if version < 6 \<or> version > 20 then Some (- 1, s)
       else do {
         onRequest \<leftarrow> peek64 p field;
         if onRequest = 0 then Some (- 1, s)
         else do {
           let page = field AND NOT (of_int pageSize - 1);
           let len = round_page (of_int pageSize) (field + 8 - page);
           let (oldProt, p) = mappingProt field p;
           if oldProt < 0 then Some (- 1, s\<lparr>sh_proc := p\<rparr>)
           else do {
             let (rc, p) = (if oldProt AND PROT_WRITE = 0 then mprotect page len (oldProt OR PROT_WRITE) p else (0, p));
             if rc \<noteq> 0 then Some (- 1, s\<lparr>sh_proc := p\<rparr>)
             else do {
               onRequest \<leftarrow> peek64 p field;
               let s = s\<lparr>sRealOnRequest := onRequest\<rparr>;
               p \<leftarrow> poke64 p field (im_onRequestShim im);
               now \<leftarrow> peek64 p field;
               let patched = (now = im_onRequestShim im);
               let (rc, p) = (if oldProt AND PROT_WRITE = 0 then mprotect page len oldProt p else (0, p));
               let (rc, p) = (if rc \<noteq> 0 then mprotect page len oldProt p else (0, p));
               Some (if patched then 0 else - 1, s\<lparr>sh_proc := p\<rparr>)
             }
           }
         }
       }
     })"

section \<open>Entry points\<close>

definition openRealRil :: "vendor \<Rightarrow> shim \<Rightarrow> shim" where
  "openRealRil vn s = (if sRealHandle s = 0 then
     (let (handle, p) = vn_dlopen vn REAL_RIL_SONAME (sh_proc s) in s\<lparr>sRealHandle := handle, sh_proc := p\<rparr>) else s)"

definition RIL_Init :: "vendor \<Rightarrow> image \<Rightarrow> init_args \<Rightarrow> shim \<Rightarrow> (addr \<times> shim) option" where
  "RIL_Init vn im args s =
     (if sOnRequestPatched s then Some (sRealFuncs s, s)
      else let s = openRealRil vn s in
        if sRealHandle s = 0 then Some (0, s)
        else let realInit = vn_dlsym vn (sRealHandle s) ''RIL_Init'' in
          if realInit = 0 then Some (0, s)
          else do {
            let s = s\<lparr>sEnv := ar_env args\<rparr>;
            (funcs, p) \<leftarrow> vendor_call vn realInit args (sh_proc s);
            let s = s\<lparr>sRealFuncs := funcs, sh_proc := p\<rparr>;
            if sRealFuncs s = 0 then Some (0, s)
            else do {
              (rc, s) \<leftarrow> patchOnRequest im (sRealFuncs s) s;
              if rc \<noteq> 0 then Some (0, s)
              else do {
                let s = s\<lparr>sOnRequestPatched := True\<rparr>;
                version \<leftarrow> table_version (sRealFuncs s) (sh_proc s);
                (rc, s) \<leftarrow> (if version < 15 then Some (- 1, s) else installAttachApnHooks im s);
                Some (sRealFuncs s, s)
              }
            }
          })"

definition RIL_SAP_Init :: "vendor \<Rightarrow> init_args \<Rightarrow> shim \<Rightarrow> (addr \<times> shim) option" where
  "RIL_SAP_Init vn args s = (let s = openRealRil vn s in
     if sRealHandle s = 0 then Some (0, s)
     else let realSapInit = vn_dlsym vn (sRealHandle s) ''RIL_SAP_Init'' in
       if realSapInit = 0 then Some (0, s)
       else do {
         (funcs, p) \<leftarrow> vendor_call vn realSapInit args (sh_proc s);
         Some (funcs, s\<lparr>sh_proc := p\<rparr>)
       })"

section \<open>Lemmas on the worker and the search\<close>

lemma startIaWorker_result:
  assumes "startIaWorker th = (rc, th')"
  shows "if rc = 0 then workers th' = Suc (workers th) \<and> sIaWake_monotonic th' else workers th' = workers th"
  using assms
  by (auto simp: startIaWorker_def initIaWake_def pthread_rc_def Let_def split: list.splits if_splits prod.splits)

lemma gotScanCallback_next: "gotScanCallback p info scan = Some (0, scan') \<Longrightarrow> scan' = scan"
  by (auto simp: gotScanCallback_def Let_def split: option.splits if_splits sum.splits Option.bind_splits)

lemma dl_iterate_tables:
  "dl_iterate_phdr p infos scan = Some scan' \<Longrightarrow> \<not> gs_found scan \<Longrightarrow> gs_found scan' \<Longrightarrow> tables_in scan'"
proof (induction p infos scan rule: dl_iterate_phdr.induct)
  case (2 p info infos scan)
  then obtain rc scan1 where call: "gotScanCallback p info scan = Some (rc, scan1)" by (auto split: Option.bind_splits)
  show ?case
  proof (cases "rc = 0")
    case True
    then show ?thesis using 2 call gotScanCallback_next [of p info scan scan1] by simp
  next
    case False
    then show ?thesis using 2(2-4) call gotScanCallback_tables [of p info scan rc scan1] by simp
  qed
qed simp

text \<open>
  A process in which the library can be searched: pages of \<open>n\<close> bytes, the linker's list can be walked, and
  when the library is in it its segments are readable and its jump slots aligned as the ABI requires.
\<close>

definition searchable :: "image \<Rightarrow> nat \<Rightarrow> process \<Rightarrow> bool" where
  "searchable im n p \<longleftrightarrow> paged n (maps p) \<and> proper (maps p) \<and> im_pageSize im = int n
     \<and> (\<exists>scan. dl_iterate_phdr p (im_modules im p) new_scan = Some scan \<and> (gs_found scan \<longrightarrow> module_mapped p scan
          \<and> (\<forall>symbol k j off. j < gs_jmprelCount scan \<and> got_match scan symbol k j p = Some (Some off) \<longrightarrow> 8 dvd unat (gs_base scan + off))))"

lemma sound_entry_ok:
  assumes "sound_entry p scan replacement (int n) e" "module_mapped p scan" "paged n (maps p)" "8 dvd unat (ge_slot e)"
  shows "entry_ok n p e"
proof -
  have s: "inModule scan (ge_slot e) 8" "peek64 p (ge_slot e) = Some (ge_original e)" "ge_original e \<noteq> ge_replacement e"
    "ge_pageSize e = of_nat n" "ge_page e = ge_slot e - ge_slot e mod ge_pageSize e"
    "prot_at (maps p) (ge_slot e) = Some (ge_protection e)" "0 \<le> ge_protection e" "ge_protection e < 8"
    using assms(1) by (auto simp: sound_entry_def)
  have "can PROT_READ p (ge_slot e)" using module_peek [OF assms(2) s(1), of 0 1] by (simp add: span_def)
  then have "ge_protection e AND PROT_READ \<noteq> 0" using s(6) by (simp add: can_def)
  moreover have "map (ram p) (span (ge_slot e) 8) = le64 (ge_original e)" using s(2) by (simp add: peek64_iff)
  ultimately show ?thesis using s assms(4) by (simp only: entry_ok_def) simp
qed

lemma find_pair_result:
  assumes "searchable im n p"
  shows "\<exists>r p'. find_pair im p = Some (r, p') \<and> same_mem p p' \<and> (\<forall>u c. r = Some (u, c) \<longrightarrow> pair_ok n p u c
    \<and> ge_replacement u = im_unsolHook im \<and> ge_replacement c = im_completeHook im \<and> ge_original u \<noteq> 0 \<and> ge_original c \<noteq> 0)"
proof -
  have pages: "paged n (maps p)" "proper (maps p)" "im_pageSize im = int n" using assms by (auto simp: searchable_def)
  obtain scan where scan: "dl_iterate_phdr p (im_modules im p) new_scan = Some scan"
    "gs_found scan \<Longrightarrow> module_mapped p scan"
    "\<And>symbol k j off. gs_found scan \<Longrightarrow> j < gs_jmprelCount scan \<Longrightarrow> got_match scan symbol k j p = Some (Some off) \<Longrightarrow> 8 dvd unat (gs_base scan + off)"
    using assms by (auto simp: searchable_def)
  show ?thesis
  proof (cases "gs_found scan")
    case False
    then show ?thesis using scan(1) by (simp add: find_pair_def same_mem_def)
  next
    case True
    note mapped = scan(2) [OF True]
    have tables: "tables_in scan" using dl_iterate_tables [OF scan(1)] True by (simp add: new_scan_def)
    have found: "\<exists>r q'. findGotEntry scan (cstr name) h (int n) q = Some (r, q') \<and> same_mem p q'
        \<and> (\<forall>e. r = Some e \<longrightarrow> entry_ok n p e \<and> ge_replacement e = h \<and> ge_original e \<noteq> 0)"
      if q: "same_mem p q" and len: "length name < 1000" for name h q
    proof -
      have mq: "module_mapped q scan" "proper (maps q)"
        using q mapped pages(2) same_mem_peek(1) [OF q] by (auto simp: module_mapped_def same_mem_def)
      have sym: "0 \<in> set (cstr name)" "length (cstr name) < 2 ^ 64" using len by (simp_all add: cstr_def ascii_def)
      obtain r q' where r: "findGotEntry scan (cstr name) h (int n) q = Some (r, q')" "same_mem q q'"
        "\<forall>e. r = Some e \<longrightarrow> sound_entry q scan h (int n) e \<and> (\<exists>j off. matches q scan (cstr name) (length (str_of (cstr name)) + 1) 0 = {j}
            \<and> got_match scan (cstr name) (length (str_of (cstr name)) + 1) j q = Some (Some off) \<and> ge_slot e = gs_base scan + off)"
        using findGotEntry_result [OF mq(1) tables mq(2) sym refl, of h "int n"] by (elim exE conjE)
      have "entry_ok n p e \<and> ge_replacement e = h \<and> ge_original e \<noteq> 0" if re: "r = Some e" for e
      proof -
        have se: "sound_entry p scan h (int n) e"
          using r(3) re same_mem_peek(3) [OF q] q by (auto simp: sound_entry_def same_mem_def)
        obtain j off where j: "matches q scan (cstr name) (length (str_of (cstr name)) + 1) 0 = {j}" "ge_slot e = gs_base scan + off"
          "got_match scan (cstr name) (length (str_of (cstr name)) + 1) j q = Some (Some off)" using r(3) re by blast
        then have "j < gs_jmprelCount scan" by (auto simp: matches_def)
        then have "8 dvd unat (ge_slot e)" using scan(3) [OF True] j(2,3) same_mem_peek(5) [OF q] by simp
        then show ?thesis using sound_entry_ok [OF se mapped pages(1)] se by (simp add: sound_entry_def)
      qed
      then show ?thesis using r(1) same_mem_trans [OF q r(2)] by blast
    qed
    obtain ru p1 where u: "findGotEntry scan (cstr ''RIL_onUnsolicitedResponse'') (im_unsolHook im) (int n) p = Some (ru, p1)" "same_mem p p1"
      "\<forall>e. ru = Some e \<longrightarrow> entry_ok n p e \<and> ge_replacement e = im_unsolHook im \<and> ge_original e \<noteq> 0"
      using found [of p "''RIL_onUnsolicitedResponse''" "im_unsolHook im"] by (auto simp: same_mem_def)
    obtain rc p2 where c: "findGotEntry scan (cstr ''RIL_onRequestComplete'') (im_completeHook im) (int n) p1 = Some (rc, p2)" "same_mem p p2"
      "\<forall>e. rc = Some e \<longrightarrow> entry_ok n p e \<and> ge_replacement e = im_completeHook im \<and> ge_original e \<noteq> 0"
      using found [OF u(2), of "''RIL_onRequestComplete''" "im_completeHook im"] by auto
    show ?thesis
    proof (cases "ru = None \<or> rc = None")
      case none: True
      then show ?thesis using scan(1) True u(1,2) c(1,2) pages(3) by (cases ru) (auto simp: find_pair_def)
    next
      case False
      then obtain eu ec where e: "ru = Some eu" "rc = Some ec" by auto
      have "find_pair im p = Some (if ge_slot eu = ge_slot ec then None else Some (eu, ec), p2)"
        using scan(1) True u(1) c(1) e pages(3) by (simp add: find_pair_def)
      then show ?thesis using u(3) c(2,3) e pages(1,2) by (simp add: pair_ok_def)
    qed
  qed
qed

section \<open>The transaction\<close>

lemma txn_start:
  assumes "pair_ok n p0 e1 e2" "same_mem p0 p" shows "txn n p0 {e1, e2} p"
proof -
  have start: "paged n (maps p0)" "proper (maps p0)" using assms(1) by (simp_all add: pair_ok_def)
  have entry: "holds p0 e (ge_original e) \<and> page_prot n p0 (ge_slot e) (ge_protection e)" if "entry_ok n p0 e" for e
  proof -
    have "prot_at (maps p0) (ge_slot e) = Some (ge_protection e)" using that by (simp only: entry_ok_def)
    then have "page_prot n p0 (ge_slot e) (ge_protection e)"
      unfolding page_prot_def using prot_at_page [OF start(1)] by metis
    moreover have "holds p0 e (ge_original e)" using that by (simp only: entry_ok_def holds_def)
    ultimately show ?thesis by simp
  qed
  have "\<forall>e \<in> {e1, e2}. entry_ok n p0 e" using assms(1) by (simp add: pair_ok_def)
  then have "txn n p0 {e1, e2} p0" unfolding txn_def using entry start(2) by blast
  then show ?thesis using txn_same_mem [OF assms(2)] by simp
qed

lemma write_pair_result:
  assumes ok: "pair_ok n p0 u c" and p: "txn n p0 {u, c} p"
  shows "\<exists>b p'. write_pair u c p = Some (b, p') \<and> txn n p0 {u, c} p'
    \<and> (b \<longrightarrow> at_rest n p' u (ge_replacement u) \<and> at_rest n p' c (ge_replacement c))"
proof -
  obtain b1 p1 where 1: "writeGotValue u (ge_original u) (ge_replacement u) p = Some (b1, p1)" "txn n p0 {u, c} p1"
    using writeGotValue_spec [OF ok _ p, of u "ge_replacement u" "ge_original u"] by auto
  obtain b2 p2 where 2: "writeGotValue c (ge_original c) (ge_replacement c) p1 = Some (b2, p2)" "txn n p0 {u, c} p2"
    using writeGotValue_spec [OF ok _ 1(2), of c "ge_replacement c" "ge_original c"] by auto
  obtain b3 p3 where 3: "verifyGotValue u (ge_replacement u) p2 = Some (b3, p3)" "same_mem p2 p3"
    "b3 \<longrightarrow> at_rest n p2 u (ge_replacement u)" using verify_spec [OF ok _ 2(2), of u] by blast
  have t3: "txn n p0 {u, c} p3" using txn_same_mem [OF 3(2)] 2(2) by simp
  obtain b4 p4 where 4: "verifyGotValue c (ge_replacement c) p3 = Some (b4, p4)" "same_mem p3 p4"
    "b4 \<longrightarrow> at_rest n p3 c (ge_replacement c)" using verify_spec [OF ok _ t3, of c] by blast
  have t4: "txn n p0 {u, c} p4" using txn_same_mem [OF 4(2)] t3 by simp
  have rest: "at_rest n p4 e v = at_rest n p3 e v" "at_rest n p4 e v = at_rest n p2 e v" for e v
    using 3(2) 4(2) by (simp_all add: at_rest_def holds_def page_prot_def same_mem_def)
  have call: "write_pair u c p = (if \<not> b1 then Some (False, p1) else if \<not> b2 then Some (False, p2)
      else if \<not> b3 then Some (False, p3) else Some (b4, p4))"
    unfolding write_pair_def using 1(1) 2(1) 3(1) 4(1) by simp
  show ?thesis
    unfolding call using 1(2) 2(2) t3 t4 3(3) 4(3) rest by auto
qed

text \<open>What is known of the state once the pair \<open>u\<close>, \<open>c\<close> was found in the process of \<open>s\<close>.\<close>

definition hooking :: "image \<Rightarrow> nat \<Rightarrow> shim \<Rightarrow> GotEntry \<Rightarrow> GotEntry \<Rightarrow> shim \<Rightarrow> bool" where
  "hooking im n s u c s' \<longleftrightarrow> pair_ok n (sh_proc s) u c \<and> txn n (sh_proc s) {u, c} (sh_proc s')
     \<and> ge_replacement u = im_unsolHook im \<and> ge_replacement c = im_completeHook im
     \<and> sRealOnUnsol (sh_ia s') = ge_original u \<and> sRealOnComplete (sh_ia s') = ge_original c
     \<and> ge_original u \<noteq> 0 \<and> ge_original c \<noteq> 0 \<and> (\<exists>p1. find_pair im (sh_proc s) = Some (Some (u, c), p1))"

text \<open>The process as it was: every byte and every protection.\<close>

definition unchanged :: "process \<Rightarrow> process \<Rightarrow> bool" where
  "unchanged p p' \<longleftrightarrow> ram p' = ram p \<and> prot_at (maps p') = prot_at (maps p)"

definition gave_up :: "image \<Rightarrow> nat \<Rightarrow> shim \<Rightarrow> shim \<Rightarrow> bool" where
  "gave_up im n s s' \<longleftrightarrow> sIaHookState (sh_ia s') = IA_HOOKS_DISABLED \<and> unchanged (sh_proc s) (sh_proc s')
     \<or> sIaHookState (sh_ia s') = IA_HOOKS_FAILED \<and> (\<exists>u c. hooking im n s u c s')"

lemma abort_hooks_result:
  assumes "hooking im n s u c s1"
  shows "\<exists>s'. abort_hooks u c s1 = Some (- 1, s') \<and> gave_up im n s s' \<and> sh_threads s' = sh_threads s1"
proof -
  have ok: "pair_ok n (sh_proc s) u c" "txn n (sh_proc s) {u, c} (sh_proc s1)" using assms by (auto simp: hooking_def)
  obtain b p' where r: "rollbackGotHooks u c (sh_proc s1) = Some (b, p')" "txn n (sh_proc s) {u, c} p'"
    "b \<longrightarrow> at_rest n p' u (ge_original u) \<and> at_rest n p' c (ge_original c)"
    using rollback_spec [OF ok] by blast
  have "unchanged (sh_proc s) p'" if b
  proof -
    have "at_rest n p' e (ge_original e)" if "e \<in> {u, c}" for e using r(3) \<open>b\<close> that by auto
    from at_rest_restored [OF ok(1) r(2) this] show ?thesis by (auto simp: unchanged_def)
  qed
  then show ?thesis
    using r(1,2) assms by (cases b) (auto simp: abort_hooks_def hook_state_def gave_up_def hooking_def)
qed

section \<open>When no call is refused\<close>

lemma willing [simp]: "refused p = [] \<Longrightarrow> kernel_refuses p = (False, p)"
  by (simp add: kernel_refuses_def)

lemma willing_mprotect: "refused p = [] \<Longrightarrow> mprotect page len prot p = (rc, p') \<Longrightarrow> rc = 0 \<and> refused p' = []"
  by (auto simp: mprotect_def)

lemma mprotect_other:
  assumes "paged n (maps p0)" "entry_ok n p0 e" "mprotect (ge_page e) (ge_pageSize e) new p = (rc, p')"
    "page_of n x \<noteq> page_of n (ge_slot e)"
  shows "prot_at (maps p') x = prot_at (maps p) x"
proof -
  have "ge_page e \<le> x \<and> x < ge_page e + ge_pageSize e \<longleftrightarrow> page_of n x = page_of n (ge_slot e)"
    using slot_page(3) [OF assms(1), of "ge_slot e" x] assms(2) by (auto simp: entry_ok_def)
  then have out: "\<not> (ge_page e \<le> x \<and> x < ge_page e + ge_pageSize e)" using assms(4) by simp
  obtain no p1 where k: "kernel_refuses p = (no, p1)" by (cases "kernel_refuses p")
  then have "maps p1 = maps p" using kernel_refuses_same by (auto simp: same_mem_def)
  then show ?thesis
    using assms(3) k out by (cases no) (auto simp: mprotect_def option.map_ident_strong)
qed

lemma exchange_maps: "compare_exchange a x y p = Some (b, p') \<Longrightarrow> maps p' = maps p"
  by (auto simp: compare_exchange_def poke64_peek64(1) split: Option.bind_splits if_splits)

lemma exchange_refused: "compare_exchange a x y p = Some (b, p') \<Longrightarrow> refused p' = refused p"
  by (auto simp: compare_exchange_def poke64_peek64(2) split: Option.bind_splits if_splits)

lemma verify_succeeds:
  assumes ok: "pair_ok n p0 e1 e2" and e: "e \<in> {e1, e2}" and p: "txn n p0 {e1, e2} p"
    and w: "refused p = []" and r: "at_rest n p e v"
  shows "verifyGotValue e v p = Some (True, p)"
proof -
  have "peek64 p (ge_slot e) = Some v" using entry_peek(1) [OF ok e p] r by (simp add: at_rest_def)
  moreover have "prot_at (maps p) (ge_slot e) = Some (ge_protection e)" "proper (maps p)"
    using r p by (auto simp: at_rest_def page_prot_def txn_def)
  ultimately show ?thesis
    using w by (simp add: verifyGotValue_def loadGotValue_def mappingProt_def mappingProt_lines_text)
qed

lemma writeGotValue_succeeds:
  assumes ok: "pair_ok n p0 e1 e2" and e: "e \<in> {e1, e2}" and p: "txn n p0 {e1, e2} p"
    and d: "desired = ge_original e \<or> desired = ge_replacement e" and w: "refused p = []" and x: "holds p e expected"
  shows "\<exists>p'. writeGotValue e expected desired p = Some (True, p') \<and> refused p' = []
    \<and> (\<forall>x. page_of n x \<noteq> page_of n (ge_slot e) \<longrightarrow> prot_at (maps p') x = prot_at (maps p) x)"
proof -
  have eo: "paged n (maps p0)" "entry_ok n p0 e" using ok e by (auto simp: pair_ok_def)
  let ?w = "ge_protection e AND PROT_WRITE \<noteq> 0"
  have prot: "0 \<le> ge_protection e" "ge_protection e < 8" using ok e by (auto simp: pair_ok_def entry_ok_def)
  have pages: "page_prot n p1 (ge_slot e) (ge_protection e)" "page_prot n p1 (ge_slot e) (ge_protection e OR PROT_WRITE)"
    if "?w" "txn n p0 {e1, e2} p1" for p1
    using that e rights(5) [OF prot] by (auto simp: txn_def)
  obtain p1 where 1: "(if \<not> ?w then mprotect (ge_page e) (ge_pageSize e) (ge_protection e OR PROT_WRITE) p else (0, p)) = (0, p1)"
    "txn n p0 {e1, e2} p1" "ram p1 = ram p" "page_prot n p1 (ge_slot e) (ge_protection e OR PROT_WRITE)" "refused p1 = []"
  proof (cases ?w)
    case True
    then show ?thesis using that [of p] p w pages(2) by simp
  next
    case False
    then show ?thesis using mprotect_page [OF ok e p, of "ge_protection e OR PROT_WRITE"] that willing_mprotect [OF w] by auto
  qed
  have "holds p1 e expected" using x 1(3) by (simp add: holds_def)
  then obtain p2 where 2: "compare_exchange (ge_slot e) expected desired p1 = Some (True, p2)" "txn n p0 {e1, e2} p2" "holds p2 e desired"
    using exchange_slot [OF ok e 1(2,4) rights(3) [OF prot] d, of expected] by auto
  have w2: "refused p2 = []" using exchange_refused [OF 2(1)] 1(5) by simp
  have now: "peek64 p2 (ge_slot e) = Some desired" using 2(3) entry_peek(1) [OF ok e 2(2)] by simp
  obtain p3 where 3: "(if \<not> ?w then mprotect (ge_page e) (ge_pageSize e) (ge_protection e) p2 else (0, p2)) = (0, p3)"
    "txn n p0 {e1, e2} p3" "ram p3 = ram p2" "page_prot n p3 (ge_slot e) (ge_protection e)" "refused p3 = []"
  proof (cases ?w)
    case True
    then show ?thesis using that [of p2] 2(2) w2 pages(1) by simp
  next
    case False
    then show ?thesis using mprotect_page [OF ok e 2(2), of "ge_protection e"] that willing_mprotect [OF w2] by auto
  qed
  have "at_rest n p3 e desired" using 2(3) 3(3,4) by (simp add: at_rest_def holds_def)
  then have "verifyGotValue e desired p3 = Some (True, p3)" using verify_succeeds [OF ok e 3(2,5)] by simp
  moreover have "prot_at (maps p3) x = prot_at (maps p) x" if "page_of n x \<noteq> page_of n (ge_slot e)" for x
  proof -
    have "prot_at (maps p1) x = prot_at (maps p) x" "prot_at (maps p3) x = prot_at (maps p2) x"
      using 1(1) 3(1) mprotect_other [OF eo _ that] by (cases ?w; auto)+
    then show ?thesis using exchange_maps [OF 2(1)] by simp
  qed
  ultimately show ?thesis
    unfolding writeGotValue_def Let_def 1(1) using 2(1) now 3(1,5) by auto
qed

lemma write_pair_succeeds:
  assumes ok: "pair_ok n p0 u c" and same: "same_mem p0 p" and w: "refused p = []"
  shows "\<exists>p'. write_pair u c p = Some (True, p')"
proof -
  have p: "txn n p0 {u, c} p" by (rule txn_start [OF ok same])
  have x: "holds p u (ge_original u)" "holds p c (ge_original c)" "c \<noteq> u"
    using ok same by (auto simp: pair_ok_def entry_ok_def holds_def same_mem_def)
  obtain p1 where 1: "writeGotValue u (ge_original u) (ge_replacement u) p = Some (True, p1)" "refused p1 = []"
    using writeGotValue_succeeds [OF ok _ p _ w x(1), of "ge_replacement u"] by auto
  have t1: "txn n p0 {u, c} p1" "at_rest n p1 u (ge_replacement u)" "holds p1 c (ge_original c)"
    using writeGotValue_spec [OF ok _ p, of u "ge_replacement u" "ge_original u"] 1(1) x(2,3) by auto
  obtain p2 where 2: "writeGotValue c (ge_original c) (ge_replacement c) p1 = Some (True, p2)" "refused p2 = []"
    "\<forall>x. page_of n x \<noteq> page_of n (ge_slot c) \<longrightarrow> prot_at (maps p2) x = prot_at (maps p1) x"
    using writeGotValue_succeeds [OF ok _ t1(1) _ 1(2) t1(3), of "ge_replacement c"] by auto
  have t2: "txn n p0 {u, c} p2" "at_rest n p2 c (ge_replacement c)" "holds p2 u (ge_replacement u)"
    using writeGotValue_spec [OF ok _ t1(1), of c "ge_replacement c" "ge_original c"] 2(1) x(3) t1(2) by (auto simp: at_rest_def)
  have "page_prot n p2 (ge_slot u) (ge_protection u)"
  proof (cases "page_of n (ge_slot u) = page_of n (ge_slot c)")
    case True
    then show ?thesis
      using t2(2) same_page_prot [OF ok, of u c] by (simp add: at_rest_def page_prot_def)
  next
    case False
    then show ?thesis using t1(2) 2(3) by (simp add: at_rest_def page_prot_def)
  qed
  then have "at_rest n p2 u (ge_replacement u)" using t2(3) by (simp add: at_rest_def)
  then have "verifyGotValue u (ge_replacement u) p2 = Some (True, p2)" "verifyGotValue c (ge_replacement c) p2 = Some (True, p2)"
    using verify_succeeds [OF ok _ t2(1) 2(2)] t2(2) by auto
  then show ?thesis unfolding write_pair_def using 1(1) 2(1) by simp
qed

section \<open>Installation as a whole\<close>

lemma install_result:
  assumes dis: "sIaHookState (sh_ia s) = IA_HOOKS_DISABLED" and ok: "searchable im n (sh_proc s)"
  shows "\<exists>rc s'. installAttachApnHooks im s = Some (rc, s')
    \<and> (if rc = 0 then sIaHookState (sh_ia s') = IA_HOOKS_ACTIVE \<and> workers (sh_threads s') = Suc (workers (sh_threads s))
         \<and> sIaWake_monotonic (sh_threads s') \<and> (\<exists>u c. hooking im n s u c s'
            \<and> at_rest n (sh_proc s') u (im_unsolHook im) \<and> at_rest n (sh_proc s') c (im_completeHook im))
       else rc = - 1 \<and> gave_up im n s s' \<and> workers (sh_threads s') = workers (sh_threads s))
    \<and> (\<forall>u c p1. find_pair im (sh_proc s) = Some (Some (u, c), p1) \<and> refused p1 = [] \<and> thread_rcs (sh_threads s) = [] \<longrightarrow> rc = 0)"
proof -
  obtain r p1 where f: "find_pair im (sh_proc s) = Some (r, p1)" "same_mem (sh_proc s) p1"
    "\<forall>u c. r = Some (u, c) \<longrightarrow> pair_ok n (sh_proc s) u c \<and> ge_replacement u = im_unsolHook im
        \<and> ge_replacement c = im_completeHook im \<and> ge_original u \<noteq> 0 \<and> ge_original c \<noteq> 0"
    using find_pair_result [OF ok] by blast
  show ?thesis
  proof (cases r)
    case None
    then show ?thesis
      using dis f(1,2) by (auto simp: installAttachApnHooks_def hook_state_def gave_up_def unchanged_def same_mem_def Let_def)
  next
    case (Some uc)
    obtain u c where uc: "uc = (u, c)" by (cases uc)
    have pair: "pair_ok n (sh_proc s) u c" and repl: "ge_replacement u = im_unsolHook im" "ge_replacement c = im_completeHook im"
      using f(3) Some uc by simp_all
    obtain b p2 where w: "write_pair u c p1 = Some (b, p2)" "txn n (sh_proc s) {u, c} p2"
      "b \<longrightarrow> at_rest n p2 u (ge_replacement u) \<and> at_rest n p2 c (ge_replacement c)"
      using write_pair_result [OF pair txn_start [OF pair f(2)]] by blast
    obtain rc th where t: "startIaWorker (sh_threads s) = (rc, th)" by (cases "startIaWorker (sh_threads s)")
    define s2 where "s2 = (hook_state IA_HOOKS_INSTALLING s)\<lparr>sh_ia := (sh_ia (hook_state IA_HOOKS_INSTALLING s))
      \<lparr>sRealOnUnsol := ge_original u, sRealOnComplete := ge_original c\<rparr>, sh_proc := p2\<rparr>"
    have s2: "sh_threads s2 = sh_threads s" "sh_proc s2 = p2" by (simp_all add: s2_def hook_state_def)
    have h: "hooking im n s u c (s2\<lparr>sh_threads := th'\<rparr>)" for th'
      using f(1,3) Some uc pair w(2) by (simp add: hooking_def s2_def)
    have call: "installAttachApnHooks im s = (if \<not> b then abort_hooks u c s2
        else if rc \<noteq> 0 then abort_hooks u c (s2\<lparr>sh_threads := th\<rparr>) else Some (0, hook_state IA_HOOKS_ACTIVE (s2\<lparr>sh_threads := th\<rparr>)))"
      using dis f(1) Some uc w(1) t by (simp add: installAttachApnHooks_def hook_state_def Let_def s2_def cong: if_cong)
    have full: "b \<and> rc = 0" if "refused p1 = []" "thread_rcs (sh_threads s) = []"
      using write_pair_succeeds [OF pair f(2) that(1)] w(1) that(2) t
      by (auto simp: startIaWorker_def initIaWake_def pthread_rc_def)
    show ?thesis
    proof (cases "b \<and> rc = 0")
      case True
      define s' where "s' = hook_state IA_HOOKS_ACTIVE (s2\<lparr>sh_threads := th\<rparr>)"
      have parts: "sh_proc s' = p2" "sh_threads s' = th" "sIaHookState (sh_ia s') = IA_HOOKS_ACTIVE"
        by (simp_all add: s'_def hook_state_def s2(2))
      have "hooking im n s u c s'" using h [of th] by (simp add: hooking_def s'_def hook_state_def)
      moreover have "at_rest n (sh_proc s') u (im_unsolHook im)" "at_rest n (sh_proc s') c (im_completeHook im)"
        using True w(3) by (simp_all only: parts(1) repl)
      moreover have "workers (sh_threads s') = Suc (workers (sh_threads s))" "sIaWake_monotonic (sh_threads s')"
        using True startIaWorker_result [OF t] by (simp_all add: parts)
      ultimately show ?thesis
        using call True by (intro exI [of _ 0] exI [of _ s']) (auto simp: s'_def [symmetric] parts(3))
    next
      case False
      have "s2 = s2\<lparr>sh_threads := sh_threads s\<rparr>" by (simp add: s2_def hook_state_def)
      then obtain th' where th': "workers th' = workers (sh_threads s)" "installAttachApnHooks im s = abort_hooks u c (s2\<lparr>sh_threads := th'\<rparr>)"
        using False call startIaWorker_result [OF t] that [of "sh_threads s"] that [of th] by (cases b) auto
      obtain s' where "abort_hooks u c (s2\<lparr>sh_threads := th'\<rparr>) = Some (- 1, s')" "gave_up im n s s'" "sh_threads s' = th'"
        using abort_hooks_result [OF h [of th']] by auto
      then show ?thesis
        using th' full False f(1) Some uc by (intro exI [of _ "- 1"] exI [of _ s']) auto
    qed
  qed
qed

lemma idle_hooks_forward:
  assumes "sIaHookState st \<noteq> IA_HOOKS_ACTIVE" "sRealOnUnsol st \<noteq> 0" "sRealOnComplete st \<noteq> 0"
  shows "unsolHook r d l k st = Some ([CallUnsol (sRealOnUnsol st) r d l k], st)"
    "\<not> isReissueToken pool t \<Longrightarrow> completeHook pool t e d l st = Some ([CallComplete (sRealOnComplete st) t e d l], st)"
  using assms by (simp_all add: unsolHook_def completeHook_def attachApnHooksActive_def)

lemma install_frame:
  "installAttachApnHooks im s = Some (rc, s') \<Longrightarrow> sRealFuncs s' = sRealFuncs s \<and> sRealOnRequest s' = sRealOnRequest s
     \<and> sOnRequestPatched s' = sOnRequestPatched s"
  by (auto simp: installAttachApnHooks_def abort_hooks_def hook_state_def Let_def
      split: if_splits option.splits prod.splits Option.bind_splits)

section \<open>The installed library as an example\<close>

definition lib_image :: image where
  "lib_image = \<lparr>im_modules = (\<lambda>p. [lib_info]), im_pageSize = 4096, im_unsolHook = 7, im_completeHook = 8, im_onRequestShim = 9\<rparr>"

definition lib_shim :: shim where
  "lib_shim = \<lparr>sh_ia = ia_state0, sh_heap = \<lparr>live = Map.empty, fresh = 0, freed = [], budget = []\<rparr>, sh_rc = rc_state0,
     sh_proc = lib_process, sh_threads = \<lparr>thread_rcs = [], sIaWake_monotonic = False, workers = 0\<rparr>,
     sRealFuncs = 0, sRealOnRequest = 0, sEnv = 0, sRealHandle = 0, sOnRequestPatched = False\<rparr>"

lemma lib_iterated: "dl_iterate_phdr lib_process (im_modules lib_image lib_process) new_scan = Some lib_found"
proof -
  have "new_scan = lib_scan" by (simp add: new_scan_def lib_scan_def REAL_RIL_SONAME_def)
  then show ?thesis using lib_scanned by (simp add: lib_image_def)
qed

lemma lib_searchable: "searchable lib_image 4096 lib_process"
proof -
  have slots: "off = 96 \<or> off = 104" if "j < gs_jmprelCount lib_found" "got_match lib_found symbol k j lib_process = Some (Some off)" for symbol k j off
    using that unfolding two_relocations got_match_def Let_def
    by (auto simp: lib_found_def RELA_SIZE_def lib_word split: if_splits Option.bind_splits)
  have "8 dvd unat (gs_base lib_found + off)" if "off = 96 \<or> off = 104" for off
    using that by (auto simp: lib_found_def)
  moreover have "paged 4096 (maps lib_process)" by (simp add: lib_sound(5) paged_def)
  ultimately show ?thesis
    unfolding searchable_def using lib_iterated lib_sound(3) lib_mapped slots by (auto simp: lib_image_def)
qed

lemma lib_pair: "\<exists>u c. find_pair lib_image lib_process = Some (Some (u, c), lib_process)"
proof -
  obtain u c where e: "findGotEntry lib_found (cstr ''RIL_onUnsolicitedResponse'') 7 4096 lib_process = Some (Some u, lib_process)"
    "findGotEntry lib_found (cstr ''RIL_onRequestComplete'') 8 4096 lib_process = Some (Some c, lib_process)"
    using lib_entries(1) [of 7] lib_entries(2) [of 8] by auto
  have sound: "\<exists>j off. matches lib_process lib_found symbol k 0 = {j} \<and> got_match lib_found symbol k j lib_process = Some (Some off)
      \<and> ge_slot x = 65536 + off"
    if "findGotEntry lib_found symbol h 4096 lib_process = Some (Some x, lib_process)" "0 \<in> set symbol" "length symbol < 2 ^ 64"
      "k = length (str_of symbol) + 1" for symbol h x k
    using findGotEntry_result [OF lib_mapped gotScanCallback_tables [OF lib_scanned lib_sound(1,2)] lib_sound(3) that(2-4), of h 4096]
      that(1) lib_sound(6) by auto
  have "ge_slot u = 65536 + 96" "ge_slot c = 65536 + 104"
    using sound [OF e(1) lib_string(1-3)] sound [OF e(2) lib_string(4-6)] lib_matches lib_match by auto
  then have "find_pair lib_image lib_process = Some (Some (u, c), lib_process)"
    using e lib_iterated lib_sound(2) by (simp add: find_pair_def lib_image_def)
  then show ?thesis by blast
qed

section \<open>Properties\<close>

text \<open>C2: Installing the two hooks is a transaction, whichever of the kernel and thread calls fail. It always
  returns. On 0 the state is ACTIVE, both slots hold the hooks on pages with their old protection, the condition
  variable is on the monotonic clock and one worker was started. Otherwise the result is -1 and no worker was started:
  in state DISABLED every byte and every protection is as before; in state FAILED (the rollback was not
  verified) only the two slots and the protection of their pages can differ, both originals are published, and the
  hooks forward to them. It succeeds when both entries are found and no call is refused.\<close>

theorem hook_install_transaction:
  assumes "sIaHookState (sh_ia s) = IA_HOOKS_DISABLED" "searchable im n (sh_proc s)"
  shows "\<exists>rc s'. installAttachApnHooks im s = Some (rc, s')
    \<and> (if rc = 0 then sIaHookState (sh_ia s') = IA_HOOKS_ACTIVE \<and> workers (sh_threads s') = Suc (workers (sh_threads s))
         \<and> sIaWake_monotonic (sh_threads s') \<and> (\<exists>u c. hooking im n s u c s'
            \<and> at_rest n (sh_proc s') u (im_unsolHook im) \<and> at_rest n (sh_proc s') c (im_completeHook im))
       else rc = - 1 \<and> workers (sh_threads s') = workers (sh_threads s)
         \<and> (sIaHookState (sh_ia s') = IA_HOOKS_DISABLED \<and> unchanged (sh_proc s) (sh_proc s')
            \<or> sIaHookState (sh_ia s') = IA_HOOKS_FAILED \<and> (\<exists>u c. hooking im n s u c s')
              \<and> (\<forall>r d l k. unsolHook r d l k (sh_ia s') = Some ([CallUnsol (sRealOnUnsol (sh_ia s')) r d l k], sh_ia s'))
              \<and> (\<forall>pool t e d l. \<not> isReissueToken pool t \<longrightarrow>
                   completeHook pool t e d l (sh_ia s') = Some ([CallComplete (sRealOnComplete (sh_ia s')) t e d l], sh_ia s'))))
    \<and> (\<forall>u c p1. find_pair im (sh_proc s) = Some (Some (u, c), p1) \<and> refused p1 = [] \<and> thread_rcs (sh_threads s) = [] \<longrightarrow> rc = 0)"
proof -
  have forward: "unsolHook r d l k (sh_ia s') = Some ([CallUnsol (sRealOnUnsol (sh_ia s')) r d l k], sh_ia s')"
    "\<not> isReissueToken pool t \<Longrightarrow>
       completeHook pool t e d l (sh_ia s') = Some ([CallComplete (sRealOnComplete (sh_ia s')) t e d l], sh_ia s')"
    if "hooking im n s u c s'" "sIaHookState (sh_ia s') = IA_HOOKS_FAILED" for s' u c r d l k pool t e
    using that idle_hooks_forward [of "sh_ia s'"] by (auto simp: hooking_def)
  obtain rc s' where i: "installAttachApnHooks im s = Some (rc, s')"
    "if rc = 0 then sIaHookState (sh_ia s') = IA_HOOKS_ACTIVE \<and> workers (sh_threads s') = Suc (workers (sh_threads s))
         \<and> sIaWake_monotonic (sh_threads s') \<and> (\<exists>u c. hooking im n s u c s'
            \<and> at_rest n (sh_proc s') u (im_unsolHook im) \<and> at_rest n (sh_proc s') c (im_completeHook im))
       else rc = - 1 \<and> gave_up im n s s' \<and> workers (sh_threads s') = workers (sh_threads s)"
    "\<forall>u c p1. find_pair im (sh_proc s) = Some (Some (u, c), p1) \<and> refused p1 = [] \<and> thread_rcs (sh_threads s) = [] \<longrightarrow> rc = 0"
    using install_result [OF assms] by (elim exE conjE)
  show ?thesis
  proof (cases "rc = 0")
    case True
    then show ?thesis using i by (intro exI [of _ rc] exI [of _ s']) simp
  next
    case False
    then have "gave_up im n s s'" using i(2) by simp
    then consider "sIaHookState (sh_ia s') = IA_HOOKS_DISABLED" "unchanged (sh_proc s) (sh_proc s')"
      | u c where "sIaHookState (sh_ia s') = IA_HOOKS_FAILED" "hooking im n s u c s'" by (auto simp: gave_up_def)
    then show ?thesis
    proof cases
      case 1
      then show ?thesis using i False by (intro exI [of _ rc] exI [of _ s']) simp
    next
      case 2
      then show ?thesis using i False forward [OF 2(2,1)] by (intro exI [of _ rc] exI [of _ s']) auto
    qed
  qed
qed

theorem hook_install_transaction_witness:
  "\<exists>s' u c. installAttachApnHooks lib_image lib_shim = Some (0, s') \<and> sIaHookState (sh_ia s') = IA_HOOKS_ACTIVE
     \<and> workers (sh_threads s') = 1 \<and> at_rest 4096 (sh_proc s') u 7 \<and> at_rest 4096 (sh_proc s') c 8"
proof -
  have h: "sIaHookState (sh_ia lib_shim) = IA_HOOKS_DISABLED" "searchable lib_image 4096 (sh_proc lib_shim)"
    "sh_proc lib_shim = lib_process" "workers (sh_threads lib_shim) = 0" "thread_rcs (sh_threads lib_shim) = []"
    using lib_searchable by (simp_all add: lib_shim_def ia_state0_def)
  show ?thesis
    using hook_install_transaction [OF h(1,2)] lib_pair h(3-5) lib_sound(4) by (auto simp: lib_image_def)
qed

end
