(* ===== verification/Ril_Entry.thy ===== *)
theory Ril_Entry
  imports Ril_Init
begin

text \<open>
  What the entry points of \<open>ril-shim/k50sv1_ril_shim.c\<close> promise: the patch of the vendor's function table,
  \<open>RIL_Init\<close>, and the dispatch of requests once the table is patched.
\<close>

section \<open>Pages of the table\<close>

lemma mask_page:
  fixes a :: u64
  assumes "k < 64" shows "a AND NOT (of_nat (2 ^ k) - 1) = a - a mod of_nat (2 ^ k)"
proof -
  have m: "of_nat (2 ^ k) - 1 = (mask k :: u64)" by (simp add: mask_eq_exp_minus_1)
  have "a AND NOT (mask k) = push_bit k (drop_bit k a)"
    by (rule bit_eqI) (auto simp: bit_simps)
  also have "\<dots> = a - take_bit k a" using bits_ident [of k a] by (simp add: eq_diff_eq)
  finally show ?thesis unfolding m by (simp add: take_bit_eq_mod)
qed

lemma round_one_page:
  fixes a :: u64
  assumes n: "n = 2 ^ k" "k < 64" "8 dvd n" and al: "8 dvd unat a"
  shows "round_page (of_nat n) (a + 8 - (a - a mod of_nat n)) = of_nat n"
proof -
  have bound: "n \<le> 2 ^ 63" using n(1,2) power_increasing [of k 63 "2 :: nat"] by simp
  then have "unat (of_nat n :: u64) = n" by (simp add: unat_of_nat)
  moreover have "0 < n" using n(1) by simp
  ultimately have un: "unat (of_nat n :: u64) = n" "0 < n" by simp_all
  have "8 dvd unat a mod n" using n(3) al by (simp add: dvd_mod_iff)
  moreover have "unat a mod n < n" using un(2) by simp
  ultimately have small: "unat a mod n + 8 \<le> n"
    using n(3) by (metis add.commute dvd_add_right_iff dvd_diff_nat dvd_imp_le le_diff_conv2 less_imp_le zero_less_diff)
  have "unat (a mod of_nat n) = unat a mod n" using un by (simp add: unat_mod_distrib)
  then have m: "unat (a mod of_nat n + 8) = unat a mod n + 8"
    using unat_add64 [of "a mod of_nat n" 8] small bound by simp
  have one: "1 \<le> (of_nat n :: u64)" using un by (simp add: word_le_nat_alt)
  have "unat (of_nat n - 1 :: u64) = n - 1" using unat_sub [OF one] un by simp
  then have "unat (a mod of_nat n + 8 + (of_nat n - 1)) = unat a mod n + 8 + (n - 1)"
    using unat_add64 [of "a mod of_nat n + 8" "of_nat n - 1"] m small bound by simp
  then have "unat ((a mod of_nat n + 8 + (of_nat n - 1)) div of_nat n) = (unat a mod n + 8 + (n - 1)) div n"
    using un(1) by (simp add: unat_div_distrib)
  also have "\<dots> = 1" using small un(2) by (intro div_nat_eqI) auto
  finally have "(a mod of_nat n + 8 + (of_nat n - 1)) div of_nat n = 1" by (simp add: word_unat_eq_iff)
  moreover have "a + 8 - (a - a mod of_nat n) = a mod of_nat n + 8" by simp
  ultimately show ?thesis by (simp add: round_page_def)
qed

lemma mprotect_sets:
  assumes "paged n (maps p0)" "entry_ok n p0 e" "page_prot n p (ge_slot e) pr"
    "mprotect (ge_page e) (ge_pageSize e) new p = (rc, p')"
  shows "ram p' = ram p" "if rc = 0 then page_prot n p' (ge_slot e) new else rc = - 1 \<and> maps p' = maps p"
proof -
  have sp: "ge_page e \<le> x \<and> x < ge_page e + ge_pageSize e \<longleftrightarrow> page_of n x = page_of n (ge_slot e)" for x
    using slot_page(3) [OF assms(1), of "ge_slot e" x] assms(2) by (auto simp: entry_ok_def)
  obtain no p1 where k: "kernel_refuses p = (no, p1)" by (cases "kernel_refuses p")
  then have same: "maps p1 = maps p" "ram p1 = ram p" using kernel_refuses_same by (auto simp: same_mem_def)
  show "ram p' = ram p" using assms(4) k same by (cases no) (auto simp: mprotect_def)
  show "if rc = 0 then page_prot n p' (ge_slot e) new else rc = - 1 \<and> maps p' = maps p"
    using assms(3,4) k same sp by (cases no) (auto simp: mprotect_def page_prot_def)
qed

section \<open>The patch\<close>

text \<open>A vendor table the shim can read: aligned as the ABI requires, in pages of a power of two.\<close>

definition table_ok :: "image \<Rightarrow> nat \<Rightarrow> process \<Rightarrow> addr \<Rightarrow> bool" where
  "table_ok im n p funcs \<longleftrightarrow> im_pageSize im = int n \<and> (\<exists>k < 64. n = 2 ^ k) \<and> paged n (maps p) \<and> proper (maps p)
     \<and> 8 dvd unat (funcs + 8) \<and> (\<forall>x \<in> set (span funcs 16). can PROT_READ p x)"

text \<open>
  The table's page has its old protection, or that with writing added when it could not be put back; nothing else
  changed but the eight bytes of the field.
\<close>

definition patched_only :: "nat \<Rightarrow> process \<Rightarrow> addr \<Rightarrow> process \<Rightarrow> bool" where
  "patched_only n p field p' \<longleftrightarrow> (\<forall>x. x \<notin> set (span field 8) \<longrightarrow> ram p' x = ram p x)
     \<and> (\<forall>x. page_of n x \<noteq> page_of n field \<longrightarrow> prot_at (maps p') x = prot_at (maps p) x)
     \<and> (\<exists>old. page_prot n p field old \<and> (page_prot n p' field old \<or> page_prot n p' field (old OR PROT_WRITE)))"

definition table_entry :: "image \<Rightarrow> nat \<Rightarrow> addr \<Rightarrow> u64 \<Rightarrow> int \<Rightarrow> GotEntry" where
  "table_entry im n field v prot = \<lparr>ge_symbol = [], ge_slot = field, ge_original = v, ge_replacement = v + 1,
     ge_page = field - field mod of_nat n, ge_pageSize = of_nat n, ge_protection = prot\<rparr>"

lemma table_reads:
  assumes "table_ok im n p funcs"
  shows "\<exists>ver. table_version funcs p = Some ver" "\<exists>v. peek64 p (funcs + 8) = Some v"
proof -
  have all: "\<forall>x \<in> set (span funcs 16). can PROT_READ p x" using assms by (simp add: table_ok_def)
  then have "\<forall>x \<in> set (span funcs 4). can PROT_READ p x" using span_mono [of 4 16 funcs] by auto
  then obtain w where "peek32 p funcs = Some w" using peek32_defined by blast
  then show "\<exists>ver. table_version funcs p = Some ver" by (simp add: table_version_def)
  show "\<exists>v. peek64 p (funcs + 8) = Some v"
    using all span_shift [of funcs 8 8] peek64_defined [of "funcs + 8" p] by auto
qed

lemma span_self: "0 < n \<Longrightarrow> a \<in> set (span a n)"
  unfolding span_def set_map set_upt by (intro image_eqI [of _ _ 0]) auto

lemma table_entry_ok:
  assumes "table_ok im n p funcs" "peek64 p (funcs + 8) = Some v" "prot_at (maps p) (funcs + 8) = Some pr"
  shows "entry_ok n p (table_entry im n (funcs + 8) v pr)" "page_prot n p (funcs + 8) pr" "0 \<le> pr" "pr < 8"
proof -
  have t: "8 dvd unat (funcs + 8)" "proper (maps p)" "paged n (maps p)" using assms(1) by (simp_all add: table_ok_def)
  show pr: "0 \<le> pr" "pr < 8" using proper_prot_at [OF t(2) assms(3)] by simp_all
  have r: "map (ram p) (span (funcs + 8) 8) = le64 v" "can PROT_READ p (funcs + 8)"
    using assms(2) span_self [of 8 "funcs + 8"] by (auto simp: peek64_iff)
  then show "entry_ok n p (table_entry im n (funcs + 8) v pr)"
    using t(1) assms(3) pr by (simp add: entry_ok_def table_entry_def can_def)
  show "page_prot n p (funcs + 8) pr" unfolding page_prot_def using prot_at_page [OF t(3)] assms(3) by metis
qed

text \<open>The store into the field of a page that is writable, and putting the protection back.\<close>

lemma restore_page:
  assumes "paged n (maps p0)" "entry_ok n p0 e" "page_prot n p (ge_slot e) cur" "cur = (ge_protection e) OR PROT_WRITE"
    "(if ge_protection e AND PROT_WRITE = 0 then mprotect (ge_page e) (ge_pageSize e) (ge_protection e) p else (0, p)) = (rc, p1)"
    "(if rc \<noteq> 0 then mprotect (ge_page e) (ge_pageSize e) (ge_protection e) p1 else (0, p1)) = (rc', p2)"
  shows "ram p2 = ram p" "page_prot n p2 (ge_slot e) (ge_protection e) \<or> page_prot n p2 (ge_slot e) (ge_protection e OR PROT_WRITE)"
    "\<And>x. page_of n x \<noteq> page_of n (ge_slot e) \<Longrightarrow> prot_at (maps p2) x = prot_at (maps p) x"
proof -
  have one: "ram p1 = ram p \<and> (page_prot n p1 (ge_slot e) (ge_protection e) \<and> rc = 0 \<or> page_prot n p1 (ge_slot e) cur)
      \<and> (\<forall>x. page_of n x \<noteq> page_of n (ge_slot e) \<longrightarrow> prot_at (maps p1) x = prot_at (maps p) x)"
  proof (cases "ge_protection e AND PROT_WRITE = 0")
    case True
    then have m: "mprotect (ge_page e) (ge_pageSize e) (ge_protection e) p = (rc, p1)" using assms(5) by simp
    show ?thesis
      using mprotect_sets [OF assms(1-3) m] mprotect_other [OF assms(1,2) m] assms(3)
      by (cases "rc = 0") (auto simp: page_prot_def)
  next
    case False
    then show ?thesis using assms(3,5) by auto
  qed
  have two: "ram p2 = ram p1 \<and> (page_prot n p2 (ge_slot e) (ge_protection e) \<or> page_prot n p2 (ge_slot e) cur)
      \<and> (\<forall>x. page_of n x \<noteq> page_of n (ge_slot e) \<longrightarrow> prot_at (maps p2) x = prot_at (maps p1) x)"
  proof (cases "rc = 0")
    case True
    then show ?thesis using assms(6) one by auto
  next
    case False
    then have m: "mprotect (ge_page e) (ge_pageSize e) (ge_protection e) p1 = (rc', p2)" and pp: "page_prot n p1 (ge_slot e) cur"
      using assms(6) one by auto
    show ?thesis
      using mprotect_sets [OF assms(1,2) pp m] mprotect_other [OF assms(1,2) m] pp
      by (cases "rc' = 0") (auto simp: page_prot_def)
  qed
  show "ram p2 = ram p" "page_prot n p2 (ge_slot e) (ge_protection e) \<or> page_prot n p2 (ge_slot e) (ge_protection e OR PROT_WRITE)"
    "\<And>x. page_of n x \<noteq> page_of n (ge_slot e) \<Longrightarrow> prot_at (maps p2) x = prot_at (maps p) x"
    using one two assms(4) by auto
qed

text \<open>The part of the patch from the protection on, for a table that passed the checks.\<close>

lemma patch_page:
  assumes ok: "table_ok im n p funcs" and v: "peek64 p (funcs + 8) = Some v" and pr: "prot_at (maps p) (funcs + 8) = Some pr"
    and m: "(if pr AND PROT_WRITE = 0 then mprotect (ge_page e) (ge_pageSize e) (pr OR PROT_WRITE) p else (0, p)) = (rc, p1)"
    and e: "e = table_entry im n (funcs + 8) v pr"
  shows "if rc = 0 then peek64 p1 (funcs + 8) = Some v \<and> (\<exists>p2. poke64 p1 (funcs + 8) h = Some p2 \<and> peek64 p2 (funcs + 8) = Some h
      \<and> (\<forall>rc' p3 rc'' p4. (if pr AND PROT_WRITE = 0 then mprotect (ge_page e) (ge_pageSize e) pr p2 else (0, p2)) = (rc', p3)
          \<and> (if rc' \<noteq> 0 then mprotect (ge_page e) (ge_pageSize e) pr p3 else (0, p3)) = (rc'', p4)
          \<longrightarrow> patched_only n p (funcs + 8) p4 \<and> map (ram p4) (span (funcs + 8) 8) = le64 h))
    else unchanged p p1"
proof -
  note eo = table_entry_ok [OF ok v pr]
  have paged: "paged n (maps p)" using ok by (simp add: table_ok_def)
  have slot: "ge_slot e = funcs + 8" "ge_protection e = pr" "entry_ok n p e" using eo(1) by (simp_all add: e table_entry_def)
  have pp: "page_prot n p (ge_slot e) pr" using eo(2) slot(1) by simp
  have rd: "pr AND PROT_READ \<noteq> 0" using slot by (simp add: entry_ok_def)
  have one: "ram p1 = ram p \<and> (if rc = 0 then page_prot n p1 (ge_slot e) (pr OR PROT_WRITE) else maps p1 = maps p)
      \<and> (\<forall>x. page_of n x \<noteq> page_of n (ge_slot e) \<longrightarrow> prot_at (maps p1) x = prot_at (maps p) x)"
  proof (cases "pr AND PROT_WRITE = 0")
    case True
    then have m': "mprotect (ge_page e) (ge_pageSize e) (pr OR PROT_WRITE) p = (rc, p1)" using m by simp
    show ?thesis
      using mprotect_sets [OF paged slot(3) pp m'] mprotect_other [OF paged slot(3) m'] by (cases "rc = 0") auto
  next
    case False
    then show ?thesis using m pp rights(5) [OF eo(3,4)] by auto
  qed
  show ?thesis
  proof (cases "rc = 0")
    case False
    then show ?thesis using one by (simp add: unchanged_def)
  next
    case True
    then have w: "page_prot n p1 (ge_slot e) (pr OR PROT_WRITE)" using one by simp
    have acc: "\<forall>x \<in> set (span (funcs + 8) 8). can PROT_WRITE p1 x" "\<forall>x \<in> set (span (funcs + 8) 8). can PROT_READ p1 x"
      using page_prot_can [OF paged slot(3) w] rights(3) [OF eo(3,4)] rights(4) [OF eo(3,4) rd] slot(1) by auto
    have "peek64 p1 (funcs + 8) = Some v" using v acc(2) one by (simp add: peek64_iff)
    moreover obtain p2 where p2: "poke64 p1 (funcs + 8) h = Some p2"
      using poke_defined [of "funcs + 8" "le64 h" p1] acc(1) f64.enc_length [of h] by (auto simp: poke64_def)
    note after = poke64_peek64 [OF p2]
    have "peek64 p2 (funcs + 8) = Some h" using acc(2) after(1,3) by (auto simp: peek64_iff can_def)
    moreover have "patched_only n p (funcs + 8) p4 \<and> map (ram p4) (span (funcs + 8) 8) = le64 h"
      if r1: "(if pr AND PROT_WRITE = 0 then mprotect (ge_page e) (ge_pageSize e) pr p2 else (0, p2)) = (rc', p3)"
        and r2: "(if rc' \<noteq> 0 then mprotect (ge_page e) (ge_pageSize e) pr p3 else (0, p3)) = (rc'', p4)" for rc' p3 rc'' p4
    proof -
      have w2: "page_prot n p2 (ge_slot e) (ge_protection e OR PROT_WRITE)" using w after(1) slot(2) by (simp add: page_prot_def)
      note r = restore_page [OF paged slot(3) w2 refl] 
      have "ram p4 = ram p2" "page_prot n p4 (ge_slot e) pr \<or> page_prot n p4 (ge_slot e) (pr OR PROT_WRITE)"
        "\<And>x. page_of n x \<noteq> page_of n (ge_slot e) \<Longrightarrow> prot_at (maps p4) x = prot_at (maps p2) x"
        using r [unfolded slot(2), OF r1 r2] by auto
      then show ?thesis
        using after one pp slot(1) unfolding patched_only_def by auto
    qed
    ultimately show ?thesis using True p2 by auto
  qed
qed

definition patch_done :: "image \<Rightarrow> nat \<Rightarrow> addr \<Rightarrow> shim \<Rightarrow> shim \<Rightarrow> bool" where
  "patch_done im n funcs s s' \<longleftrightarrow> patched_only n (sh_proc s) (funcs + 8) (sh_proc s')
     \<and> map (ram (sh_proc s')) (span (funcs + 8) 8) = le64 (im_onRequestShim im)
     \<and> sRealOnRequest s' \<noteq> 0 \<and> peek64 (sh_proc s) (funcs + 8) = Some (sRealOnRequest s')"

text \<open>A table that passes the checks, in a process no call of which is refused.\<close>

definition patchable :: "process \<Rightarrow> addr \<Rightarrow> bool" where
  "patchable p funcs \<longleftrightarrow> refused p = [] \<and> (\<exists>ver. table_version funcs p = Some ver \<and> 6 \<le> ver \<and> ver \<le> 20)
     \<and> peek64 p (funcs + 8) \<noteq> Some 0"

lemma patch_result:
  assumes ok: "table_ok im n (sh_proc s) funcs"
  shows "\<exists>rc p' req. patchOnRequest im funcs s = Some (rc, s\<lparr>sRealOnRequest := req, sh_proc := p'\<rparr>)
    \<and> (if rc = 0 then patch_done im n funcs s (s\<lparr>sRealOnRequest := req, sh_proc := p'\<rparr>)
         \<and> (\<exists>ver. table_version funcs (sh_proc s) = Some ver \<and> 6 \<le> ver \<and> ver \<le> 20)
       else rc = - 1 \<and> req = sRealOnRequest s \<and> unchanged (sh_proc s) p')
    \<and> (patchable (sh_proc s) funcs \<longrightarrow> rc = 0)"
proof -
  let ?p = "sh_proc s"
  define f where "f = funcs + 8"
  obtain ver v where read: "table_version funcs ?p = Some ver" "peek64 ?p f = Some v" using table_reads [OF ok] unfolding f_def by blast
  have n: "im_pageSize im = int n" "0 < n" "8 dvd n" "8 dvd unat f" "proper (maps ?p)"
    using ok unfolding f_def by (auto simp: table_ok_def paged_def)
  obtain k where k: "k < 64" "n = 2 ^ k" using ok by (auto simp: table_ok_def)
  obtain pr p1 where mp: "mappingProt f ?p = (pr, p1)" "same_mem ?p p1" "pr = - 1 \<or> prot_at (maps ?p) f = Some pr \<and> 0 \<le> pr \<and> pr < 8"
    using mappingProt_result [OF n(5)] by blast
  have will: "0 \<le> pr \<and> refused p1 = [] \<and> \<not> (ver < 6 \<or> ver > 20 \<or> v = 0)" if pa: "patchable ?p funcs"
  proof -
    have none: "refused ?p = []" using pa by (simp add: patchable_def)
    have "can PROT_READ ?p f" using read(2) span_self [of 8 f] by (auto simp: peek64_iff)
    then obtain q where q: "prot_at (maps ?p) f = Some q" by (auto simp: can_def split: option.splits)
    then have "pr = q" "p1 = ?p"
      using mp(1) none mappingProt_lines_text [OF n(5), of f] by (auto simp: mappingProt_def)
    then show ?thesis using none q proper_prot_at [OF n(5) q] pa read by (auto simp: patchable_def f_def)
  qed
  show ?thesis
  proof (cases "ver < 6 \<or> ver > 20 \<or> v = 0 \<or> pr < 0")
    case True
    have "patchOnRequest im funcs s = Some (- 1, if ver < 6 \<or> ver > 20 \<or> v = 0 then s else s\<lparr>sh_proc := p1\<rparr>)"
      using True n(1,2) read mp(1) unfolding patchOnRequest_def Let_def f_def [symmetric] by auto
    then show ?thesis
      using mp(2) will True by (intro exI [of _ "- 1"] exI [of _ "if ver < 6 \<or> ver > 20 \<or> v = 0 then ?p else p1"] exI [of _ "sRealOnRequest s"])
        (auto simp: unchanged_def same_mem_def)
  next
    case False
    define e where "e = table_entry im n f v pr"
    have page: "f AND NOT (of_nat n - 1) = ge_page e" unfolding k(2) using mask_page [OF k(1), of f] by (simp add: e_def table_entry_def k(2))
    have len: "round_page (of_nat n) (f + 8 - ge_page e) = ge_pageSize e"
      using round_one_page [OF k(2,1) n(3,4)] by (simp add: e_def table_entry_def)
    have ok1: "table_ok im n p1 funcs" "peek64 p1 f = Some v" "prot_at (maps p1) f = Some pr"
      using ok mp False read(2) same_mem_peek(1,3) [OF mp(2)] by (auto simp: table_ok_def same_mem_def f_def)
    obtain rc p2 where m: "(if pr AND PROT_WRITE = 0 then mprotect (ge_page e) (ge_pageSize e) (pr OR PROT_WRITE) p1 else (0, p1)) = (rc, p2)"
      by (cases "if pr AND PROT_WRITE = 0 then mprotect (ge_page e) (ge_pageSize e) (pr OR PROT_WRITE) p1 else (0, p1)")
    note pg = patch_page [where funcs = funcs, folded f_def, OF ok1 m e_def, of "im_onRequestShim im"]
    show ?thesis
    proof (cases "rc = 0")
      case rc: False
      then have "patchOnRequest im funcs s = Some (- 1, s\<lparr>sh_proc := p2\<rparr>)"
        using False n(1,2) read mp(1) m unfolding patchOnRequest_def Let_def f_def [symmetric] by (simp add: page len cong: if_cong)
      moreover have "unchanged ?p p2" using pg rc mp(2) by (simp add: unchanged_def same_mem_def)
      moreover have "\<not> patchable ?p funcs"
        using will m rc willing_mprotect by (metis prod.inject)
      ultimately show ?thesis
        by (intro exI [of _ "- 1"] exI [of _ p2] exI [of _ "sRealOnRequest s"]) simp
    next
      case True
      obtain p3 where p3: "peek64 p2 f = Some v" "poke64 p2 f (im_onRequestShim im) = Some p3" "peek64 p3 f = Some (im_onRequestShim im)"
        "\<And>rc' p4 rc'' p5. (if pr AND PROT_WRITE = 0 then mprotect (ge_page e) (ge_pageSize e) pr p3 else (0, p3)) = (rc', p4) \<Longrightarrow>
          (if rc' \<noteq> 0 then mprotect (ge_page e) (ge_pageSize e) pr p4 else (0, p4)) = (rc'', p5) \<Longrightarrow>
          patched_only n p1 f p5 \<and> map (ram p5) (span f 8) = le64 (im_onRequestShim im)"
        using pg True by auto
      obtain rc' p4 where r1: "(if pr AND PROT_WRITE = 0 then mprotect (ge_page e) (ge_pageSize e) pr p3 else (0, p3)) = (rc', p4)"
        by (cases "if pr AND PROT_WRITE = 0 then mprotect (ge_page e) (ge_pageSize e) pr p3 else (0, p3)")
      obtain rc'' p5 where r2: "(if rc' \<noteq> 0 then mprotect (ge_page e) (ge_pageSize e) pr p4 else (0, p4)) = (rc'', p5)"
        by (cases "if rc' \<noteq> 0 then mprotect (ge_page e) (ge_pageSize e) pr p4 else (0, p4)")
      have "patchOnRequest im funcs s = Some (0, s\<lparr>sRealOnRequest := v, sh_proc := p5\<rparr>)"
        using False n(1,2) read mp(1) m True p3(1-3) r1 r2 unfolding patchOnRequest_def Let_def f_def [symmetric] by (simp add: page len cong: if_cong)
      moreover have "patched_only n ?p f p5 \<and> map (ram p5) (span f 8) = le64 (im_onRequestShim im)"
        using p3(4) [OF r1 r2] mp(2) by (simp add: patched_only_def same_mem_def page_prot_def)
      ultimately show ?thesis
        using read False by (intro exI [of _ 0] exI [of _ p5] exI [of _ v]) (simp add: patch_done_def f_def [symmetric])
    qed
  qed
qed

section \<open>Initialisation\<close>

lemma patched_can:
  assumes "patched_only n p field p'" "proper (maps p)" "can PROT_READ p x" shows "can PROT_READ p' x"
proof (cases "page_of n x = page_of n field")
  case True
  obtain old where old: "page_prot n p field old" "page_prot n p' field old \<or> page_prot n p' field (old OR PROT_WRITE)"
    using assms(1) by (auto simp: patched_only_def)
  have at: "prot_at (maps p) x = Some old" using old(1) True by (simp add: page_prot_def)
  then have r: "old AND PROT_READ \<noteq> 0" using assms(3) by (simp add: can_def)
  moreover have "(old OR PROT_WRITE) AND PROT_READ \<noteq> 0" using rights(4) r proper_prot_at [OF assms(2) at] by auto
  moreover have "prot_at (maps p') x = Some old \<or> prot_at (maps p') x = Some (old OR PROT_WRITE)"
    using old(2) True by (auto simp: page_prot_def)
  ultimately show ?thesis by (auto simp: can_def)
next
  case False
  then show ?thesis using assms by (simp add: patched_only_def can_def)
qed

lemma patched_version:
  assumes "patched_only n p (funcs + 8) p'" "table_ok im n p funcs"
  shows "\<exists>ver. table_version funcs p' = Some ver"
proof -
  have "\<forall>x \<in> set (span funcs 4). can PROT_READ p' x"
    using patched_can [OF assms(1)] assms(2) span_mono [of 4 16 funcs] by (auto simp: table_ok_def)
  then obtain w where "peek32 p' funcs = Some w" using peek32_defined by blast
  then show ?thesis by (simp add: table_version_def)
qed

text \<open>The table that \<open>RIL_Init\<close> hands out is patched, and the shim forwards to the vendor's own function.\<close>

definition patched_table :: "image \<Rightarrow> shim \<Rightarrow> bool" where
  "patched_table im s \<longleftrightarrow> map (ram (sh_proc s)) (span (sRealFuncs s + 8) 8) = le64 (im_onRequestShim im)
     \<and> sRealOnRequest s \<noteq> 0 \<and> sRealOnRequest s \<noteq> im_onRequestShim im"

text \<open>
  What is relied on of the vendor library and the linker, once the library is loaded and has a \<open>RIL_Init\<close>: that
  function returns, NULL or a table in readable memory with a function of the vendor's own; and after the patch the
  library can be searched, its table not being among its jump slots. Nothing is relied on when the library does not
  load or the symbol is not found.
\<close>

definition vendor_ok :: "vendor \<Rightarrow> image \<Rightarrow> nat \<Rightarrow> init_args \<Rightarrow> shim \<Rightarrow> bool" where
  "vendor_ok vn im n args s \<longleftrightarrow> sRealHandle s = 0 \<or> vn_dlsym vn (sRealHandle s) ''RIL_Init'' = 0 \<or>
     (\<exists>funcs p. vn_call vn (vn_dlsym vn (sRealHandle s) ''RIL_Init'') args (sh_proc s) = Some (funcs, p)
     \<and> (funcs \<noteq> 0 \<longrightarrow> table_ok im n p funcs \<and> peek64 p (funcs + 8) \<noteq> Some (im_onRequestShim im)
        \<and> (\<forall>rc s'. patchOnRequest im funcs (s\<lparr>sEnv := ar_env args, sRealFuncs := funcs, sh_proc := p\<rparr>) = Some (rc, s') \<longrightarrow> searchable im n (sh_proc s')
             \<and> (\<forall>u c p1. find_pair im (sh_proc s') = Some (Some (u, c), p1) \<longrightarrow>
                  set (span (funcs + 8) 8) \<inter> (set (span (ge_slot u) 8) \<union> set (span (ge_slot c) 8)) = {}))))"

lemma install_keeps:
  assumes "searchable im n (sh_proc s)"
    and apart: "\<And>u c p1. find_pair im (sh_proc s) = Some (Some (u, c), p1) \<Longrightarrow>
      set (span a 8) \<inter> (set (span (ge_slot u) 8) \<union> set (span (ge_slot c) 8)) = {}"
  shows "\<exists>rc s'. installAttachApnHooks im s = Some (rc, s') \<and> map (ram (sh_proc s')) (span a 8) = map (ram (sh_proc s)) (span a 8)"
proof (cases "sIaHookState (sh_ia s) = IA_HOOKS_DISABLED")
  case False
  then show ?thesis by (simp add: installAttachApnHooks_def)
next
  case True
  obtain rc s' where i: "installAttachApnHooks im s = Some (rc, s')"
    "if rc = 0 then sIaHookState (sh_ia s') = IA_HOOKS_ACTIVE \<and> workers (sh_threads s') = Suc (workers (sh_threads s))
         \<and> sIaWake_monotonic (sh_threads s') \<and> (\<exists>u c. hooking im n s u c s'
            \<and> at_rest n (sh_proc s') u (im_unsolHook im) \<and> at_rest n (sh_proc s') c (im_completeHook im))
       else rc = - 1 \<and> gave_up im n s s' \<and> workers (sh_threads s') = workers (sh_threads s)"
    using install_result [OF True assms(1)] by (elim exE conjE)
  then have "(\<exists>u c. hooking im n s u c s') \<or> ram (sh_proc s') = ram (sh_proc s)"
    by (cases "rc = 0") (auto simp: gave_up_def unchanged_def)
  moreover have "map (ram (sh_proc s')) (span a 8) = map (ram (sh_proc s)) (span a 8)" if h: "hooking im n s u c s'" for u c
  proof -
    obtain p1 where f: "find_pair im (sh_proc s) = Some (Some (u, c), p1)" and t: "txn n (sh_proc s) {u, c} (sh_proc s')"
      using h by (auto simp: hooking_def)
    have "ram (sh_proc s') x = ram (sh_proc s) x" if "x \<in> set (span a 8)" for x
      using t apart [OF f] that by (auto simp: txn_def)
    then show ?thesis by (intro map_cong) auto
  qed
  ultimately show ?thesis using i(1) by auto
qed

definition good_vendor :: "vendor \<Rightarrow> init_args \<Rightarrow> shim \<Rightarrow> addr \<Rightarrow> process \<Rightarrow> bool" where
  "good_vendor vn args s funcs p \<longleftrightarrow> sRealHandle s \<noteq> 0 \<and> vn_dlsym vn (sRealHandle s) ''RIL_Init'' \<noteq> 0
     \<and> vn_call vn (vn_dlsym vn (sRealHandle s) ''RIL_Init'') args (sh_proc s) = Some (funcs, p) \<and> funcs \<noteq> 0 \<and> patchable p funcs"

text \<open>No library or no \<open>RIL_Init\<close> in it: NULL, and no vendor code has run.\<close>

definition unloaded :: "vendor \<Rightarrow> shim \<Rightarrow> bool" where
  "unloaded vn s \<longleftrightarrow> sRealHandle s = 0 \<or> vn_dlsym vn (sRealHandle s) ''RIL_Init'' = 0"

lemma openRealRil_patched [simp]: "sOnRequestPatched (openRealRil vn s) = sOnRequestPatched s"
  by (simp add: openRealRil_def split: prod.splits)

lemma init_unloaded:
  "\<not> sOnRequestPatched s \<Longrightarrow> unloaded vn (openRealRil vn s) \<Longrightarrow> RIL_Init vn im args s = Some (0, openRealRil vn s)"
  by (auto simp: RIL_Init_def unloaded_def Let_def)

text \<open>The part of \<open>RIL_Init\<close> after the vendor's function has returned a table.\<close>

definition init_table :: "image \<Rightarrow> shim \<Rightarrow> (addr \<times> shim) option" where
  "init_table im s = do {
     (rc, s) \<leftarrow> patchOnRequest im (sRealFuncs s) s;
     if rc \<noteq> 0 then Some (0, s)
     else do {
       version \<leftarrow> table_version (sRealFuncs s) (sh_proc s);
       (rc, s) \<leftarrow> (if version < 15 then Some (- 1, s\<lparr>sOnRequestPatched := True\<rparr>)
                  else installAttachApnHooks im (s\<lparr>sOnRequestPatched := True\<rparr>));
       Some (sRealFuncs s, s)
     }
   }"

lemma init_loaded:
  assumes "\<not> sOnRequestPatched s" "\<not> unloaded vn s1" "s1 = openRealRil vn s"
    "vn_call vn (vn_dlsym vn (sRealHandle s1) ''RIL_Init'') args (sh_proc s1) = Some (funcs, p)"
    "s2 = s1\<lparr>sEnv := ar_env args, sRealFuncs := funcs, sh_proc := p\<rparr>"
  shows "RIL_Init vn im args s = (if funcs = 0 then Some (0, s2) else init_table im s2)"
  using assms(1,2,4) unfolding RIL_Init_def Let_def assms(3) [symmetric]
  by (simp add: unloaded_def vendor_call_def init_table_def assms(5) cong: if_cong)

lemma init_table_ok:
  assumes t: "table_ok im n (sh_proc s) (sRealFuncs s)" and new: "\<not> sOnRequestPatched s" and f0: "sRealFuncs s \<noteq> 0"
    and own: "peek64 (sh_proc s) (sRealFuncs s + 8) \<noteq> Some (im_onRequestShim im)"
    and search: "\<And>rc s'. patchOnRequest im (sRealFuncs s) s = Some (rc, s') \<Longrightarrow> searchable im n (sh_proc s')
      \<and> (\<forall>u c p1. find_pair im (sh_proc s') = Some (Some (u, c), p1) \<longrightarrow>
           set (span (sRealFuncs s + 8) 8) \<inter> (set (span (ge_slot u) 8) \<union> set (span (ge_slot c) 8)) = {})"
  shows "\<exists>r s'. init_table im s = Some (r, s')
    \<and> (if r = 0 then \<not> sOnRequestPatched s' else sOnRequestPatched s' \<and> r = sRealFuncs s' \<and> patched_table im s')
    \<and> (patchable (sh_proc s) (sRealFuncs s) \<longrightarrow> r = sRealFuncs s)"
proof -
  let ?f = "sRealFuncs s" and ?p = "sh_proc s"
  obtain rc p' req where r: "patchOnRequest im ?f s = Some (rc, s\<lparr>sRealOnRequest := req, sh_proc := p'\<rparr>)"
    "if rc = 0 then patch_done im n ?f s (s\<lparr>sRealOnRequest := req, sh_proc := p'\<rparr>)
       \<and> (\<exists>ver. table_version ?f ?p = Some ver \<and> 6 \<le> ver \<and> ver \<le> 20)
     else rc = - 1 \<and> req = sRealOnRequest s \<and> unchanged ?p p'" "patchable ?p ?f \<longrightarrow> rc = 0"
    using patch_result [OF t] by (elim exE conjE)
  show ?thesis
  proof (cases "rc = 0")
    case False
    then show ?thesis using r(1,3) new by (auto simp: init_table_def)
  next
    case True
    define s3 where "s3 = s\<lparr>sRealOnRequest := req, sh_proc := p', sOnRequestPatched := True\<rparr>"
    have pd: "patched_only n ?p (?f + 8) p'" "map (ram p') (span (?f + 8) 8) = le64 (im_onRequestShim im)"
      "req \<noteq> 0" "peek64 ?p (?f + 8) = Some req"
      using r(2) True by (simp_all add: patch_done_def)
    then have pt: "patched_table im s3" using own by (auto simp: patched_table_def s3_def)
    have s3: "sOnRequestPatched s3" "sRealFuncs s3 = ?f" "sh_proc s3 = p'" by (simp_all add: s3_def)
    obtain ver where ver: "table_version ?f p' = Some ver" using patched_version [OF pd(1) t] by auto
    have rest: "init_table im s = (if ver < 15 then Some (?f, s3) else do { (rc, s) \<leftarrow> installAttachApnHooks im s3; Some (sRealFuncs s, s) })"
      using r(1) True ver by (simp add: init_table_def s3_def)
    show ?thesis
    proof (cases "ver < 15")
      case True
      then show ?thesis using rest s3 f0 pt by simp
    next
      case late: False
      obtain rc' s4 where i: "installAttachApnHooks im s3 = Some (rc', s4)"
        "map (ram (sh_proc s4)) (span (?f + 8) 8) = map (ram p') (span (?f + 8) 8)"
        using install_keeps [of im n s3 "?f + 8"] search [OF r(1)] by (auto simp: s3(3))
      have "patched_table im s4" "sOnRequestPatched s4" "sRealFuncs s4 = ?f"
        using install_frame [OF i(1)] i(2) pt s3 unfolding patched_table_def by (simp_all del: map_eq_conv)
      then show ?thesis using rest late i(1) f0 by simp
    qed
  qed
qed

lemma init_result:
  assumes new: "\<not> sOnRequestPatched s" and ok: "vendor_ok vn im n args (openRealRil vn s)"
  shows "\<exists>r s'. RIL_Init vn im args s = Some (r, s')
    \<and> (if r = 0 then \<not> sOnRequestPatched s' else sOnRequestPatched s' \<and> r = sRealFuncs s' \<and> patched_table im s')
    \<and> (\<forall>funcs p. good_vendor vn args (openRealRil vn s) funcs p \<longrightarrow> r = funcs)
    \<and> (unloaded vn (openRealRil vn s) \<longrightarrow> r = 0 \<and> s' = openRealRil vn s)"
proof (cases "unloaded vn (openRealRil vn s)")
  case True
  then have "\<not> good_vendor vn args (openRealRil vn s) a b" for a b by (auto simp: good_vendor_def unloaded_def)
  then show ?thesis using init_unloaded [OF new True] new by simp
next
  case False
  define s1 where "s1 = openRealRil vn s"
  note loaded = False [folded s1_def]
  obtain funcs p where v: "vn_call vn (vn_dlsym vn (sRealHandle s1) ''RIL_Init'') args (sh_proc s1) = Some (funcs, p)"
    "funcs \<noteq> 0 \<Longrightarrow> table_ok im n p funcs" "funcs \<noteq> 0 \<Longrightarrow> peek64 p (funcs + 8) \<noteq> Some (im_onRequestShim im)"
    "\<And>rc s'. funcs \<noteq> 0 \<Longrightarrow> patchOnRequest im funcs (s1\<lparr>sEnv := ar_env args, sRealFuncs := funcs, sh_proc := p\<rparr>) = Some (rc, s')
       \<Longrightarrow> searchable im n (sh_proc s') \<and> (\<forall>u c p1. find_pair im (sh_proc s') = Some (Some (u, c), p1) \<longrightarrow>
             set (span (funcs + 8) 8) \<inter> (set (span (ge_slot u) 8) \<union> set (span (ge_slot c) 8)) = {})"
    using ok loaded unfolding vendor_ok_def unloaded_def s1_def [symmetric] by blast
  define s2 where "s2 = s1\<lparr>sEnv := ar_env args, sRealFuncs := funcs, sh_proc := p\<rparr>"
  have s2: "\<not> sOnRequestPatched s2" "sh_proc s2 = p" "sRealFuncs s2 = funcs" using new by (simp_all add: s2_def s1_def)
  have call: "RIL_Init vn im args s = (if funcs = 0 then Some (0, s2) else init_table im s2)"
    using init_loaded [OF new loaded s1_def v(1) s2_def] .
  have good: "a = funcs \<and> funcs \<noteq> 0 \<and> patchable p funcs" if "good_vendor vn args s1 a b" for a b
    using that v(1) by (auto simp: good_vendor_def)
  show ?thesis
  proof (cases "funcs = 0")
    case True
    then show ?thesis using call s2(1) good loaded by (auto simp: s1_def [symmetric])
  next
    case False
    obtain r s' where r: "init_table im s2 = Some (r, s')"
      "if r = 0 then \<not> sOnRequestPatched s' else sOnRequestPatched s' \<and> r = sRealFuncs s' \<and> patched_table im s'"
      "patchable p funcs \<longrightarrow> r = funcs"
      using init_table_ok [of im n s2] v(2-4) False s2 unfolding s2_def [symmetric] by auto
    have "\<forall>a b. good_vendor vn args s1 a b \<longrightarrow> r = a" using good r(3) by blast
    then show ?thesis
      unfolding s1_def [symmetric] using call False loaded r(1,2) by (intro exI [of _ r] exI [of _ s']) simp
  qed
qed

section \<open>Dispatch\<close>

definition serving :: "shim \<Rightarrow> bool" where
  "serving s \<longleftrightarrow> wf_rc (sh_rc s) \<and> cache_inv (ia_store (sh_ia s)) (sh_heap s) \<and> sRealOnRequest s \<noteq> 0"

definition cached_copy :: "int \<Rightarrow> MtkInitialAttachApn \<Rightarrow> shim \<Rightarrow> shim \<Rightarrow> bool" where
  "cached_copy socketId src s s' \<longleftrightarrow> sIaCached (ia_store (sh_ia s')) ! nat socketId
     \<and> payload_of (sh_heap s') (sIaCache (ia_store (sh_ia s')) ! nat socketId) = payload_of (sh_heap s) src"

fun completions :: "shim_effect list \<Rightarrow> token list" where
  "completions [] = []"
| "completions (Respond (OnRequestComplete t e r) # es) = t # completions es"
| "completions (_ # es) = completions es"

lemma getRadioCapability_total: "\<exists>e r. getRadioCapability t s = Some [OnRequestComplete t e r]"
  by (auto simp: getRadioCapability_def fill_eq rejectRadioCapabilityRequest_def)

lemma setRadioCapability_one:
  assumes "wf_rc st"
  shows "\<exists>st' es. setRadioCapability data datalen t s st = Some (st', es) \<and> wf_rc st' \<and> completions (map Respond es) = [t]"
proof (cases "request_ok data datalen s")
  case True
  then obtain q where q: "data = Some q" by (auto simp: request_ok_def)
  obtain st' where "setRadioCapability (Some q) datalen t s st =
      Some (st', OnRequestComplete t RIL_E_SUCCESS (Some (answer_to q s)) # indications q s (indicated st s))" "wf_rc st'"
    using set_capability_ok [OF assms True [unfolded q]] by metis
  then show ?thesis using q by (auto simp: indications_def)
next
  case False
  then show ?thesis using set_capability_rejects assms by auto
qed

lemma request_cached:
  assumes "serving s" and src: "\<forall>src. vd_apn data = Some src \<longrightarrow> (\<forall>p \<in> set (owned src). readable (sh_heap s) p)"
  shows "\<exists>c h. cacheInitialAttachApn socketId (vd_apn data) datalen (ia_store (sh_ia s)) (sh_heap s) = Some (c, h) \<and> cache_inv c h
    \<and> (\<forall>src. vd_apn data = Some src \<and> 0 \<le> socketId \<and> socketId < int SIM_COUNT \<and> datalen = APN_SIZE
        \<and> take (length (owned src)) (budget (sh_heap s)) = replicate (length (owned src)) True
        \<longrightarrow> cached_copy socketId src s (s\<lparr>sh_ia := (sh_ia s)\<lparr>ia_store := c\<rparr>, sh_heap := h\<rparr>))"
proof -
  have inv: "cache_inv (ia_store (sh_ia s)) (sh_heap s)" using assms(1) by (simp add: serving_def)
  obtain c h where c: "cacheInitialAttachApn socketId (vd_apn data) datalen (ia_store (sh_ia s)) (sh_heap s) = Some (c, h)" "cache_inv c h"
    by (rule cacheInitialAttachApn_cases [OF inv src, of socketId datalen])
      (use published_inv(1) [OF inv] kept_out_inv [OF inv] in blast)+
  have "cached_copy socketId a s (s\<lparr>sh_ia := (sh_ia s)\<lparr>ia_store := c\<rparr>, sh_heap := h\<rparr>)"
    if a: "vd_apn data = Some a" "0 \<le> socketId" "socketId < int SIM_COUNT" "datalen = APN_SIZE"
      "take (length (owned a)) (budget (sh_heap s)) = replicate (length (owned a)) True" for a
  proof -
    have "published (nat socketId) a (ia_store (sh_ia s)) (sh_heap s) c h"
      using cache_outcome [OF inv _ a(2,3), of a] src a c(1) by auto
    moreover have "nat socketId < length (sIaCache (ia_store (sh_ia s)))" "nat socketId < length (sIaCached (ia_store (sh_ia s)))"
      using inv a(2,3) by (auto simp: cache_inv_def)
    ultimately show ?thesis by (auto simp: published_def cached_copy_def)
  qed
  then show ?thesis using c by blast
qed

lemma patch_writable_maps:
  assumes "patchOnRequest im funcs s = Some (rc, s')" "mappingProt (funcs + 8) (sh_proc s) = (pr, p1)"
    "pr AND PROT_WRITE \<noteq> 0" "maps p1 = maps (sh_proc s)"
  shows "maps (sh_proc s') = maps (sh_proc s)"
  using assms by (auto simp: patchOnRequest_def Let_def poke64_peek64(1) split: if_splits Option.bind_splits)

section \<open>Properties\<close>

text \<open>C5: \<open>RIL_Init\<close> fails closed. It returns, and what it returns is NULL or the vendor's own table with
  \<open>onRequest\<close> replaced by the shim's, the vendor's function kept aside and different from the shim's, so that a
  forwarded request never comes back. When the library does not load or has no \<open>RIL_Init\<close>, it returns NULL without
  running any code of the vendor, and without a call through a NULL pointer. This holds whichever kernel and thread calls fail and whatever becomes of the two
  hooks. It is the vendor's table whenever the library loads, its \<open>RIL_Init\<close> gives a table that passes the checks, and
  no kernel call is refused. After a table was handed out, every further call hands out the same one and changes nothing.\<close>

theorem init_fails_closed:
  assumes "\<not> sOnRequestPatched s" "vendor_ok vn im n args (openRealRil vn s)"
  shows "\<exists>r s'. RIL_Init vn im args s = Some (r, s')
    \<and> (if r = 0 then \<not> sOnRequestPatched s' else sOnRequestPatched s' \<and> r = sRealFuncs s' \<and> patched_table im s')
    \<and> (\<forall>funcs p. good_vendor vn args (openRealRil vn s) funcs p \<longrightarrow> r = funcs)
    \<and> (sRealHandle (openRealRil vn s) = 0 \<or> vn_dlsym vn (sRealHandle (openRealRil vn s)) ''RIL_Init'' = 0 \<longrightarrow>
         r = 0 \<and> s' = openRealRil vn s)
    \<and> (r \<noteq> 0 \<longrightarrow> (\<forall>vn' im' args'. RIL_Init vn' im' args' s' = Some (r, s')))"
proof -
  obtain r s' where "RIL_Init vn im args s = Some (r, s')"
    "if r = 0 then \<not> sOnRequestPatched s' else sOnRequestPatched s' \<and> r = sRealFuncs s' \<and> patched_table im s'"
    "\<forall>funcs p. good_vendor vn args (openRealRil vn s) funcs p \<longrightarrow> r = funcs"
    "unloaded vn (openRealRil vn s) \<longrightarrow> r = 0 \<and> s' = openRealRil vn s"
    using init_result [OF assms] by (elim exE conjE)
  then show ?thesis by (intro exI [of _ r] exI [of _ s']) (auto simp: RIL_Init_def unloaded_def)
qed

definition table_process :: process where
  "table_process = \<lparr>ram = (\<lambda>a. if a = 65536 then 15 else if a = 65544 then 0x44 else 0), maps = [(65536, 69632, 3)], refused = []\<rparr>"

definition table_vendor :: vendor where
  "table_vendor = \<lparr>vn_dlopen = (\<lambda>name p. (1, p)), vn_dlsym = (\<lambda>h name. 2), vn_call = (\<lambda>f args p. Some (65536, table_process))\<rparr>"

definition table_image :: image where
  "table_image = lib_image\<lparr>im_modules := (\<lambda>p. [])\<rparr>"

lemma table_span: "x \<in> set (span 65536 16) \<Longrightarrow> can PROT_READ table_process x"
proof -
  assume "x \<in> set (span 65536 16)"
  then obtain i where i: "i < 16" "x = 65536 + of_nat i" by (auto simp: span_def)
  then have "unat x = 65536 + i" using unat_add64 [of 65536 "of_nat i"] by (simp add: unat_of_nat)
  then show ?thesis
    using i(1) by (simp add: can_def table_process_def PROT_READ_def word_le_nat_alt word_less_nat_alt)
qed

lemma table_vendor_ok: "vendor_ok table_vendor table_image 4096 args (openRealRil table_vendor lib_shim)"
proof -
  have maps: "maps table_process = [(65536, 69632, 3)]" by (simp add: table_process_def)
  have pages: "paged 4096 (maps table_process)" "proper (maps table_process)" by (simp_all add: maps paged_def proper_def)
  have "\<exists>k < 64. (4096 :: nat) = 2 ^ k" by (intro exI [of _ 12]) simp
  then have ok: "table_ok table_image 4096 table_process 65536"
    using pages table_span by (simp add: table_ok_def table_image_def lib_image_def)
  have fun_at: "peek64 table_process (65536 + 8) \<noteq> Some (im_onRequestShim table_image)"
  proof -
    have "le64 9 = [9, 0, 0, 0, 0, 0, 0, 0]" by code_simp
    then show ?thesis
      by (simp add: peek64_iff table_image_def lib_image_def table_process_def span_def upt_rec)
  qed
  have "searchable table_image 4096 (sh_proc s') \<and> find_pair table_image (sh_proc s') = Some (None, sh_proc s')"
    if p: "patchOnRequest table_image 65536 (s\<lparr>sh_proc := table_process\<rparr>) = Some (rc, s')" for s rc s'
  proof -
    have "mappingProt (65536 + 8) table_process = (3, table_process)"
      using mappingProt_lines_text [OF pages(2), of "65536 + 8"]
      by (simp add: mappingProt_def) (simp add: table_process_def kernel_refuses_def)
    then have "maps (sh_proc s') = maps table_process"
      using patch_writable_maps [OF p] by (simp add: PROT_WRITE_def)
    then show ?thesis
      using pages by (simp add: searchable_def find_pair_def table_image_def lib_image_def new_scan_def)
  qed
  then show ?thesis
    unfolding vendor_ok_def using ok fun_at by (simp add: table_vendor_def)
qed

lemma table_patchable: "patchable table_process 65536"
proof -
  have enc: "le32 15 = [15, 0, 0, 0]" "le64 0 = [0, 0, 0, 0, 0, 0, 0, 0]" by code_simp+
  have "\<forall>x \<in> set (span 65536 4). can PROT_READ table_process x" using table_span span_mono [of 4 16 65536] by auto
  then have "peek table_process 65536 4 = Some [15, 0, 0, 0]"
    using peek_defined [of 65536 4 table_process] by (simp add: table_process_def span_def upt_rec)
  then have "peek32 table_process 65536 = Some 15" using enc(1) by (simp add: peek32_def f32.read_iff slice_def)
  moreover have "peek64 table_process (65536 + 8) \<noteq> Some 0"
    using enc(2) by (simp add: peek64_iff table_process_def span_def upt_rec)
  ultimately show ?thesis by (simp add: patchable_def table_version_def) (simp add: table_process_def)
qed

theorem init_fails_closed_witness:
  "\<exists>s'. RIL_Init table_vendor table_image \<lparr>ar_env = 3, ar_argc = 0, ar_argv = 0\<rparr> lib_shim = Some (65536, s')
     \<and> sRealFuncs s' = 65536 \<and> patched_table table_image s'"
proof -
  have "\<not> sOnRequestPatched lib_shim" by (simp add: lib_shim_def)
  moreover have "good_vendor table_vendor \<lparr>ar_env = 3, ar_argc = 0, ar_argv = 0\<rparr> (openRealRil table_vendor lib_shim) 65536 table_process"
    using table_patchable by (simp add: good_vendor_def openRealRil_def table_vendor_def lib_shim_def)
  ultimately show ?thesis
    using init_fails_closed [OF _ table_vendor_ok, of "\<lparr>ar_env = 3, ar_argc = 0, ar_argv = 0\<rparr>"] by fastforce
qed

text \<open>C35: Dispatch, for any request function of the vendor. A radio-capability request is never forwarded: the shim
  answers it itself, completing its token exactly once. Every other request is forwarded exactly once, unchanged, to
  the vendor's own function, and that call is the last thing the shim does. A SET_INITIAL_ATTACH_APN request is copied
  before the call, but only while the hooks are active: with a payload of the right size and no failed allocation,
  the state in which the vendor's function starts has the payload in its cache. No request of any kind makes the shim
  itself fault.\<close>

theorem request_routing:
  assumes "serving s" "\<forall>src. vd_apn data = Some src \<longrightarrow> (\<forall>p \<in> set (owned src). readable (sh_heap s) p)"
  shows "\<exists>s1. serving s1 \<and> sRealOnRequest s1 = sRealOnRequest s \<and>
    (if request = RIL_REQUEST_GET_RADIO_CAPABILITY \<or> request = RIL_REQUEST_SET_RADIO_CAPABILITY
     then \<exists>rs. onRequestShim real request data datalen t socketId s = Some (map Respond rs, s1)
       \<and> completions (map Respond rs) = [t] \<and> sh_ia s1 = sh_ia s \<and> sh_heap s1 = sh_heap s
     else onRequestShim real request data datalen t socketId s =
         map_option (\<lambda>s'. ([CallOnRequest (sRealOnRequest s) request data datalen t socketId], s'))
           (real (sRealOnRequest s) request data datalen t socketId s1)
       \<and> (if request = RIL_REQUEST_SET_INITIAL_ATTACH_APN \<and> attachApnHooksActive (sh_ia s)
          then \<forall>src. vd_apn data = Some src \<and> 0 \<le> socketId \<and> socketId < int SIM_COUNT \<and> datalen = APN_SIZE
                 \<and> take (length (owned src)) (budget (sh_heap s)) = replicate (length (owned src)) True
                 \<longrightarrow> cached_copy socketId src s s1
          else s1 = s))"
proof -
  obtain e r where get: "getRadioCapability t socketId = Some [OnRequestComplete t e r]"
    using getRadioCapability_total by blast
  obtain st' rs where set: "setRadioCapability (vd_capability data) datalen t socketId (sh_rc s) = Some (st', rs)" "wf_rc st'"
    "completions (map Respond rs) = [t]" using setRadioCapability_one [of "sh_rc s"] assms(1) unfolding serving_def by metis
  obtain c h where ia: "cacheInitialAttachApn socketId (vd_apn data) datalen (ia_store (sh_ia s)) (sh_heap s) = Some (c, h)" "cache_inv c h"
    "\<forall>src. vd_apn data = Some src \<and> 0 \<le> socketId \<and> socketId < int SIM_COUNT \<and> datalen = APN_SIZE
        \<and> take (length (owned src)) (budget (sh_heap s)) = replicate (length (owned src)) True
        \<longrightarrow> cached_copy socketId src s (s\<lparr>sh_ia := (sh_ia s)\<lparr>ia_store := c\<rparr>, sh_heap := h\<rparr>)"
    using request_cached [OF assms] by blast
  have real: "sRealOnRequest s \<noteq> 0" using assms(1) by (simp add: serving_def)
  show ?thesis
  proof (cases request)
    case RIL_REQUEST_GET_RADIO_CAPABILITY
    then show ?thesis
      using get assms(1) by (auto simp: onRequestShim_def intro!: exI [of _ s] exI [of _ "[OnRequestComplete t e r]"])
  next
    case RIL_REQUEST_SET_RADIO_CAPABILITY
    then show ?thesis
      using set assms(1) by (auto simp: onRequestShim_def serving_def intro!: exI [of _ "s\<lparr>sh_rc := st'\<rparr>"] exI [of _ rs])
  next
    case RIL_REQUEST_SET_INITIAL_ATTACH_APN
    show ?thesis
    proof (cases "attachApnHooksActive (sh_ia s)")
      case True
      then show ?thesis
        using RIL_REQUEST_SET_INITIAL_ATTACH_APN ia real assms(1)
        by (intro exI [of _ "s\<lparr>sh_ia := (sh_ia s)\<lparr>ia_store := c\<rparr>, sh_heap := h\<rparr>"])
          (simp add: onRequestShim_def serving_def map_conv_bind_option comp_def)
    next
      case False
      then show ?thesis
        using RIL_REQUEST_SET_INITIAL_ATTACH_APN real assms(1)
        by (intro exI [of _ s]) (simp add: onRequestShim_def map_conv_bind_option comp_def)
    qed
  next
    case (RIL_REQUEST_OTHER k)
    then show ?thesis
      using real assms(1) by (intro exI [of _ s]) (simp add: onRequestShim_def map_conv_bind_option comp_def)
  qed
qed

text \<open>The hooks are active, and the framework sets a payload of three strings.\<close>

definition apn_shim :: shim where
  "apn_shim = lib_shim\<lparr>sh_ia := ia_state0\<lparr>sIaHookState := IA_HOOKS_ACTIVE\<rparr>, sh_heap := sample_heap, sRealOnRequest := 4\<rparr>"

definition apn_data :: void_data where
  "apn_data = \<lparr>vd_addr = 1, vd_capability = None, vd_apn = Some sample_ia\<rparr>"

theorem request_routing_witness:
  "\<exists>s1. onRequestShim (\<lambda>f r d n t k st. Some st) RIL_REQUEST_SET_INITIAL_ATTACH_APN apn_data APN_SIZE 6 0 apn_shim =
     Some ([CallOnRequest 4 RIL_REQUEST_SET_INITIAL_ATTACH_APN apn_data APN_SIZE 6 0], s1)
     \<and> cached_copy 0 sample_ia apn_shim s1"
proof -
  have "serving apn_shim" "\<forall>src. vd_apn apn_data = Some src \<longrightarrow> (\<forall>p \<in> set (owned src). readable (sh_heap apn_shim) p)"
    using sample_ok wf_rc_state0 by (simp_all add: serving_def apn_shim_def apn_data_def lib_shim_def ia_state0_def)
  from request_routing [OF this, of RIL_REQUEST_SET_INITIAL_ATTACH_APN "\<lambda>f r d n t k st. Some st" APN_SIZE 6 0]
  show ?thesis
    using sample_ok by (auto simp: apn_shim_def apn_data_def attachApnHooksActive_def ia_state0_def eval_nat_numeral)
qed

end
