(* ===== verification/Sensors_Filter.thy ===== *)
theory Sensors_Filter
  imports Prelude
begin

text \<open>
  The sensor filter (\<open>sensors/sensors.c\<close>): a HAL module that loads the stock module and shows one of its sensors.
  The stock module and what the linker returns for it are arguments; a member that is a function pointer is
  optional. \<open>pthread_once\<close> is a flag in the state.
\<close>

section \<open>The stock module\<close>

datatype sensor_type = SENSOR_TYPE_ACCELEROMETER | SENSOR_TYPE_OTHER int

text \<open>A sensor: the members the filter reads, with the wake-up bit of its flags, and all others.\<close>

record sensor_t =
  s_handle :: int
  s_type :: sensor_type
  s_wake_up :: bool
  s_other :: bytes

datatype module_ref = Stock_Module | Filter_Module

text \<open>An opened device, by the module it names.\<close>

type_synonym hw_device = module_ref

text \<open>The members of the stock module: the tag is right, the id, and which of its functions are there.\<close>

record stock =
  st_tag :: bool
  st_id :: "bytes option"
  st_methods :: "bool option"
  st_get_sensors_list :: bool
  st_set_operation_mode :: bool

text \<open>
  What the code outside the filter does during one call: whether the library loads, the symbol found in it, whether
  the linker then reports an error, and what the functions of the stock module return and store.
\<close>

record outside =
  ln_dlopen :: bool
  ln_dlsym :: "stock option"
  ln_dlerror :: bool
  rp_open :: "bytes \<Rightarrow> hw_device option \<Rightarrow> int \<times> hw_device option"
  rp_list :: "int \<times> sensor_t list option"
  rp_mode :: "nat \<Rightarrow> int"

section \<open>State and operations\<close>

record sensor_filter =
  backend_once :: bool
  backend_module :: "stock option"
  backend_error :: int
  backend_handles :: nat
  sensor_list_once :: bool
  visible_sensor :: "sensor_t option"
  visible_sensor_count :: int

definition sensor_filter0 :: sensor_filter where
  "sensor_filter0 = \<lparr>backend_once = False, backend_module = None, backend_error = - ENODEV, backend_handles = 0,
     sensor_list_once = False, visible_sensor = None, visible_sensor_count = 0\<rparr>"

definition SENSORS_HARDWARE_MODULE_ID :: string where "SENSORS_HARDWARE_MODULE_ID = ''sensors''"

definition legacy_contract :: "stock \<Rightarrow> bool option" where
  "legacy_contract m =
     (if \<not> st_tag m then Some False
      else case st_id m of None \<Rightarrow> Some False
      | Some i \<Rightarrow> do {
          same \<leftarrow> streq i (cstr SENSORS_HARDWARE_MODULE_ID);
          Some (same \<and> st_methods m = Some True \<and> st_get_sensors_list m)
        })"

definition load_backend :: "outside \<Rightarrow> sensor_filter \<Rightarrow> sensor_filter option" where
  "load_backend ln st =
     (if \<not> ln_dlopen ln then Some st
      else let st = st\<lparr>backend_handles := Suc (backend_handles st)\<rparr>;
               closed = st\<lparr>backend_handles := backend_handles st - 1, backend_error := - EINVAL\<rparr> in
        if ln_dlerror ln then Some closed
        else case ln_dlsym ln of None \<Rightarrow> Some closed
        | Some m \<Rightarrow> do {
            good \<leftarrow> legacy_contract m;
            Some (if \<not> good then closed else st\<lparr>backend_module := Some m, backend_error := 0\<rparr>)
          })"

definition get_backend :: "outside \<Rightarrow> sensor_filter \<Rightarrow> (stock option \<times> int \<times> sensor_filter) option" where
  "get_backend ln st = do {
     st \<leftarrow> (if backend_once st then Some st else load_backend ln (st\<lparr>backend_once := True\<rparr>));
     Some (backend_module st, backend_error st, st)
   }"

text \<open>
  \<open>name\<close>, the \<open>id\<close> of the code, is NULL or a string; \<open>device\<close> is NULL or the value the pointer points to, itself NULL or a device.
\<close>

definition open_sensors ::
  "outside \<Rightarrow> bytes option \<Rightarrow> hw_device option option \<Rightarrow> sensor_filter
     \<Rightarrow> (int \<times> hw_device option option \<times> sensor_filter) option" where
  "open_sensors ln name device st =
     (case (name, device) of (Some name, Some old) \<Rightarrow> do {
        (backend, error, st) \<leftarrow> get_backend ln st;
        case backend of None \<Rightarrow> Some (error, device, st)
        | Some m \<Rightarrow> 
            if st_methods m \<noteq> Some True then None
            else let (rc, opened) = rp_open ln name old in
              if rc \<noteq> 0 \<or> opened = None then Some (rc, Some opened, st)
              else Some (0, Some (Some Filter_Module), st)
      }
      | _ \<Rightarrow> Some (- EINVAL, device, st))"

text \<open>The scan of the stock list from entry \<open>i\<close> on, with the choice so far.\<close>

function pick_accelerometer :: "sensor_t list \<Rightarrow> int \<Rightarrow> nat \<Rightarrow> sensor_t option \<Rightarrow> sensor_t option option" where
  "pick_accelerometer stock_sensors stock_count i accelerometer =
     (if int i < stock_count then do {
        s \<leftarrow> rd stock_sensors i;
        pick_accelerometer stock_sensors stock_count (Suc i)
          (if s_type s \<noteq> SENSOR_TYPE_ACCELEROMETER then accelerometer
           else case accelerometer of None \<Rightarrow> Some s
           | Some a \<Rightarrow> if s_wake_up a \<and> \<not> s_wake_up s then Some s else accelerometer)
      }
      else Some accelerometer)"
  by pat_completeness auto
termination
  by (relation "measure (\<lambda>(l, n, i, a). nat (n - int i))") auto

declare pick_accelerometer.simps [simp del]

definition initialize_sensor_list :: "outside \<Rightarrow> sensor_filter \<Rightarrow> sensor_filter option" where
  "initialize_sensor_list ln st = do {
     (backend, error, st) \<leftarrow> get_backend ln st;
     case backend of None \<Rightarrow> Some st
     | Some m \<Rightarrow> do {
         (stock_count, stock_sensors) \<leftarrow> (if st_get_sensors_list m then Some (rp_list ln) else None);
         if stock_count \<le> 0 then Some st
         else case stock_sensors of None \<Rightarrow> Some st
         | Some l \<Rightarrow> do {
             accelerometer \<leftarrow> pick_accelerometer l stock_count 0 None;
             case accelerometer of None \<Rightarrow> Some st
             | Some a \<Rightarrow> Some (st\<lparr>visible_sensor := Some a, visible_sensor_count := 1\<rparr>)
           }
       }
   }"

text \<open>The result is the returned count with what \<open>*list\<close> becomes; \<open>list_ptr\<close> says whether \<open>list\<close> is not NULL.\<close>

definition get_sensors_list ::
  "outside \<Rightarrow> bool \<Rightarrow> sensor_filter \<Rightarrow> (int \<times> sensor_t option option \<times> sensor_filter) option" where
  "get_sensors_list ln list_ptr st =
     (if \<not> list_ptr then Some (0, None, st)
      else do {
        st \<leftarrow> (if sensor_list_once st then Some st else initialize_sensor_list ln (st\<lparr>sensor_list_once := True\<rparr>));
        Some (visible_sensor_count st, Some (visible_sensor st), st)
      })"

definition set_operation_mode :: "outside \<Rightarrow> nat \<Rightarrow> sensor_filter \<Rightarrow> (int \<times> sensor_filter) option" where
  "set_operation_mode ln mode st = do {
     (backend, error, st) \<leftarrow> get_backend ln st;
     case backend of None \<Rightarrow> Some (error, st)
     | Some m \<Rightarrow> 
         if \<not> st_set_operation_mode m then Some (- EINVAL, st) else Some (rp_mode ln mode, st)
   }"

section \<open>What the scan chooses\<close>

text \<open>The first accelerometer that does not wake the device, or else the first accelerometer.\<close>

definition preferred :: "sensor_t list \<Rightarrow> sensor_t option" where
  "preferred l = (case find (\<lambda>s. s_type s = SENSOR_TYPE_ACCELEROMETER \<and> \<not> s_wake_up s) l of Some s \<Rightarrow> Some s
     | None \<Rightarrow> find (\<lambda>s. s_type s = SENSOR_TYPE_ACCELEROMETER) l)"

lemma find_snoc: "find P (xs @ [x]) = (case find P xs of None \<Rightarrow> if P x then Some x else None | Some y \<Rightarrow> Some y)"
  by (induction xs) auto

lemma preferred_snoc:
  "preferred (l @ [s]) = (if s_type s \<noteq> SENSOR_TYPE_ACCELEROMETER then preferred l
     else case preferred l of None \<Rightarrow> Some s | Some a \<Rightarrow> if s_wake_up a \<and> \<not> s_wake_up s then Some s else preferred l)"
proof (cases "find (\<lambda>s. s_type s = SENSOR_TYPE_ACCELEROMETER \<and> \<not> s_wake_up s) l")
  case None
  then have wakes: "s_wake_up a" if "find (\<lambda>s. s_type s = SENSOR_TYPE_ACCELEROMETER) l = Some a" for a
    using that by (auto simp: find_None_iff find_Some_iff)
  show ?thesis
    using None wakes by (cases "find (\<lambda>s. s_type s = SENSOR_TYPE_ACCELEROMETER) l") (simp_all add: preferred_def find_snoc)
next
  case (Some a)
  then have "\<not> s_wake_up a" by (auto simp: find_Some_iff)
  then show ?thesis using Some by (simp add: preferred_def find_snoc)
qed

lemma pick_accelerometer_preferred:
  "i \<le> n \<Longrightarrow> n \<le> length l \<Longrightarrow> pick_accelerometer l (int n) i (preferred (take i l)) = Some (preferred (take n l))"
proof (induction "n - i" arbitrary: i)
  case 0
  then show ?case by (subst pick_accelerometer.simps) simp
next
  case (Suc d)
  then have i: "i < n" "i < length l" by auto
  have "pick_accelerometer l (int n) i (preferred (take i l)) =
      pick_accelerometer l (int n) (Suc i) (preferred (take i l @ [l ! i]))"
    using i by (subst pick_accelerometer.simps) (simp add: preferred_snoc)
  moreover have "pick_accelerometer l (int n) (Suc i) (preferred (take (Suc i) l)) = Some (preferred (take n l))"
    using Suc i by (intro Suc.hyps(1)) auto
  ultimately show ?case using i by (simp add: take_Suc_conv_app_nth)
qed


section \<open>A client's calls\<close>

datatype filter_call = Open "bytes option" "hw_device option option" | List_Sensors bool | Mode nat

datatype filter_answer = Opened int "hw_device option option" | Listed int "sensor_t option option" | Moded int

fun run_call :: "outside \<Rightarrow> filter_call \<Rightarrow> sensor_filter \<Rightarrow> (filter_answer \<times> sensor_filter) option" where
  "run_call ln (Open name device) st = do {(rc, d, st) \<leftarrow> open_sensors ln name device st; Some (Opened rc d, st)}"
| "run_call ln (List_Sensors p) st = do {(n, l, st) \<leftarrow> get_sensors_list ln p st; Some (Listed n l, st)}"
| "run_call ln (Mode m) st = do {(rc, st) \<leftarrow> set_operation_mode ln m st; Some (Moded rc, st)}"

fun filter_calls ::
  "(outside \<times> filter_call) list \<Rightarrow> sensor_filter \<Rightarrow> (filter_answer list \<times> sensor_filter) option" where
  "filter_calls [] st = Some ([], st)"
| "filter_calls ((ln, c) # cs) st = do {
     (a, st) \<leftarrow> run_call ln c st;
     (as, st) \<leftarrow> filter_calls cs st;
     Some (a # as, st)
   }"

text \<open>
  The code outside keeps its contract in a call: the id of the module is a string, and a list it returns has as many
  entries as the count says.
\<close>

definition stock_contract :: "outside \<Rightarrow> bool" where
  "stock_contract ln \<longleftrightarrow>
     (\<forall>m i. ln_dlsym ln = Some m \<longrightarrow> st_id m = Some i \<longrightarrow> 0 \<in> set i) \<and>
     (\<forall>n l. rp_list ln = (n, Some l) \<longrightarrow> n \<le> int (length l))"

text \<open>The backend is kept only when its contract is right, with one handle; one accelerometer is visible, or none.\<close>

definition filter_inv :: "sensor_filter \<Rightarrow> bool" where
  "filter_inv st \<longleftrightarrow>
     (case backend_module st of
        None \<Rightarrow> backend_handles st = 0 \<and> backend_error st \<noteq> 0
      | Some m \<Rightarrow> backend_handles st = 1 \<and> backend_error st = 0 \<and> backend_once st \<and> legacy_contract m = Some True) \<and>
     (case visible_sensor st of
        None \<Rightarrow> visible_sensor_count st = 0
      | Some s \<Rightarrow> visible_sensor_count st = 1 \<and> sensor_list_once st \<and> s_type s = SENSOR_TYPE_ACCELEROMETER)"

lemma filter_inv0: "filter_inv sensor_filter0"
  by (simp add: filter_inv_def sensor_filter0_def)

lemma legacy_contract_defined:
  "(\<forall>i. st_id m = Some i \<longrightarrow> 0 \<in> set i) \<Longrightarrow> legacy_contract m \<noteq> None"
  by (auto simp: legacy_contract_def streq_iff cstr_def split: option.splits)

lemma legacy_contract_members:
  "legacy_contract m = Some True \<Longrightarrow> st_methods m = Some True \<and> st_get_sensors_list m"
  by (auto simp: legacy_contract_def split: option.splits if_splits Option.bind_splits)

lemma backend_list: "filter_inv st \<Longrightarrow> backend_module st = Some m \<Longrightarrow> st_get_sensors_list m"
  using legacy_contract_members by (simp add: filter_inv_def)

lemma backend_open: "filter_inv st \<Longrightarrow> backend_module st = Some m \<Longrightarrow> st_methods m = Some True"
  using legacy_contract_members by (simp add: filter_inv_def)

lemma backend_failed: "filter_inv st \<Longrightarrow> backend_module st = None \<Longrightarrow> backend_error st \<noteq> 0"
  by (simp add: filter_inv_def)

text \<open>Asking for the backend keeps the list part of the state and the invariant, and changes nothing once asked.\<close>

definition asked :: "sensor_filter \<Rightarrow> sensor_filter \<Rightarrow> bool" where
  "asked st st' \<longleftrightarrow> filter_inv st' \<and> backend_once st' \<and> sensor_list_once st' = sensor_list_once st \<and>
     visible_sensor st' = visible_sensor st \<and>
     (backend_once st \<longrightarrow> backend_module st' = backend_module st \<and> backend_error st' = backend_error st)"

lemma load_backend_ok:
  assumes inv: "filter_inv st" and ln: "stock_contract ln" and once: "\<not> backend_once st"
  shows "\<exists>st'. load_backend ln (st\<lparr>backend_once := True\<rparr>) = Some st' \<and> asked st st'"
proof -
  have none: "backend_module st = None" using inv once by (auto simp: filter_inv_def split: option.splits)
  consider (no) "\<not> ln_dlopen ln" | (error) "ln_dlopen ln" "ln_dlerror ln \<or> ln_dlsym ln = None"
    | (found) m where "ln_dlopen ln" "\<not> ln_dlerror ln" "ln_dlsym ln = Some m" by auto
  then show ?thesis
  proof cases
    case (found m)
    then obtain good where "legacy_contract m = Some good"
      using legacy_contract_defined [of m] ln by (auto simp: stock_contract_def)
    then show ?thesis
      using found none inv once
      by (cases good; cases "visible_sensor st") (simp_all add: load_backend_def filter_inv_def asked_def Let_def)
  qed (use none inv once in
    \<open>auto simp: load_backend_def filter_inv_def asked_def Let_def split: option.split\<close>)
qed

lemma get_backend_ok:
  assumes "filter_inv st" "stock_contract ln"
  shows "\<exists>st'. get_backend ln st = Some (backend_module st', backend_error st', st') \<and> asked st st'"
proof (cases "backend_once st")
  case True
  then show ?thesis using assms(1) by (simp add: get_backend_def asked_def)
next
  case False
  then show ?thesis using load_backend_ok [OF assms False] by (auto simp: get_backend_def)
qed

text \<open>What the filter shows for the answers of one call with the backend it has.\<close>

definition chosen :: "stock option \<Rightarrow> outside \<Rightarrow> sensor_t option" where
  "chosen backend ln = (case (backend, rp_list ln) of
     (Some _, n, Some l) \<Rightarrow> preferred (take (nat n) l) | _ \<Rightarrow> None)"

lemma preferred_accelerometer: "preferred l = Some s \<Longrightarrow> s_type s = SENSOR_TYPE_ACCELEROMETER \<and> s \<in> set l"
  by (auto simp: preferred_def find_Some_iff split: option.splits)

lemma initialize_sensor_list_ok:
  assumes inv: "filter_inv st" and ln: "stock_contract ln" and v: "visible_sensor st = None" and o: "sensor_list_once st"
  obtains st' where "initialize_sensor_list ln st = Some st'" "filter_inv st'" "sensor_list_once st'" "backend_once st'"
    "visible_sensor st' = chosen (backend_module st') ln"
    "backend_once st \<Longrightarrow> backend_module st' = backend_module st \<and> backend_error st' = backend_error st"
proof -
  obtain st1 where run1: "get_backend ln st = Some (backend_module st1, backend_error st1, st1)" and "asked st st1"
    using get_backend_ok [OF inv ln] by blast
  then have st1: "filter_inv st1" "backend_once st1" "sensor_list_once st1 = sensor_list_once st"
    "visible_sensor st1 = visible_sensor st"
    "backend_once st \<longrightarrow> backend_module st1 = backend_module st \<and> backend_error st1 = backend_error st"
    by (simp_all add: asked_def)
  obtain n r where r: "rp_list ln = (n, r)" by fastforce
  show thesis
  proof (cases "backend_module st1 = None \<or> n \<le> 0 \<or> r = None")
    case True
    then have "initialize_sensor_list ln st = Some st1" "chosen (backend_module st1) ln = None"
      using run1 backend_list [OF st1(1)] r
      by (auto simp: initialize_sensor_list_def chosen_def preferred_def split: option.splits)
    then show thesis using that [of st1] st1 v o by simp
  next
    case False
    then obtain m l where m: "backend_module st1 = Some m" and l: "r = Some l" and n: "0 < n" by auto
    then have "nat n \<le> length l" using ln r by (auto simp: stock_contract_def)
    then have "pick_accelerometer l n 0 None = Some (preferred (take (nat n) l))"
      using pick_accelerometer_preferred [of 0 "nat n" l] n by (simp add: preferred_def)
    then have run: "initialize_sensor_list ln st = Some (case preferred (take (nat n) l) of None \<Rightarrow> st1
        | Some a \<Rightarrow> st1\<lparr>visible_sensor := Some a, visible_sensor_count := 1\<rparr>)"
      and v1: "chosen (backend_module st1) ln = preferred (take (nat n) l)"
      using run1 m l n r backend_list [OF st1(1) m]
      by (simp_all add: initialize_sensor_list_def chosen_def split: option.split)
    show thesis
    proof (cases "preferred (take (nat n) l)")
      case None
      then show thesis using that [of st1] run v1 st1 v o by simp
    next
      case (Some a)
      have "filter_inv (st1\<lparr>visible_sensor := Some a, visible_sensor_count := 1\<rparr>)"
        using st1(1,3) o preferred_accelerometer [OF Some] m by (simp add: filter_inv_def)
      then show thesis
        using that [of "st1\<lparr>visible_sensor := Some a, visible_sensor_count := 1\<rparr>"] run v1 st1(2,3,5) o Some by simp
    qed
  qed
qed

text \<open>
  The one answer to a call, given the backend and the visible sensor the state has at the end: nothing for a NULL
  pointer; the stock module's own answer when it opens, with the device pointed at the filter; the visible sensor.
\<close>

fun answer_of :: "sensor_filter \<Rightarrow> outside \<Rightarrow> filter_call \<Rightarrow> filter_answer" where
  "answer_of st ln (List_Sensors p) =
     (if p then Listed (if visible_sensor st = None then 0 else 1) (Some (visible_sensor st)) else Listed 0 None)"
| "answer_of st ln (Open (Some name) (Some old)) =
     (if backend_module st = None then Opened (backend_error st) (Some old)
      else let (rc, opened) = rp_open ln name old in
        if rc = 0 \<and> opened \<noteq> None then Opened 0 (Some (Some Filter_Module)) else Opened rc (Some opened))"
| "answer_of st ln (Open _ device) = Opened (- EINVAL) device"
| "answer_of st ln (Mode m) = Moded (case backend_module st of None \<Rightarrow> backend_error st
     | Some b \<Rightarrow> if st_set_operation_mode b then rp_mode ln m else - EINVAL)"

text \<open>The part of the state that the answer to a call depends on is fixed.\<close>

fun settled :: "sensor_filter \<Rightarrow> filter_call \<Rightarrow> bool" where
  "settled st (List_Sensors p) \<longleftrightarrow> p \<longrightarrow> sensor_list_once st"
| "settled st (Open (Some name) (Some old)) \<longleftrightarrow> backend_once st"
| "settled st (Open _ device) \<longleftrightarrow> True"
| "settled st (Mode m) \<longleftrightarrow> backend_once st"

lemma answer_of_settled:
  assumes "settled st c"
    "backend_once st \<longrightarrow> backend_module st' = backend_module st \<and> backend_error st' = backend_error st"
    "sensor_list_once st \<longrightarrow> visible_sensor st' = visible_sensor st"
  shows "answer_of st' ln c = answer_of st ln c"
  using assms by (cases "(st, ln, c)" rule: answer_of.cases) (auto split: option.splits)

text \<open>One call: it is defined, keeps the invariant, and answers from what the first list call fixed.\<close>

definition filter_progress :: "outside \<Rightarrow> filter_call \<Rightarrow> sensor_filter \<Rightarrow> filter_answer \<Rightarrow> sensor_filter \<Rightarrow> bool" where
  "filter_progress ln c st a st' \<longleftrightarrow> filter_inv st' \<and> a = answer_of st' ln c \<and> settled st' c \<and>
     (backend_once st \<longrightarrow>
        backend_once st' \<and> backend_module st' = backend_module st \<and> backend_error st' = backend_error st) \<and>
     (if sensor_list_once st then sensor_list_once st' \<and> visible_sensor st' = visible_sensor st
      else if c = List_Sensors True
      then sensor_list_once st' \<and> backend_once st' \<and> visible_sensor st' = chosen (backend_module st') ln
      else \<not> sensor_list_once st')"

lemma backend_call_progress:
  assumes inv: "filter_inv st" and ln: "stock_contract ln" and c: "c \<noteq> List_Sensors True"
    and get: "\<And>st'. get_backend ln st = Some (backend_module st', backend_error st', st') \<Longrightarrow> filter_inv st' \<Longrightarrow>
      backend_once st' \<Longrightarrow> run_call ln c st = Some (answer_of st' ln c, st') \<and> settled st' c"
  shows "\<exists>a st'. run_call ln c st = Some (a, st') \<and> filter_progress ln c st a st'"
proof -
  obtain st1 where run1: "get_backend ln st = Some (backend_module st1, backend_error st1, st1)" and "asked st st1"
    using get_backend_ok [OF inv ln] by blast
  then have st1: "filter_inv st1" "backend_once st1" "sensor_list_once st1 = sensor_list_once st"
    "visible_sensor st1 = visible_sensor st"
    "backend_once st \<longrightarrow> backend_module st1 = backend_module st \<and> backend_error st1 = backend_error st"
    by (simp_all add: asked_def)
  note a = get [OF run1 st1(1,2)]
  have "filter_progress ln c st (answer_of st1 ln c) st1"
    using st1 a c by (cases "sensor_list_once st") (simp_all add: filter_progress_def)
  then show ?thesis using a by blast
qed

lemma filter_inv_count: "filter_inv st \<Longrightarrow> visible_sensor_count st = (if visible_sensor st = None then 0 else 1)"
  by (auto simp: filter_inv_def split: option.splits)

lemma filter_call_progress:
  assumes inv: "filter_inv st" and ln: "stock_contract ln"
  shows "\<exists>a st'. run_call ln c st = Some (a, st') \<and> filter_progress ln c st a st'"
proof (cases c)
  case (Open name device)
  show ?thesis
  proof (cases "name = None \<or> device = None")
    case True
    then have "run_call ln c st = Some (Opened (- EINVAL) device, st)"
      by (auto simp: Open open_sensors_def split: option.splits)
    moreover have "answer_of st ln c = Opened (- EINVAL) device" "settled st c"
      using True by (auto simp: Open split: option.splits)
    ultimately show ?thesis using inv Open by (auto simp: filter_progress_def)
  next
    case False
    then obtain i old where i: "name = Some i" "device = Some old" by auto
    show ?thesis
    proof (rule backend_call_progress [OF inv ln])
      fix st' assume g: "get_backend ln st = Some (backend_module st', backend_error st', st')" and inv': "filter_inv st'"
        and o: "backend_once st'"
      then show "run_call ln c st = Some (answer_of st' ln c, st') \<and> settled st' c"
        using i backend_open [OF inv']
        by (cases "rp_open ln i old"; cases "backend_module st'") (auto simp: Open open_sensors_def)
    qed (simp add: Open)
  qed
next
  case (Mode m)
  show ?thesis
  proof (rule backend_call_progress [OF inv ln])
    fix st' assume "get_backend ln st = Some (backend_module st', backend_error st', st')" "backend_once st'"
    then show "run_call ln c st = Some (answer_of st' ln c, st') \<and> settled st' c"
      by (auto simp: Mode set_operation_mode_def split: option.splits)
  qed (simp add: Mode)
next
  case (List_Sensors p)
  show ?thesis
  proof (cases "p \<and> \<not> sensor_list_once st")
    case False
    then show ?thesis
      using inv List_Sensors filter_inv_count [OF inv]
      by (auto simp: get_sensors_list_def filter_progress_def)
  next
    case True
    have inv1: "filter_inv (st\<lparr>sensor_list_once := True\<rparr>)" "visible_sensor (st\<lparr>sensor_list_once := True\<rparr>) = None"
      using inv True by (auto simp: filter_inv_def split: option.splits)
    obtain st' where st': "initialize_sensor_list ln (st\<lparr>sensor_list_once := True\<rparr>) = Some st'" "filter_inv st'"
      "sensor_list_once st'" "backend_once st'" "visible_sensor st' = chosen (backend_module st') ln"
      "backend_once st \<Longrightarrow> backend_module st' = backend_module st \<and> backend_error st' = backend_error st"
      using initialize_sensor_list_ok [OF inv1(1) ln inv1(2)] by auto
    then show ?thesis
      using True List_Sensors filter_inv_count [OF st'(2)]
      by (auto simp: get_sensors_list_def filter_progress_def)
  qed
qed

text \<open>What a run of calls shows, given whether the list was already fixed.\<close>

definition first_list :: "(outside \<times> filter_call) list \<Rightarrow> outside option" where
  "first_list calls = map_option fst (find (\<lambda>(ln, c). c = List_Sensors True) calls)"

lemma filter_calls_ok:
  assumes "filter_inv st" "\<forall>(ln, c) \<in> set calls. stock_contract ln"
  shows "\<exists>st'. filter_calls calls st = Some (map (\<lambda>(ln, c). answer_of st' ln c) calls, st') \<and> filter_inv st' \<and>
    (backend_once st \<longrightarrow> backend_module st' = backend_module st \<and> backend_error st' = backend_error st) \<and>
    visible_sensor st' = (if sensor_list_once st then visible_sensor st
      else case first_list calls of None \<Rightarrow> None | Some ln \<Rightarrow> chosen (backend_module st') ln)"
  using assms
proof (induction calls arbitrary: st)
  case Nil
  then show ?case by (auto simp: first_list_def filter_inv_def split: option.splits)
next
  case (Cons x calls)
  obtain ln c where x: "x = (ln, c)" by fastforce
  have "stock_contract ln" using Cons.prems(2) by (auto simp: x)
  then obtain a st1 where a: "run_call ln c st = Some (a, st1)" and p: "filter_progress ln c st a st1"
    using filter_call_progress [OF Cons.prems(1)] by blast
  have inv1: "filter_inv st1" using p by (simp add: filter_progress_def)
  have "\<forall>(ln, c) \<in> set calls. stock_contract ln" using Cons.prems(2) by simp
  from Cons.IH [OF inv1 this] obtain st2
    where as: "filter_calls calls st1 = Some (map (\<lambda>(ln, c). answer_of st2 ln c) calls, st2)" "filter_inv st2"
    "backend_once st1 \<longrightarrow> backend_module st2 = backend_module st1 \<and> backend_error st2 = backend_error st1"
    "visible_sensor st2 = (if sensor_list_once st1 then visible_sensor st1
      else case first_list calls of None \<Rightarrow> None | Some ln \<Rightarrow> chosen (backend_module st2) ln)"
    by blast
  have "a = answer_of st2 ln c"
    using p as(3,4) answer_of_settled [of st1 c st2 ln] by (simp add: filter_progress_def)
  moreover have "visible_sensor st2 = (if sensor_list_once st then visible_sensor st
      else case first_list (x # calls) of None \<Rightarrow> None | Some ln \<Rightarrow> chosen (backend_module st2) ln)"
    using p as(3,4) by (auto simp: filter_progress_def first_list_def x)
  moreover have "backend_once st \<longrightarrow> backend_module st2 = backend_module st \<and> backend_error st2 = backend_error st"
    using p as(3) by (auto simp: filter_progress_def)
  ultimately show ?case using as a by (auto simp: x)
qed

lemma answer_of_opened:
  "answer_of st ln c = Opened 0 (Some (Some d)) \<Longrightarrow> filter_inv st \<Longrightarrow> d = Filter_Module"
  by (cases "(st, ln, c)" rule: answer_of.cases)
    (auto simp: backend_failed split: if_splits prod.splits)

text \<open>C38: Whatever calls a client makes and whatever a stock module that keeps its contract answers, the filter
  holds at most one handle on the stock library, and the answer to each call is fixed by the state at the end of the
  run: a list call with a NULL pointer gets count 0 and stores nothing; every other list call, the first and each
  repeat, gets the same sensor, which is the one the first such call chose - the first accelerometer of the stock list
  that does not wake the device, or else the first accelerometer, or none. A device that is opened with success names
  the filter as its module, never the stock module whose own list is not filtered.\<close>

theorem filter_shows_one_accelerometer:
  assumes "\<forall>(ln, c) \<in> set calls. stock_contract ln"
  shows "\<exists>answers st. filter_calls calls sensor_filter0 = Some (answers, st) \<and> backend_handles st \<le> 1 \<and>
    length answers = length calls \<and>
    (\<forall>i < length calls.
       (snd (calls ! i) = List_Sensors False \<longrightarrow> answers ! i = Listed 0 None) \<and>
       (snd (calls ! i) = List_Sensors True \<longrightarrow>
          answers ! i = Listed (if visible_sensor st = None then 0 else 1) (Some (visible_sensor st))) \<and>
       answers ! i = answer_of st (fst (calls ! i)) (snd (calls ! i))) \<and>
    (\<forall>d. Opened 0 (Some (Some d)) \<in> set answers \<longrightarrow> d = Filter_Module) \<and>
    visible_sensor st =
      (case first_list calls of None \<Rightarrow> None | Some ln \<Rightarrow> chosen (backend_module st) ln)"
proof -
  obtain st where r: "filter_calls calls sensor_filter0 = Some (map (\<lambda>(ln, c). answer_of st ln c) calls, st)"
    "filter_inv st"
    "visible_sensor st = (case first_list calls of None \<Rightarrow> None | Some ln \<Rightarrow> chosen (backend_module st) ln)"
    using filter_calls_ok [OF filter_inv0 assms] by (auto simp: sensor_filter0_def)
  have "backend_handles st \<le> 1" using r(2) by (auto simp: filter_inv_def split: option.splits)
  moreover have "\<forall>d. Opened 0 (Some (Some d)) \<in> set (map (\<lambda>(ln, c). answer_of st ln c) calls) \<longrightarrow> d = Filter_Module"
    using answer_of_opened [OF _ r(2)] by (auto dest!: sym [of "Opened 0 _"])
  moreover have "map (\<lambda>(ln, c). answer_of st ln c) calls ! i = answer_of st (fst (calls ! i)) (snd (calls ! i))"
    if "i < length calls" for i using that by (simp add: case_prod_beta)
  ultimately show ?thesis using r(1,3) by (intro exI [of _ "map (\<lambda>(ln, c). answer_of st ln c) calls"] exI [of _ st]) simp
qed

definition ex_sensors :: "sensor_t list" where
  "ex_sensors = [\<lparr>s_handle = 3, s_type = SENSOR_TYPE_OTHER 5, s_wake_up = False, s_other = []\<rparr>,
     \<lparr>s_handle = 1, s_type = SENSOR_TYPE_ACCELEROMETER, s_wake_up = True, s_other = []\<rparr>,
     \<lparr>s_handle = 2, s_type = SENSOR_TYPE_ACCELEROMETER, s_wake_up = False, s_other = []\<rparr>]"

definition ex_outside :: outside where
  "ex_outside = \<lparr>ln_dlopen = True,
     ln_dlsym = Some \<lparr>st_tag = True, st_id = Some (cstr ''sensors''), st_methods = Some True,
       st_get_sensors_list = True, st_set_operation_mode = False\<rparr>,
     ln_dlerror = False, rp_open = (\<lambda>i old. (0, Some Stock_Module)), rp_list = (3, Some ex_sensors), rp_mode = (\<lambda>m. 0)\<rparr>"

lemma ex_outside_contract: "stock_contract ex_outside"
  by (simp add: stock_contract_def ex_outside_def ex_sensors_def cstr_def)

theorem filter_shows_one_accelerometer_witness:
  "\<exists>answers st. filter_calls [(ex_outside, Open (Some (cstr ''poll'')) (Some None)), (ex_outside, List_Sensors True),
      (ex_outside, List_Sensors False), (ex_outside, List_Sensors True)] sensor_filter0 = Some (answers, st) \<and>
    answers = [Opened 0 (Some (Some Filter_Module)), Listed 1 (Some (Some (ex_sensors ! 2))), Listed 0 None,
      Listed 1 (Some (Some (ex_sensors ! 2)))] \<and> backend_handles st \<le> 1"
proof -
  let ?calls = "[(ex_outside, Open (Some (cstr ''poll'')) (Some None)), (ex_outside, List_Sensors True),
    (ex_outside, List_Sensors False), (ex_outside, List_Sensors True)]"
  have "\<forall>(ln, c) \<in> set ?calls. stock_contract ln" by (simp add: ex_outside_contract)
  from filter_shows_one_accelerometer [OF this] obtain answers st
    where r: "filter_calls ?calls sensor_filter0 = Some (answers, st)" "backend_handles st \<le> 1" by blast
  moreover have "map_option fst (filter_calls ?calls sensor_filter0) =
      Some [Opened 0 (Some (Some Filter_Module)), Listed 1 (Some (Some (ex_sensors ! 2))), Listed 0 None,
        Listed 1 (Some (Some (ex_sensors ! 2)))]"
    by code_simp
  ultimately show ?thesis by auto
qed

end
