(* ===== verification/Ordered_Map.thy ===== *)
theory Ordered_Map
  imports Main "HOL-Library.Sublist"
begin

text \<open>
  The \<open>std::map\<close> and \<open>std::set\<close> of the C++ components: an association list in the order of its keys, which is
  the order their loops visit. A set is a map to \<^typ>\<open>unit\<close>. The locale states what the clients rely on.
\<close>

type_synonym ('k, 'v) omap = "('k \<times> 'v) list"

section \<open>Operations\<close>

text \<open>\<open>m[k] = v\<close>, \<open>m.emplace(k, v)\<close> and \<open>m.erase(k)\<close>; \<open>m.find(k)\<close> is \<^const>\<open>map_of\<close>.\<close>

fun assign :: "'k :: linorder \<Rightarrow> 'v \<Rightarrow> ('k, 'v) omap \<Rightarrow> ('k, 'v) omap" where
  "assign k v [] = [(k, v)]"
| "assign k v ((j, w) # m) = (if j < k then (j, w) # assign k v m else if j = k then (k, v) # m else (k, v) # (j, w) # m)"

definition emplace :: "'k :: linorder \<Rightarrow> 'v \<Rightarrow> ('k, 'v) omap \<Rightarrow> ('k, 'v) omap" where
  "emplace k v m = (case map_of m k of None \<Rightarrow> assign k v m | Some _ \<Rightarrow> m)"

definition erase :: "'k :: linorder \<Rightarrow> ('k, 'v) omap \<Rightarrow> ('k, 'v) omap" where
  "erase k m = filter (\<lambda>(j, w). j \<noteq> k) m"

definition has :: "('k, 'v) omap \<Rightarrow> 'k \<Rightarrow> bool" where
  "has m k \<longleftrightarrow> map_of m k \<noteq> None"

definition ordered :: "('k :: linorder, 'v) omap \<Rightarrow> bool" where
  "ordered m \<longleftrightarrow> sorted_wrt (<) (map fst m)"

section \<open>The contract\<close>

locale dictionary =
  fixes lookup :: "'m \<Rightarrow> 'k \<Rightarrow> 'v option" and put :: "'k \<Rightarrow> 'v \<Rightarrow> 'm \<Rightarrow> 'm" and remove :: "'k \<Rightarrow> 'm \<Rightarrow> 'm"
    and ok :: "'m \<Rightarrow> bool"
  assumes lookup_put: "ok m \<Longrightarrow> lookup (put k v m) j = (if j = k then Some v else lookup m j)"
    and lookup_remove: "ok m \<Longrightarrow> lookup (remove k m) j = (if j = k then None else lookup m j)"
    and ok_put: "ok m \<Longrightarrow> ok (put k v m)"
    and ok_remove: "ok m \<Longrightarrow> ok (remove k m)"
begin

lemma ok_removes: "ok m \<Longrightarrow> ok (fold remove ks m)"
  by (induction ks arbitrary: m) (simp_all add: ok_remove)

lemma lookup_removes: "ok m \<Longrightarrow> lookup (fold remove ks m) j = (if j \<in> set ks then None else lookup m j)"
  by (induction ks arbitrary: m) (auto simp: ok_remove lookup_remove)

end

section \<open>The lists meet it\<close>

lemma ordered_Cons: "ordered ((j, w) # m) \<longleftrightarrow> (\<forall>k \<in> set (map fst m). j < k) \<and> ordered m"
  by (auto simp: ordered_def)

lemma keys_assign: "set (map fst (assign k v m)) = insert k (set (map fst m))"
  by (induction k v m rule: assign.induct) auto

lemma ordered_assign: "ordered m \<Longrightarrow> ordered (assign k v m)"
proof (induction k v m rule: assign.induct)
  case (2 k v j w m)
  have keys: "\<forall>i \<in> set (map fst m). j < i" and m: "ordered m" using "2.prems" by (auto simp: ordered_Cons)
  consider "j < k" | "j = k" | "k < j" by (rule linorder_cases)
  then show ?case
  proof cases
    case 1
    then show ?thesis using "2.IH" [OF 1 m] keys keys_assign [of k v m] by (simp add: ordered_Cons)
  next
    case 3
    then show ?thesis using "2.prems" keys by (fastforce simp: ordered_Cons)
  qed (use "2.prems" in \<open>simp add: ordered_Cons\<close>)
qed (simp add: ordered_def)

lemma map_of_assign: "ordered m \<Longrightarrow> map_of (assign k v m) j = (if j = k then Some v else map_of m j)"
  by (induction k v m rule: assign.induct) (auto simp: ordered_Cons)

lemma map_of_erase: "map_of (erase k m) j = (if j = k then None else map_of m j)"
  unfolding erase_def by (induction m) auto

lemma ordered_erase: "ordered m \<Longrightarrow> ordered (erase k m)"
  unfolding erase_def ordered_def by (induction m) auto

interpretation om: dictionary map_of assign erase ordered
  by unfold_locales (simp_all add: map_of_assign map_of_erase ordered_assign ordered_erase)

lemma ordered_Nil [simp]: "ordered []"
  by (simp add: ordered_def)

lemma ordered_emplace: "ordered m \<Longrightarrow> ordered (emplace k v m)"
  by (simp add: emplace_def om.ok_put split: option.split)

lemma map_of_emplace:
  "ordered m \<Longrightarrow> map_of (emplace k v m) j = (if j = k \<and> map_of m k = None then Some v else map_of m j)"
  by (auto simp: emplace_def om.lookup_put split: option.split)

lemma has_iff: "has m k \<longleftrightarrow> k \<in> set (map fst m)"
  by (auto simp: has_def map_of_eq_None_iff)

lemma has_emplace: "ordered m \<Longrightarrow> has (emplace k v m) j \<longleftrightarrow> j = k \<or> has m j"
  by (auto simp: has_def map_of_emplace)

lemma has_erase: "has (erase k m) j \<longleftrightarrow> j \<noteq> k \<and> has m j"
  by (simp add: has_def map_of_erase)

lemma has_Nil [simp]: "\<not> has [] k"
  by (simp add: has_def)

lemma subseq_keys: "subseq m' m \<Longrightarrow> set (map fst m') \<subseteq> set (map fst m)"
  by (induction rule: list_emb.induct) auto

lemma ordered_subseq: "subseq m' m \<Longrightarrow> ordered m \<Longrightarrow> ordered m'"
proof (induction rule: list_emb.induct)
  case (list_emb_Cons2 x y xs ys)
  obtain j w where y: "y = (j, w)" by fastforce
  have "\<forall>k \<in> set (map fst ys). j < k" "ordered ys" using list_emb_Cons2.prems by (simp_all add: y ordered_Cons)
  moreover from this have "\<forall>k \<in> set (map fst xs). j < k" using subseq_keys [OF list_emb_Cons2.hyps(2)] by blast
  ultimately show ?case using list_emb_Cons2.hyps(1) list_emb_Cons2.IH by (simp add: y ordered_Cons)
qed (auto simp: ordered_Cons)

lemma has_subseq: "subseq m' m \<Longrightarrow> has m' k \<Longrightarrow> has m k"
  unfolding has_iff using subseq_keys by blast

lemma map_of_ordered: "ordered m \<Longrightarrow> map_of m k = Some v \<longleftrightarrow> (k, v) \<in> set m"
  by (rule map_of_eq_Some_iff) (simp add: ordered_def strict_sorted_iff)

end
