(* ===== verification/Sensors_SubHal.thy ===== *)
theory Sensors_SubHal
  imports Sensors_Filter Ordered_Map
begin

text \<open>
  The adapter of the legacy sensors device to a sub-HAL (\<open>sensors-hal/SensorsSubHal.cpp\<close>, \<open>SensorsSubHal.h\<close>,
  \<open>PollPolicy.h\<close>). The legacy module and device are records of functions on a state \<open>'w\<close> of the world outside, each
  of them optional as a function pointer is; the conversions of the sensors library are arguments too. An operation
  that would call through a NULL pointer is undefined, i.e. \<^const>\<open>None\<close>. A handle, a status and a time are \<^typ>\<open>int\<close>.
\<close>

section \<open>Data\<close>

datatype Result = OK | PERMISSION_DENIED | NO_MEMORY | BAD_VALUE | INVALID_OPERATION

datatype OperationMode = NORMAL | DATA_INJECTION

datatype RateLevel = STOP | RATE nat

datatype SensorType = META_DATA | ADDITIONAL_INFO | TYPE_OTHER int

text \<open>Of the flags of a sensor, the bits the code tests: wake-up, and any direct report or direct channel bit.\<close>

record SensorInfo =
  sensorHandle :: int
  flag_wake_up :: bool
  flag_direct :: bool
  info_other :: bytes

record Event =
  ev_handle :: int
  ev_type :: SensorType
  ev_timestamp :: int
  ev_payload :: bytes

section \<open>The legacy HAL and the library\<close>

record 'w legacy_module =
  lm_get_sensors_list :: "('w \<Rightarrow> (int \<times> sensor_t list option) \<times> 'w) option"
  lm_set_operation_mode :: "(OperationMode \<Rightarrow> 'w \<Rightarrow> int \<times> 'w) option"

record 'w legacy_device =
  ld_version :: int
  ld_poll :: bool
  ld_activate :: "(int \<Rightarrow> bool \<Rightarrow> 'w \<Rightarrow> int \<times> 'w) option"
  ld_batch :: "(int \<Rightarrow> int \<Rightarrow> int \<Rightarrow> int \<Rightarrow> 'w \<Rightarrow> int \<times> 'w) option"
  ld_flush :: "(int \<Rightarrow> 'w \<Rightarrow> int \<times> 'w) option"
  ld_inject_sensor_data :: "(bytes \<Rightarrow> 'w \<Rightarrow> int \<times> 'w) option"
  ld_register_direct_channel :: "(bytes option \<Rightarrow> int \<Rightarrow> 'w \<Rightarrow> int \<times> 'w) option"
  ld_config_direct_report :: "(int \<Rightarrow> int \<Rightarrow> int \<Rightarrow> 'w \<Rightarrow> int \<times> 'w) option"

record 'w platform =
  hw_get_module :: "'w \<Rightarrow> (int \<times> 'w legacy_module option) \<times> 'w"
  sensors_open_1 :: "'w \<Rightarrow> (int \<times> 'w legacy_device option) \<times> 'w"
  convertFromSensor :: "sensor_t \<Rightarrow> SensorInfo"
  convertFromSensorEvent :: "bytes \<Rightarrow> Event"
  convertToSensorEvent :: "Event \<Rightarrow> bytes"
  convertFromSharedMemInfo :: "bytes \<Rightarrow> bytes option"
  convertFromRateLevel :: "RateLevel \<Rightarrow> int"
  elapsedRealtimeNano :: "'w \<Rightarrow> int \<times> 'w"

abbreviation (input) SENSORS_DEVICE_API_VERSION_1_3 :: int where "SENSORS_DEVICE_API_VERSION_1_3 \<equiv> 0x01030001"
abbreviation (input) SENSORS_DEVICE_API_VERSION_1_4 :: int where "SENSORS_DEVICE_API_VERSION_1_4 \<equiv> 0x01040001"
abbreviation (input) NO_INIT :: int where "NO_INIT \<equiv> - ENODEV"
abbreviation (input) kPollMaxBufferSize :: int where "kPollMaxBufferSize \<equiv> 128"

definition resultFromStatus :: "int \<Rightarrow> Result" where
  "resultFromStatus err =
     (if err = 0 then OK else if err = - EPERM then PERMISSION_DENIED else if err = - ENOMEM then NO_MEMORY
      else if err = - EINVAL then BAD_VALUE else INVALID_OPERATION)"

section \<open>State\<close>

text \<open>The callback is known by the sub-HAL index it carries; \<open>mPollThread\<close> says whether the thread was started.\<close>

record 'w sub_hal =
  mSensors :: "(int, SensorInfo) omap"
  mCallback :: "nat option"
  mCurrentOperationMode :: OperationMode
  mInitStatus :: int
  mActiveSince :: "(int, int) omap"
  mDirectChannels :: "(int, unit) omap"
  mEpoch :: "64 word"
  mPollThread :: bool
  mSensorDevice :: "'w legacy_device option"
  mSensorModule :: "'w legacy_module option"

definition isReady :: "'w sub_hal \<Rightarrow> bool" where
  "isReady st \<longleftrightarrow> mInitStatus st = 0"

definition getHalDeviceVersion :: "'w sub_hal \<Rightarrow> int" where
  "getHalDeviceVersion st = (case mSensorDevice st of None \<Rightarrow> - 1 | Some d \<Rightarrow> ld_version d)"

definition isWakeUpSensor :: "'w sub_hal \<Rightarrow> int \<Rightarrow> bool" where
  "isWakeUpSensor st handle = (case map_of (mSensors st) handle of None \<Rightarrow> False | Some s \<Rightarrow> flag_wake_up s)"

section \<open>Construction\<close>

fun enumerate_entries ::
  "'w platform \<Rightarrow> sensor_t list \<Rightarrow> nat list \<Rightarrow> (int, SensorInfo) omap \<Rightarrow> (int, SensorInfo) omap option" where
  "enumerate_entries p l [] m = Some m"
| "enumerate_entries p l (i # is) m = do {
     s \<leftarrow> rd l i;
     let sensor = convertFromSensor p s;
     enumerate_entries p l is (emplace (sensorHandle sensor) sensor m)
   }"

definition enumerateSensors :: "'w platform \<Rightarrow> 'w sub_hal \<Rightarrow> 'w \<Rightarrow> (int \<times> 'w sub_hal \<times> 'w) option" where
  "enumerateSensors p st w = do {
     md \<leftarrow> mSensorModule st;
     f \<leftarrow> lm_get_sensors_list md;
     let ((n, l), w) = f w;
     case l of None \<Rightarrow> Some (NO_INIT, st, w)
     | Some l \<Rightarrow>
         if n \<le> 0 then Some (NO_INIT, st, w)
         else do {
           m \<leftarrow> enumerate_entries p l [0..<nat n] (mSensors st);
           Some (0, st\<lparr>mSensors := m\<rparr>, w)
         }
   }"

definition sub_hal_fields :: "'w sub_hal" where
  "sub_hal_fields = \<lparr>mSensors = [], mCallback = None, mCurrentOperationMode = NORMAL, mInitStatus = NO_INIT,
     mActiveSince = [], mDirectChannels = [], mEpoch = 0, mPollThread = False, mSensorDevice = None,
     mSensorModule = None\<rparr>"

definition SensorsSubHal :: "'w platform \<Rightarrow> 'w \<Rightarrow> ('w sub_hal \<times> 'w) option" where
  "SensorsSubHal p w =
     (let ((status, module), w) = hw_get_module p w;
          st = sub_hal_fields\<lparr>mInitStatus := status, mSensorModule := module\<rparr>;
          no_list = (case module of None \<Rightarrow> True | Some md \<Rightarrow> lm_get_sensors_list md = None) in
      if status \<noteq> 0 \<or> no_list then Some (st\<lparr>mInitStatus := NO_INIT\<rparr>, w)
      else let ((status, device), w) = sensors_open_1 p w;
               st = st\<lparr>mInitStatus := status, mSensorDevice := device\<rparr> in
        case device of None \<Rightarrow> Some (st\<lparr>mInitStatus := NO_INIT\<rparr>, w)
        | Some d \<Rightarrow>
            if status \<noteq> 0 then Some (st\<lparr>mInitStatus := NO_INIT\<rparr>, w)
            else if getHalDeviceVersion st < SENSORS_DEVICE_API_VERSION_1_3 \<or> \<not> ld_poll d \<or>
              ld_activate d = None \<or> ld_batch d = None \<or> ld_flush d = None then Some (st\<lparr>mInitStatus := NO_INIT\<rparr>, w)
            else do {
              (status, st, w) \<leftarrow> enumerateSensors p st w;
              Some (st\<lparr>mInitStatus := status\<rparr>, w)
            })"

definition sensorsHalGetSubHal :: "'w platform \<Rightarrow> 'w \<Rightarrow> ('w sub_hal option \<times> 'w) option" where
  "sensorsHalGetSubHal p w = do {
     (subHal, w) \<leftarrow> SensorsSubHal p w;
     Some (if isReady subHal then Some subHal else None, w)
   }"

section \<open>Operations\<close>

definition sub_getSensorsList :: "'w sub_hal \<Rightarrow> SensorInfo list" where
  "sub_getSensorsList st = map snd (mSensors st)"

definition setOperationModeLocked ::
  "OperationMode \<Rightarrow> 'w sub_hal \<Rightarrow> 'w \<Rightarrow> (Result \<times> 'w sub_hal \<times> 'w) option" where
  "setOperationModeLocked mode st w =
     (if \<not> isReady st then Some (INVALID_OPERATION, st, w)
      else if mode = mCurrentOperationMode st then Some (OK, st, w)
      else if getHalDeviceVersion st < SENSORS_DEVICE_API_VERSION_1_4 then Some (INVALID_OPERATION, st, w)
      else do {
        md \<leftarrow> mSensorModule st;
        case lm_set_operation_mode md of None \<Rightarrow> Some (INVALID_OPERATION, st, w)
        | Some f \<Rightarrow>
            let (status, w) = f mode w in
            Some (resultFromStatus status, if status = 0 then st\<lparr>mCurrentOperationMode := mode\<rparr> else st, w)
      })"

definition sub_activate ::
  "'w platform \<Rightarrow> int \<Rightarrow> bool \<Rightarrow> 'w sub_hal \<Rightarrow> 'w \<Rightarrow> (Result \<times> 'w sub_hal \<times> 'w) option" where
  "sub_activate p handle enabled st w =
     (if \<not> isReady st then Some (INVALID_OPERATION, st, w)
      else if \<not> has (mSensors st) handle then Some (BAD_VALUE, st, w)
      else if enabled \<and> mCallback st = None then Some (INVALID_OPERATION, st, w)
      else do {
        d \<leftarrow> mSensorDevice st;
        f \<leftarrow> ld_activate d;
        let (status, w) = f handle enabled w;
        let (st, w) =
          (if status \<noteq> 0 then (st, w)
           else if enabled then
             let (now, w) = elapsedRealtimeNano p w in (st\<lparr>mActiveSince := emplace handle now (mActiveSince st)\<rparr>, w)
           else (st\<lparr>mActiveSince := erase handle (mActiveSince st)\<rparr>, w));
        Some (resultFromStatus status, st, w)
      })"

definition sub_batch ::
  "int \<Rightarrow> int \<Rightarrow> int \<Rightarrow> 'w sub_hal \<Rightarrow> 'w \<Rightarrow> (Result \<times> 'w sub_hal \<times> 'w) option" where
  "sub_batch handle period latency st w =
     (if \<not> isReady st then Some (INVALID_OPERATION, st, w)
      else if \<not> has (mSensors st) handle \<or> period < 0 \<or> latency < 0 then Some (BAD_VALUE, st, w)
      else do {
        d \<leftarrow> mSensorDevice st;
        f \<leftarrow> ld_batch d;
        let (status, w) = f handle 0 period latency w;
        Some (resultFromStatus status, st, w)
      })"

definition sub_flush :: "int \<Rightarrow> 'w sub_hal \<Rightarrow> 'w \<Rightarrow> (Result \<times> 'w sub_hal \<times> 'w) option" where
  "sub_flush handle st w =
     (if \<not> isReady st then Some (INVALID_OPERATION, st, w)
      else if \<not> has (mActiveSince st) handle then Some (BAD_VALUE, st, w)
      else do {
        d \<leftarrow> mSensorDevice st;
        f \<leftarrow> ld_flush d;
        let (status, w) = f handle w;
        Some (resultFromStatus status, st, w)
      })"

definition sub_injectSensorData ::
  "'w platform \<Rightarrow> Event \<Rightarrow> 'w sub_hal \<Rightarrow> 'w \<Rightarrow> (Result \<times> 'w sub_hal \<times> 'w) option" where
  "sub_injectSensorData p event st w =
     (if \<not> isReady st \<or> getHalDeviceVersion st < SENSORS_DEVICE_API_VERSION_1_4 then Some (INVALID_OPERATION, st, w)
      else do {
        d \<leftarrow> mSensorDevice st;
        case ld_inject_sensor_data d of None \<Rightarrow> Some (INVALID_OPERATION, st, w)
        | Some f \<Rightarrow>
            if \<not> has (mSensors st) (ev_handle event) then Some (BAD_VALUE, st, w)
            else let (status, w) = f (convertToSensorEvent p event) w in Some (resultFromStatus status, st, w)
      })"

definition supportsDirectChannels :: "'w sub_hal \<Rightarrow> bool" where
  "supportsDirectChannels st \<longleftrightarrow>
     isReady st \<and> getHalDeviceVersion st \<ge> SENSORS_DEVICE_API_VERSION_1_4 \<and>
     (case mSensorDevice st of None \<Rightarrow> False
      | Some d \<Rightarrow> ld_register_direct_channel d \<noteq> None \<and> ld_config_direct_report d \<noteq> None)"

text \<open>The two operations that answer through a callback return what they pass to it.\<close>

definition sub_registerDirectChannel ::
  "'w platform \<Rightarrow> bytes \<Rightarrow> 'w sub_hal \<Rightarrow> 'w \<Rightarrow> ((Result \<times> int) \<times> 'w sub_hal \<times> 'w) option" where
  "sub_registerDirectChannel p shm st w =
     (if \<not> supportsDirectChannels st then Some ((INVALID_OPERATION, - 1), st, w)
      else case convertFromSharedMemInfo p shm of None \<Rightarrow> Some ((BAD_VALUE, - 1), st, w)
      | Some out \<Rightarrow> do {
          d \<leftarrow> mSensorDevice st;
          f \<leftarrow> ld_register_direct_channel d;
          let (channel, w) = f (Some out) (- 1) w;
          let st = (if channel > 0 then st\<lparr>mDirectChannels := emplace channel () (mDirectChannels st)\<rparr> else st);
          Some (if channel > 0 then (OK, channel)
                else (resultFromStatus (if channel \<noteq> 0 then channel else - EINVAL), - 1), st, w)
        })"

definition sub_unregisterDirectChannel ::
  "int \<Rightarrow> 'w sub_hal \<Rightarrow> 'w \<Rightarrow> (Result \<times> 'w sub_hal \<times> 'w) option" where
  "sub_unregisterDirectChannel channel st w =
     (if \<not> supportsDirectChannels st then Some (INVALID_OPERATION, st, w)
      else if \<not> has (mDirectChannels st) channel then Some (BAD_VALUE, st, w)
      else do {
        d \<leftarrow> mSensorDevice st;
        f \<leftarrow> ld_register_direct_channel d;
        let (status, w) = f None channel w;
        Some (resultFromStatus status,
              if status = 0 then st\<lparr>mDirectChannels := erase channel (mDirectChannels st)\<rparr> else st, w)
      })"

definition sub_configDirectReport ::
  "'w platform \<Rightarrow> int \<Rightarrow> int \<Rightarrow> RateLevel \<Rightarrow> 'w sub_hal \<Rightarrow> 'w \<Rightarrow> ((Result \<times> int) \<times> 'w sub_hal \<times> 'w) option" where
  "sub_configDirectReport p handle channel rate st w =
     (if \<not> supportsDirectChannels st then Some ((INVALID_OPERATION, - 1), st, w)
      else let rate_level = convertFromRateLevel p rate in
        if rate_level < 0 \<or> \<not> has (mDirectChannels st) channel \<or>
          \<not> has (mSensors st) handle \<and> \<not> (handle = - 1 \<and> rate = STOP) then Some ((BAD_VALUE, - 1), st, w)
        else do {
          d \<leftarrow> mSensorDevice st;
          f \<leftarrow> ld_config_direct_report d;
          let (result, w) = f handle channel rate_level w;
          Some (if rate = STOP then (resultFromStatus result, - 1)
                else (if result > 0 then OK else resultFromStatus (if result \<noteq> 0 then result else - EINVAL), result), st, w)
        })"

text \<open>
  The two loops of \<open>initialize\<close>: over the active sensors and over the direct channels. Both go through the map in
  order, keep the entries the device does not release, and remember the last failure.
\<close>

fun release_entries ::
  "(int \<Rightarrow> 'w \<Rightarrow> int \<times> 'w) \<Rightarrow> (int, 'v) omap \<Rightarrow> Result \<Rightarrow> 'w \<Rightarrow> Result \<times> (int, 'v) omap \<times> 'w" where
  "release_entries f [] result w = (result, [], w)"
| "release_entries f ((k, v) # m) result w =
     (let (status, w) = f k w in
      if status \<noteq> 0 then let (result, m, w) = release_entries f m (resultFromStatus status) w in (result, (k, v) # m, w)
      else release_entries f m result w)"

definition sub_initialize ::
  "nat option \<Rightarrow> 'w sub_hal \<Rightarrow> 'w \<Rightarrow> (Result \<times> 'w sub_hal \<times> 'w) option" where
  "sub_initialize callback st w =
     (if \<not> isReady st then Some (INVALID_OPERATION, st, w)
      else case callback of None \<Rightarrow> Some (BAD_VALUE, st, w)
      | Some c \<Rightarrow> do {
          let st = st\<lparr>mEpoch := mEpoch st + 1, mCallback := None\<rparr>;
          f \<leftarrow> (if mActiveSince st = [] then Some (\<lambda>h w. (0, w))
               else do {d \<leftarrow> mSensorDevice st; f \<leftarrow> ld_activate d; Some (\<lambda>h. f h False)});
          let (result, active, w) = release_entries f (mActiveSince st) OK w;
          let st = st\<lparr>mActiveSince := active\<rparr>;
          g \<leftarrow> (if mDirectChannels st = [] then Some (\<lambda>c w. (0, w))
               else do {d \<leftarrow> mSensorDevice st; f \<leftarrow> ld_register_direct_channel d; Some (f None)});
          let (result, channels, w) = release_entries g (mDirectChannels st) result w;
          let st = st\<lparr>mDirectChannels := channels\<rparr>;
          (modeResult, st, w) \<leftarrow> setOperationModeLocked NORMAL st w;
          let result = (if modeResult \<noteq> OK then modeResult else result);
          if result \<noteq> OK then Some (result, st, w)
          else Some (OK, st\<lparr>mCallback := Some c, mPollThread := True\<rparr>, w)
        })"

section \<open>The poll thread\<close>

definition retryDelayMs :: "nat \<Rightarrow> nat" where
  "retryDelayMs failures = (if failures \<ge> 7 then 1000 else 20 * 2 ^ (if failures \<noteq> 0 then failures - 1 else 0))"

definition belongsToSession :: "64 word \<Rightarrow> 64 word \<Rightarrow> int \<Rightarrow> int \<Rightarrow> bool" where
  "belongsToSession pollEpoch currentEpoch timestamp activatedAt \<longleftrightarrow>
     pollEpoch = currentEpoch \<and> timestamp \<ge> activatedAt"

text \<open>The loop over the entries of a batch, with the events and the wake-up flag so far.\<close>

fun accept_entries ::
  "'w platform \<Rightarrow> 'w sub_hal \<Rightarrow> 64 word \<Rightarrow> bytes list \<Rightarrow> nat list \<Rightarrow> Event list \<Rightarrow> bool \<Rightarrow> (Event list \<times> bool) option" where
  "accept_entries p st epoch data [] events wakeup = Some (events, wakeup)"
| "accept_entries p st epoch data (i # is) events wakeup = do {
     raw \<leftarrow> rd data i;
     let event = convertFromSensorEvent p raw;
     case map_of (mActiveSince st) (ev_handle event) of
       None \<Rightarrow> accept_entries p st epoch data is events wakeup
     | Some since \<Rightarrow>
         if \<not> has (mSensors st) (ev_handle event) then accept_entries p st epoch data is events wakeup
         else if ev_type event \<noteq> META_DATA \<and> \<not> belongsToSession epoch (mEpoch st) (ev_timestamp event) since
         then accept_entries p st epoch data is events wakeup
         else accept_entries p st epoch data is (events @ [event]) (wakeup \<or> isWakeUpSensor st (ev_handle event))
   }"

text \<open>
  One round of \<open>pollForEvents\<close> from the return of \<open>poll\<close> on: the count of failures, for how many milliseconds the
  thread sleeps, and what it posts, with the argument of \<open>createScopedWakelock\<close>.
\<close>

definition poll_return ::
  "'w platform \<Rightarrow> 'w sub_hal \<Rightarrow> 64 word \<Rightarrow> nat \<Rightarrow> int \<Rightarrow> bytes list
     \<Rightarrow> (nat \<times> nat option \<times> (bool \<times> Event list) option) option" where
  "poll_return p st epoch failures n data =
     (if n = - EINTR then Some (failures, None, None)
      else if n \<le> 0 \<or> n > kPollMaxBufferSize then
        let failures = (if failures < 31 then failures + 1 else failures) in
        Some (failures, Some (retryDelayMs failures), None)
      else if mCallback st = None \<or> epoch \<noteq> mEpoch st then Some (0, None, None)
      else do {
        (events, wakeup) \<leftarrow> accept_entries p st epoch data [0..<nat n] [] False;
        Some (0, None, if events = [] then None else Some (wakeup, events))
      })"

section \<open>The invariant\<close>

text \<open>
  A ready sub-HAL has a device with the operations the constructor checked; every active sensor is known, and direct
  channels are open only on a device that has them. The maps are in order, and a sensor stands under its own handle.
\<close>

definition equipped :: "'w sub_hal \<Rightarrow> bool" where
  "equipped st \<longleftrightarrow> (case (mSensorModule st, mSensorDevice st) of
     (Some md, Some d) \<Rightarrow> lm_get_sensors_list md \<noteq> None \<and> ld_poll d \<and> ld_activate d \<noteq> None \<and> ld_batch d \<noteq> None \<and>
       ld_flush d \<noteq> None \<and> ld_version d \<ge> SENSORS_DEVICE_API_VERSION_1_3
   | _ \<Rightarrow> False)"

definition sub_inv :: "'w sub_hal \<Rightarrow> bool" where
  "sub_inv st \<longleftrightarrow>
     ordered (mSensors st) \<and> ordered (mActiveSince st) \<and> ordered (mDirectChannels st) \<and>
     (\<forall>(h, s) \<in> set (mSensors st). sensorHandle s = h) \<and>
     (\<forall>h. has (mActiveSince st) h \<longrightarrow> has (mSensors st) h) \<and>
     (\<forall>c. has (mDirectChannels st) c \<longrightarrow> 0 < c) \<and>
     (mDirectChannels st \<noteq> [] \<longrightarrow> supportsDirectChannels st) \<and>
     (isReady st \<longrightarrow> equipped st) \<and>
     (mCallback st \<noteq> None \<longrightarrow> isReady st \<and> mPollThread st)"

text \<open>The device and the status do not change after the constructor.\<close>

lemma isReady_update [simp]:
  "isReady (st\<lparr>mActiveSince := m\<rparr>) = isReady st"
  "isReady (st\<lparr>mDirectChannels := c\<rparr>) = isReady st"
  "isReady (st\<lparr>mCurrentOperationMode := mode\<rparr>) = isReady st"
  "isReady (st\<lparr>mEpoch := e\<rparr>) = isReady st"
  "isReady (st\<lparr>mCallback := cb\<rparr>) = isReady st"
  "isReady (st\<lparr>mPollThread := t\<rparr>) = isReady st"
  by (simp_all add: isReady_def)

lemma equipped_update [simp]:
  "equipped (st\<lparr>mActiveSince := m\<rparr>) = equipped st"
  "equipped (st\<lparr>mDirectChannels := c\<rparr>) = equipped st"
  "equipped (st\<lparr>mCurrentOperationMode := mode\<rparr>) = equipped st"
  "equipped (st\<lparr>mEpoch := e\<rparr>) = equipped st"
  "equipped (st\<lparr>mCallback := cb\<rparr>) = equipped st"
  "equipped (st\<lparr>mPollThread := t\<rparr>) = equipped st"
  by (simp_all add: equipped_def)

lemma supportsDirectChannels_update [simp]:
  "supportsDirectChannels (st\<lparr>mActiveSince := m\<rparr>) = supportsDirectChannels st"
  "supportsDirectChannels (st\<lparr>mDirectChannels := c\<rparr>) = supportsDirectChannels st"
  "supportsDirectChannels (st\<lparr>mCurrentOperationMode := mode\<rparr>) = supportsDirectChannels st"
  "supportsDirectChannels (st\<lparr>mEpoch := e\<rparr>) = supportsDirectChannels st"
  "supportsDirectChannels (st\<lparr>mCallback := cb\<rparr>) = supportsDirectChannels st"
  "supportsDirectChannels (st\<lparr>mPollThread := t\<rparr>) = supportsDirectChannels st"
  by (simp_all add: supportsDirectChannels_def isReady_def getHalDeviceVersion_def)

lemma getHalDeviceVersion_update [simp]:
  "getHalDeviceVersion (st\<lparr>mActiveSince := m\<rparr>) = getHalDeviceVersion st"
  "getHalDeviceVersion (st\<lparr>mDirectChannels := c\<rparr>) = getHalDeviceVersion st"
  "getHalDeviceVersion (st\<lparr>mCurrentOperationMode := mode\<rparr>) = getHalDeviceVersion st"
  "getHalDeviceVersion (st\<lparr>mEpoch := e\<rparr>) = getHalDeviceVersion st"
  "getHalDeviceVersion (st\<lparr>mCallback := cb\<rparr>) = getHalDeviceVersion st"
  "getHalDeviceVersion (st\<lparr>mPollThread := t\<rparr>) = getHalDeviceVersion st"
  by (simp_all add: getHalDeviceVersion_def)

lemma equipped_device:
  assumes "sub_inv st" "isReady st"
  shows "\<exists>md d fa fb ff. mSensorModule st = Some md \<and> mSensorDevice st = Some d \<and> ld_activate d = Some fa \<and>
    ld_batch d = Some fb \<and> ld_flush d = Some ff"
proof -
  have "equipped st" using assms by (simp add: sub_inv_def)
  then show ?thesis by (auto simp: equipped_def split: option.splits)
qed

lemma direct_device:
  "supportsDirectChannels st \<Longrightarrow> \<exists>d fr fc. mSensorDevice st = Some d \<and> ld_register_direct_channel d = Some fr \<and>
    ld_config_direct_report d = Some fc"
  by (auto simp: supportsDirectChannels_def split: option.splits)

lemma sub_invD:
  assumes "sub_inv st"
  shows "ordered (mSensors st)" "ordered (mActiveSince st)" "ordered (mDirectChannels st)"
    "\<And>h. has (mActiveSince st) h \<Longrightarrow> has (mSensors st) h" "\<And>c. has (mDirectChannels st) c \<Longrightarrow> 0 < c"
    "mDirectChannels st \<noteq> [] \<Longrightarrow> supportsDirectChannels st"
    "mCallback st = Some c \<Longrightarrow> isReady st \<and> mPollThread st"
  using assms by (simp_all add: sub_inv_def)

text \<open>What each kind of update needs to keep it.\<close>

lemma sub_inv_active:
  "sub_inv st \<Longrightarrow> ordered m \<Longrightarrow> (\<And>h. has m h \<Longrightarrow> has (mSensors st) h) \<Longrightarrow> sub_inv (st\<lparr>mActiveSince := m\<rparr>)"
  by (simp add: sub_inv_def)

lemma sub_inv_channels:
  "sub_inv st \<Longrightarrow> ordered m \<Longrightarrow> (\<And>c. has m c \<Longrightarrow> 0 < c) \<Longrightarrow> (m \<noteq> [] \<Longrightarrow> supportsDirectChannels st)
     \<Longrightarrow> sub_inv (st\<lparr>mDirectChannels := m\<rparr>)"
  by (simp add: sub_inv_def)

lemma sub_inv_mode: "sub_inv st \<Longrightarrow> sub_inv (st\<lparr>mCurrentOperationMode := mode\<rparr>)"
  by (simp add: sub_inv_def)

lemma sub_inv_session: "sub_inv st \<Longrightarrow> sub_inv (st\<lparr>mEpoch := e, mCallback := None\<rparr>)"
  by (simp add: sub_inv_def)

lemma sub_inv_callback: "sub_inv st \<Longrightarrow> isReady st \<Longrightarrow> sub_inv (st\<lparr>mCallback := Some c, mPollThread := True\<rparr>)"
  by (simp add: sub_inv_def)

lemma resultFromStatus_OK [simp]: "resultFromStatus status = OK \<longleftrightarrow> status = 0"
  by (simp add: resultFromStatus_def)

section \<open>Every operation is defined and keeps it\<close>

datatype sub_call = Set_Mode OperationMode | Activate int bool | Batch int int int | Flush int | Inject Event
  | Register bytes | Unregister int | Config int int RateLevel | Initialize "nat option"

fun run_sub ::
  "'w platform \<Rightarrow> sub_call \<Rightarrow> 'w sub_hal \<Rightarrow> 'w \<Rightarrow> (Result \<times> 'w sub_hal \<times> 'w) option" where
  "run_sub p (Set_Mode mode) st w = setOperationModeLocked mode st w"
| "run_sub p (Activate handle enabled) st w = sub_activate p handle enabled st w"
| "run_sub p (Batch handle period latency) st w = sub_batch handle period latency st w"
| "run_sub p (Flush handle) st w = sub_flush handle st w"
| "run_sub p (Inject event) st w = sub_injectSensorData p event st w"
| "run_sub p (Register shm) st w = map_option (apfst fst) (sub_registerDirectChannel p shm st w)"
| "run_sub p (Unregister channel) st w = sub_unregisterDirectChannel channel st w"
| "run_sub p (Config handle channel rate) st w = map_option (apfst fst) (sub_configDirectReport p handle channel rate st w)"
| "run_sub p (Initialize callback) st w = sub_initialize callback st w"

lemma setOperationModeLocked_ok:
  assumes inv: "sub_inv st"
  shows "\<exists>r st' w'. setOperationModeLocked mode st w = Some (r, st', w') \<and> sub_inv st' \<and>
    (st' = st \<or> st' = st\<lparr>mCurrentOperationMode := mode\<rparr>) \<and> (r = OK \<longrightarrow> mCurrentOperationMode st' = mode)"
proof (cases "isReady st")
  case True
  then obtain md where "mSensorModule st = Some md" using equipped_device [OF inv] by blast
  then show ?thesis
    using inv sub_inv_mode [OF inv, of mode]
    by (auto simp: setOperationModeLocked_def split: option.split prod.split)
qed (use inv in \<open>simp add: setOperationModeLocked_def\<close>)

lemma sub_activate_ok:
  assumes inv: "sub_inv st"
  shows "\<exists>r st' w'. sub_activate p handle enabled st w = Some (r, st', w') \<and> sub_inv st'"
proof (cases "isReady st \<and> has (mSensors st) handle \<and> (enabled \<longrightarrow> mCallback st \<noteq> None)")
  case True
  then obtain d f where d: "mSensorDevice st = Some d" "ld_activate d = Some f" using equipped_device [OF inv] by blast
  note ordered = sub_invD(2) [OF inv] and active = sub_invD(4) [OF inv]
  have "sub_inv (st\<lparr>mActiveSince := emplace handle t (mActiveSince st)\<rparr>)" for t
    using True active by (intro sub_inv_active inv ordered_emplace ordered) (auto simp: has_emplace ordered)
  moreover have "sub_inv (st\<lparr>mActiveSince := erase handle (mActiveSince st)\<rparr>)"
    using active by (intro sub_inv_active inv ordered_erase ordered) (auto simp: has_erase)
  ultimately show ?thesis
    using True d inv by (auto simp: sub_activate_def split: prod.split)
qed (use inv in \<open>auto simp: sub_activate_def\<close>)

lemma sub_batch_ok: "sub_inv st \<Longrightarrow> \<exists>r w'. sub_batch handle period latency st w = Some (r, st, w')"
  using equipped_device [of st] by (cases "isReady st") (auto simp: sub_batch_def split: prod.split)

lemma sub_flush_ok: "sub_inv st \<Longrightarrow> \<exists>r w'. sub_flush handle st w = Some (r, st, w')"
  using equipped_device [of st] by (cases "isReady st") (auto simp: sub_flush_def split: prod.split)

lemma sub_injectSensorData_ok: "sub_inv st \<Longrightarrow> \<exists>r w'. sub_injectSensorData p event st w = Some (r, st, w')"
  using equipped_device [of st]
  by (cases "isReady st") (auto simp: sub_injectSensorData_def split: prod.split option.split)

lemma sub_configDirectReport_ok: "\<exists>r w'. sub_configDirectReport p handle channel rate st w = Some (r, st, w')"
  using direct_device [of st]
  by (cases "supportsDirectChannels st") (auto simp: sub_configDirectReport_def Let_def split: prod.split)

lemma sub_registerDirectChannel_ok:
  assumes inv: "sub_inv st"
  shows "\<exists>r st' w'. sub_registerDirectChannel p shm st w = Some (r, st', w') \<and> sub_inv st'"
proof (cases "supportsDirectChannels st \<and> convertFromSharedMemInfo p shm \<noteq> None")
  case True
  then obtain d f out where d: "mSensorDevice st = Some d" "ld_register_direct_channel d = Some f"
    "convertFromSharedMemInfo p shm = Some out" using direct_device by blast
  note ordered = sub_invD(3) [OF inv] and pos = sub_invD(5) [OF inv]
  have "sub_inv (st\<lparr>mDirectChannels := emplace c () (mDirectChannels st)\<rparr>)" if "0 < c" for c
    using that True pos by (intro sub_inv_channels inv ordered_emplace ordered) (auto simp: has_emplace ordered)
  then show ?thesis
    using inv True d by (cases "f (Some out) (- 1) w") (simp add: sub_registerDirectChannel_def)
qed (use inv in \<open>auto simp: sub_registerDirectChannel_def\<close>)

lemma sub_unregisterDirectChannel_ok:
  assumes inv: "sub_inv st"
  shows "\<exists>r st' w'. sub_unregisterDirectChannel channel st w = Some (r, st', w') \<and> sub_inv st'"
proof (cases "supportsDirectChannels st \<and> has (mDirectChannels st) channel")
  case True
  then obtain d f where d: "mSensorDevice st = Some d" "ld_register_direct_channel d = Some f"
    using direct_device by blast
  note ordered = sub_invD(3) [OF inv] and pos = sub_invD(5) [OF inv]
  have "sub_inv (st\<lparr>mDirectChannels := erase channel (mDirectChannels st)\<rparr>)"
    using True pos by (intro sub_inv_channels inv ordered_erase ordered) (auto simp: has_erase)
  then show ?thesis
    using inv True d by (cases "f None channel w") (simp add: sub_unregisterDirectChannel_def)
qed (use inv in \<open>auto simp: sub_unregisterDirectChannel_def\<close>)

text \<open>A release loop keeps a part of the map, and reports a failure exactly when it keeps something.\<close>

lemma release_entries_ok:
  "release_entries f m r w = (r', m', w') \<Longrightarrow> (if m' = [] then r' = r else r' \<noteq> OK) \<and> subseq m' m"
proof (induction m arbitrary: r w r' m' w')
  case (Cons x m)
  obtain k v status w1 where x: "x = (k, v)" and f: "f k w = (status, w1)" by fastforce
  obtain r2 m2 w2 where r2: "release_entries f m (if status \<noteq> 0 then resultFromStatus status else r) w1 = (r2, m2, w2)"
    by (metis prod_cases3)
  then have "(if m2 = [] then r2 = (if status \<noteq> 0 then resultFromStatus status else r) else r2 \<noteq> OK)" "subseq m2 m"
    using Cons.IH by blast+
  moreover have "(r', m', w') = (r2, if status \<noteq> 0 then x # m2 else m2, w2)"
    using Cons.prems r2 by (simp add: x f split: if_splits)
  ultimately show ?case by (auto split: if_splits)
qed simp

text \<open>
  What the device answers when it is asked for each key in turn, the entries it refuses, and the failure that is
  reported last.
\<close>

fun device_answers :: "(int \<Rightarrow> 'w \<Rightarrow> int \<times> 'w) \<Rightarrow> int list \<Rightarrow> 'w \<Rightarrow> int list \<times> 'w" where
  "device_answers f [] w = ([], w)"
| "device_answers f (k # ks) w = (let (status, w) = f k w; (rest, w) = device_answers f ks w in (status # rest, w))"

definition refused_entries :: "'e list \<Rightarrow> int list \<Rightarrow> 'e list" where
  "refused_entries es statuses = map fst (filter (\<lambda>(e, status). status \<noteq> 0) (zip es statuses))"

definition last_failure :: "Result \<Rightarrow> int list \<Rightarrow> Result" where
  "last_failure = foldl (\<lambda>r status. if status \<noteq> 0 then resultFromStatus status else r)"

lemma last_failure_append: "last_failure (last_failure r a) b = last_failure r (a @ b)"
  by (simp add: last_failure_def)

lemma last_failure_OK: "last_failure r statuses = OK \<longleftrightarrow> r = OK \<and> (\<forall>status \<in> set statuses. status = 0)"
  unfolding last_failure_def by (induction statuses arbitrary: r) auto

lemma refused_entries_empty: "length statuses = length es \<Longrightarrow> refused_entries es statuses = [] \<longleftrightarrow> (\<forall>status \<in> set statuses. status = 0)"
  unfolding refused_entries_def by (induction statuses es rule: list_induct2) auto

lemma subseq_refused: "length statuses = length es \<Longrightarrow> subseq (refused_entries es statuses) es"
  unfolding refused_entries_def by (induction statuses es rule: list_induct2) auto

lemma device_answers_length: "length (fst (device_answers f ks w)) = length ks"
  by (induction ks arbitrary: w) (simp_all add: case_prod_beta Let_def)

lemma release_entries_exact:
  "device_answers f (map fst m) w = (statuses, w') \<Longrightarrow>
     release_entries f m r w = (last_failure r statuses, refused_entries m statuses, w')"
proof (induction m arbitrary: r w statuses)
  case Nil
  then show ?case by (simp add: last_failure_def refused_entries_def)
next
  case (Cons x m)
  obtain k v status w1 where x: "x = (k, v)" and f: "f k w = (status, w1)" by fastforce
  obtain rest w2 where rest: "device_answers f (map fst m) w1 = (rest, w2)" by fastforce
  then have "statuses = status # rest" "w2 = w'" using Cons.prems by (simp_all add: x f)
  then show ?case using Cons.IH rest by (simp add: x f last_failure_def refused_entries_def)
qed

text \<open>The two requests of \<open>initialize\<close> to the device: stop a sensor, and close a direct channel.\<close>

definition device_stop :: "'w sub_hal \<Rightarrow> int \<Rightarrow> 'w \<Rightarrow> int \<times> 'w" where
  "device_stop st handle w = (case mSensorDevice st of Some d \<Rightarrow>
     (case ld_activate d of Some f \<Rightarrow> f handle False w | None \<Rightarrow> (0, w)) | None \<Rightarrow> (0, w))"

definition device_close :: "'w sub_hal \<Rightarrow> int \<Rightarrow> 'w \<Rightarrow> int \<times> 'w" where
  "device_close st channel w = (case mSensorDevice st of Some d \<Rightarrow>
     (case ld_register_direct_channel d of Some f \<Rightarrow> f None channel w | None \<Rightarrow> (0, w)) | None \<Rightarrow> (0, w))"

lemma setOperationModeLocked_maps:
  "setOperationModeLocked mode (st\<lparr>mEpoch := e, mCallback := cb, mActiveSince := a, mDirectChannels := c\<rparr>) w =
     map_option (\<lambda>(r, st', w'). (r, st'\<lparr>mEpoch := e, mCallback := cb, mActiveSince := a, mDirectChannels := c\<rparr>, w'))
       (setOperationModeLocked mode st w)"
  by (auto simp: setOperationModeLocked_def split: option.split prod.split Option.bind_split)

lemma sub_inv_active_part:
  assumes "sub_inv st" "subseq m (mActiveSince st)"
  shows "sub_inv (st\<lparr>mActiveSince := m\<rparr>)"
proof (rule sub_inv_active [OF assms(1)])
  show "ordered m" using ordered_subseq [OF assms(2)] sub_invD(2) [OF assms(1)] .
  show "has (mSensors st) h" if "has m h" for h using sub_invD(4) [OF assms(1) has_subseq [OF assms(2) that]] .
qed

lemma sub_inv_channels_part:
  assumes "sub_inv st" "subseq m (mDirectChannels st)"
  shows "sub_inv (st\<lparr>mDirectChannels := m\<rparr>)"
proof (rule sub_inv_channels [OF assms(1)])
  show "ordered m" using ordered_subseq [OF assms(2)] sub_invD(3) [OF assms(1)] .
  show "0 < c" if "has m c" for c using sub_invD(5) [OF assms(1) has_subseq [OF assms(2) that]] .
  show "supportsDirectChannels st" if "m \<noteq> []"
    using that assms(2) sub_invD(6) [OF assms(1)] by (cases "mDirectChannels st") auto
qed

lemma stop_entries:
  assumes "sub_inv st" "isReady st" "device_answers (device_stop st) (map fst (mActiveSince st)) w = (statuses, w')"
  shows "\<exists>f. (if mActiveSince st = [] then Some (\<lambda>h w. (0, w))
      else do {d \<leftarrow> mSensorDevice st; f \<leftarrow> ld_activate d; Some (\<lambda>h. f h False)}) = Some f \<and>
    release_entries f (mActiveSince st) r w = (last_failure r statuses, refused_entries (mActiveSince st) statuses, w')"
proof -
  obtain d f where d: "mSensorDevice st = Some d" "ld_activate d = Some f"
    using equipped_device [OF assms(1,2)] by blast
  then have "device_stop st = (\<lambda>h. f h False)" by (auto simp: device_stop_def fun_eq_iff)
  then show ?thesis
    using d release_entries_exact [OF assms(3)] by (cases "mActiveSince st = []") simp_all
qed

lemma close_entries:
  assumes "sub_inv st" "device_answers (device_close st) (map fst (mDirectChannels st)) w = (statuses, w')"
  shows "\<exists>f. (if mDirectChannels st = [] then Some (\<lambda>c w. (0, w))
      else do {d \<leftarrow> mSensorDevice st; f \<leftarrow> ld_register_direct_channel d; Some (f None)}) = Some f \<and>
    release_entries f (mDirectChannels st) r w = (last_failure r statuses, refused_entries (mDirectChannels st) statuses, w')"
proof (cases "mDirectChannels st = []")
  case True
  then show ?thesis using release_entries_exact [OF assms(2), of r] by simp
next
  case False
  then obtain d f where d: "mSensorDevice st = Some d" "ld_register_direct_channel d = Some f"
    using direct_device [OF sub_invD(6) [OF assms(1) False]] by blast
  then have "device_close st = f None" by (auto simp: device_close_def fun_eq_iff)
  then show ?thesis using d False release_entries_exact [OF assms(2), of r] by simp
qed

text \<open>
  What \<open>initialize\<close> does, exactly: the entries that stay are those the device refused to release, in both maps; the
  result is that of the mode change if it fails, and else the last refusal.
\<close>

definition initialized ::
  "'w sub_hal \<Rightarrow> 'w \<Rightarrow> Result \<Rightarrow> 'w sub_hal \<Rightarrow> 'w \<Rightarrow> bool" where
  "initialized st w r st' w' \<longleftrightarrow>
     (let (stops, w1) = device_answers (device_stop st) (map fst (mActiveSince st)) w;
          (closes, w2) = device_answers (device_close st) (map fst (mDirectChannels st)) w1 in
      mActiveSince st' = refused_entries (mActiveSince st) stops \<and> mDirectChannels st' = refused_entries (mDirectChannels st) closes \<and>
      (\<exists>mode st2. setOperationModeLocked NORMAL st w2 = Some (mode, st2, w') \<and>
         r = (if mode \<noteq> OK then mode else last_failure OK (stops @ closes))))"

lemma sub_initialize_run:
  assumes inv: "sub_inv st" and ready: "isReady st"
    and a: "device_answers (device_stop st) (map fst (mActiveSince st)) w = (stops, w1)"
    and b: "device_answers (device_close st) (map fst (mDirectChannels st)) w1 = (closes, w2)"
    and mode: "setOperationModeLocked NORMAL st w2 = Some (mr, st2, w')"
    and st3: "st3 = st2\<lparr>mEpoch := mEpoch st + 1, mCallback := None, mActiveSince := refused_entries (mActiveSince st) stops,
      mDirectChannels := refused_entries (mDirectChannels st) closes\<rparr>"
    and r: "r = (if mr \<noteq> OK then mr else last_failure OK (stops @ closes))"
  shows "sub_initialize (Some c) st w =
    Some (r, if r = OK then st3\<lparr>mCallback := Some c, mPollThread := True\<rparr> else st3, w')"
proof -
  define st1 where "st1 = st\<lparr>mEpoch := mEpoch st + 1, mCallback := None\<rparr>"
  have stop: "device_stop st1 = device_stop st" and close: "device_close st1 = device_close st"
    and maps: "mActiveSince st1 = mActiveSince st" "mDirectChannels st1 = mDirectChannels st"
    by (simp_all add: st1_def device_stop_def device_close_def fun_eq_iff)
  have inv1: "sub_inv st1" and ready1: "isReady st1" using sub_inv_session [OF inv] ready by (simp_all add: st1_def)
  obtain f where f: "(if mActiveSince st1 = [] then Some (\<lambda>h w. (0, w))
      else do {d \<leftarrow> mSensorDevice st1; f \<leftarrow> ld_activate d; Some (\<lambda>h. f h False)}) = Some f"
    "release_entries f (mActiveSince st1) OK w = (last_failure OK stops, refused_entries (mActiveSince st) stops, w1)"
    using stop_entries [OF inv1 ready1, of w stops w1 OK] a unfolding stop maps by blast
  obtain g where g: "(if mDirectChannels st1 = [] then Some (\<lambda>c w. (0, w))
      else do {d \<leftarrow> mSensorDevice st1; f \<leftarrow> ld_register_direct_channel d; Some (f None)}) = Some g"
    "release_entries g (mDirectChannels st1) (last_failure OK stops) w1 =
       (last_failure OK (stops @ closes), refused_entries (mDirectChannels st) closes, w2)"
    using close_entries [OF inv1, of w1 closes w2 "last_failure OK stops"] b
    unfolding close maps last_failure_append by blast
  have "setOperationModeLocked NORMAL (st1\<lparr>mActiveSince := refused_entries (mActiveSince st) stops,
      mDirectChannels := refused_entries (mDirectChannels st) closes\<rparr>) w2 = Some (mr, st3, w')"
    using mode setOperationModeLocked_maps [where st = st and mode = NORMAL] by (simp add: st1_def st3)
  then show ?thesis
    using ready f g r by (simp add: sub_initialize_def st1_def Let_def cong: if_cong)
qed

lemma sub_initialize_ok:
  assumes inv: "sub_inv st" and ready: "isReady st"
  shows "\<exists>r st' w'. sub_initialize (Some c) st w = Some (r, st', w') \<and> sub_inv st' \<and> initialized st w r st' w' \<and>
    mEpoch st' = mEpoch st + 1 \<and> mSensors st' = mSensors st \<and>
    subseq (mActiveSince st') (mActiveSince st) \<and> subseq (mDirectChannels st') (mDirectChannels st) \<and>
    (if r = OK then mCallback st' = Some c \<and> mPollThread st' \<and> mCurrentOperationMode st' = NORMAL \<and>
       mActiveSince st' = [] \<and> mDirectChannels st' = []
     else mCallback st' = None \<and> mPollThread st' = mPollThread st)"
proof -
  obtain stops w1 where a: "device_answers (device_stop st) (map fst (mActiveSince st)) w = (stops, w1)" by fastforce
  obtain closes w2 where b: "device_answers (device_close st) (map fst (mDirectChannels st)) w1 = (closes, w2)"
    by fastforce
  have len: "length stops = length (mActiveSince st)" "length closes = length (mDirectChannels st)"
    using a b device_answers_length [of "device_stop st" "map fst (mActiveSince st)" w]
      device_answers_length [of "device_close st" "map fst (mDirectChannels st)" w1] by simp_all
  note part = subseq_refused [OF len(1)] subseq_refused [OF len(2)]
  obtain mr st2 w' where mode: "setOperationModeLocked NORMAL st w2 = Some (mr, st2, w')" and inv2: "sub_inv st2"
    and st2: "st2 = st \<or> st2 = st\<lparr>mCurrentOperationMode := NORMAL\<rparr>" "mr = OK \<longrightarrow> mCurrentOperationMode st2 = NORMAL"
    using setOperationModeLocked_ok [OF inv] by blast
  define st3 where "st3 = st2\<lparr>mEpoch := mEpoch st + 1, mCallback := None,
    mActiveSince := refused_entries (mActiveSince st) stops, mDirectChannels := refused_entries (mDirectChannels st) closes\<rparr>"
  define r where "r = (if mr \<noteq> OK then mr else last_failure OK (stops @ closes))"
  have run: "sub_initialize (Some c) st w =
      Some (r, if r = OK then st3\<lparr>mCallback := Some c, mPollThread := True\<rparr> else st3, w')"
    using sub_initialize_run [OF inv ready a b mode st3_def r_def] .
  have fields: "mEpoch st3 = mEpoch st + 1" "mSensors st3 = mSensors st" "mCallback st3 = None"
    "mPollThread st3 = mPollThread st" "isReady st3" "mCurrentOperationMode st3 = mCurrentOperationMode st2"
    "mActiveSince st3 = refused_entries (mActiveSince st) stops" "mDirectChannels st3 = refused_entries (mDirectChannels st) closes"
    using st2(1) ready by (auto simp: st3_def)
  have "sub_inv st3"
    unfolding st3_def using part st2(1)
    by (intro sub_inv_channels_part sub_inv_active_part sub_inv_session inv2) auto
  moreover have "refused_entries (mActiveSince st) stops = [] \<and> refused_entries (mDirectChannels st) closes = [] \<and> mr = OK" if "r = OK"
    using that refused_entries_empty [OF len(1)] refused_entries_empty [OF len(2)] by (auto simp: r_def last_failure_OK split: if_splits)
  moreover have "initialized st w r st' w'" if "mActiveSince st' = mActiveSince st3" "mDirectChannels st' = mDirectChannels st3"
    for st' using that a b mode fields(7,8) by (simp add: initialized_def r_def)
  ultimately show ?thesis
    using run fields part sub_inv_callback [of st3] st2(2) by (cases "r = OK") simp_all
qed

end
