(* ===== verification/Sensors_Session.thy ===== *)
theory Sensors_Session
  imports Sensors_SubHal
begin

text \<open>
  The sub-HAL under its clients and its poll thread: the constructor, every operation, and the two halves of a round
  of \<open>pollForEvents\<close> as the steps of a transition system. \<open>mMutex\<close> makes each of them one step; \<open>poll\<close> itself
  runs between the two halves, without the mutex. Ghost fields count the sessions and record activations and posts.
\<close>

section \<open>Construction\<close>

text \<open>The list a legacy module returns has as many entries as its count says.\<close>

definition lists_ok :: "'w platform \<Rightarrow> bool" where
  "lists_ok p \<longleftrightarrow> (\<forall>w rc md w1 f w2 n l w3. hw_get_module p w = ((rc, Some md), w1) \<longrightarrow>
     lm_get_sensors_list md = Some f \<longrightarrow> f w2 = ((n, Some l), w3) \<longrightarrow> n \<le> int (length l))"

lemma enumerate_entries_ok:
  "(\<forall>i \<in> set is. i < length l) \<Longrightarrow> ordered m \<Longrightarrow> (\<forall>(h, s) \<in> set m. sensorHandle s = h) \<Longrightarrow>
     \<exists>m'. enumerate_entries p l is m = Some m' \<and> ordered m' \<and> (\<forall>(h, s) \<in> set m'. sensorHandle s = h)"
proof (induction p l "is" m rule: enumerate_entries.induct)
  case (2 p l i "is" m)
  let ?s = "convertFromSensor p (l ! i)"
  have own: "sensorHandle s = h" if "map_of m h = Some s" for h s
    using that "2.prems"(3) map_of_SomeD by fastforce
  have "\<forall>(h, s) \<in> set (emplace (sensorHandle ?s) ?s m). sensorHandle s = h"
    using own map_of_emplace [OF "2.prems"(2), of "sensorHandle ?s" ?s]
    by (auto simp: map_of_ordered [symmetric] ordered_emplace "2.prems"(2) split: if_splits)
  then show ?case using "2.IH" [of "l ! i" ?s] "2.prems" by (simp add: ordered_emplace Let_def)
qed simp

lemma sub_inv_fields: "sub_inv (sub_hal_fields\<lparr>mInitStatus := NO_INIT, mSensorModule := md, mSensorDevice := d\<rparr>)"
  by (simp add: sub_inv_def sub_hal_fields_def isReady_def)

definition unused :: "'w sub_hal \<Rightarrow> bool" where
  "unused st \<longleftrightarrow> mCallback st = None \<and> mActiveSince st = [] \<and> mDirectChannels st = [] \<and> mEpoch st = 0 \<and> \<not> mPollThread st"

lemma sub_inv_unused:
  "unused st \<Longrightarrow> ordered (mSensors st) \<Longrightarrow> (\<forall>(h, s) \<in> set (mSensors st). sensorHandle s = h) \<Longrightarrow>
     (isReady st \<longrightarrow> equipped st) \<Longrightarrow> sub_inv st"
  by (simp add: sub_inv_def unused_def)

lemma SensorsSubHal_ok:
  assumes "lists_ok p"
  shows "\<exists>st w'. SensorsSubHal p w = Some (st, w') \<and> sub_inv st \<and> unused st"
proof -
  obtain status module w1 where m: "hw_get_module p w = ((status, module), w1)" by (metis surj_pair)
  obtain status2 device w2 where d: "sensors_open_1 p w1 = ((status2, device), w2)" by (metis surj_pair)
  have fields: "unused sub_hal_fields" "mSensors sub_hal_fields = []" by (simp_all add: unused_def sub_hal_fields_def)
  show ?thesis
  proof (cases "status = 0 \<and> status2 = 0 \<and> (\<exists>md f dv. module = Some md \<and> lm_get_sensors_list md = Some f \<and>
      device = Some dv \<and> ld_version dv \<ge> SENSORS_DEVICE_API_VERSION_1_3 \<and> ld_poll dv \<and> ld_activate dv \<noteq> None \<and>
      ld_batch dv \<noteq> None \<and> ld_flush dv \<noteq> None)")
    case False
    then have "\<exists>st. SensorsSubHal p w = Some (st, if status \<noteq> 0 \<or> (case module of None \<Rightarrow> True
        | Some md \<Rightarrow> lm_get_sensors_list md = None) then w1 else w2) \<and>
      unused st \<and> mSensors st = [] \<and> \<not> isReady st"
      using m d
      by (auto simp: SensorsSubHal_def Let_def unused_def sub_hal_fields_def isReady_def getHalDeviceVersion_def
          split: option.splits)
    then show ?thesis using sub_inv_unused by fastforce
  next
    case True
    then obtain md f dv where md: "module = Some md" "lm_get_sensors_list md = Some f" and dv: "device = Some dv"
      "ld_version dv \<ge> SENSORS_DEVICE_API_VERSION_1_3" "ld_poll dv" "ld_activate dv \<noteq> None" "ld_batch dv \<noteq> None"
      "ld_flush dv \<noteq> None" and s: "status = 0" "status2 = 0" by blast
    obtain n l w3 where f: "f w2 = ((n, l), w3)" by (metis surj_pair)
    define st where "st = sub_hal_fields\<lparr>mInitStatus := 0, mSensorModule := module, mSensorDevice := device\<rparr>"
    have st: "unused st" "mSensors st = []" "equipped st"
      using md dv by (simp_all add: st_def unused_def sub_hal_fields_def equipped_def)
    have run: "SensorsSubHal p w = do {(status, st, w) \<leftarrow> enumerateSensors p st w2; Some (st\<lparr>mInitStatus := status\<rparr>, w)}"
      using m d md dv s by (auto simp: SensorsSubHal_def Let_def st_def getHalDeviceVersion_def sub_hal_fields_def)
    have eq: "enumerateSensors p st w2 = (case l of None \<Rightarrow> Some (NO_INIT, st, w3)
        | Some l \<Rightarrow> if n \<le> 0 then Some (NO_INIT, st, w3)
          else do {m \<leftarrow> enumerate_entries p l [0..<nat n] []; Some (0, st\<lparr>mSensors := m\<rparr>, w3)})"
      using md f st(2) by (simp add: enumerateSensors_def st_def split: option.split)
    show ?thesis
    proof (cases "l = None \<or> n \<le> 0")
      case True
      then have "enumerateSensors p st w2 = Some (NO_INIT, st, w3)" using eq by (auto split: option.splits)
      then show ?thesis
        using run st sub_inv_unused [of "st\<lparr>mInitStatus := NO_INIT\<rparr>"] by (simp add: unused_def isReady_def)
    next
      case False
      then obtain l' where l: "l = Some l'" "0 < n" by auto
      then have "n \<le> int (length l')" using assms m md f unfolding lists_ok_def by blast
      then have "\<forall>i \<in> set [0..<nat n]. i < length l'" by auto
      from enumerate_entries_ok [OF this, of "[]"] obtain m' where m': "enumerate_entries p l' [0..<nat n] [] = Some m'"
        "ordered m'" "\<forall>(h, s) \<in> set m'. sensorHandle s = h" by auto
      then have "SensorsSubHal p w = Some (st\<lparr>mSensors := m', mInitStatus := 0\<rparr>, w3)" using run eq l by simp
      moreover have "unused (st\<lparr>mSensors := m', mInitStatus := 0\<rparr>)" using st(1) by (simp add: unused_def)
      ultimately show ?thesis
        using st(3) m'(2,3) sub_inv_unused [of "st\<lparr>mSensors := m', mInitStatus := 0\<rparr>"] by (simp add: equipped_def)
    qed
  qed
qed


section \<open>What a round of the poll thread posts\<close>

text \<open>An event is posted when its sensor is known and active and it is not older than the activation.\<close>

definition accepted :: "'w sub_hal \<Rightarrow> 64 word \<Rightarrow> Event \<Rightarrow> bool" where
  "accepted st epoch e \<longleftrightarrow> (case map_of (mActiveSince st) (ev_handle e) of None \<Rightarrow> False
     | Some since \<Rightarrow> has (mSensors st) (ev_handle e) \<and>
         (ev_type e = META_DATA \<or> belongsToSession epoch (mEpoch st) (ev_timestamp e) since))"

lemma accept_entries_eq:
  assumes "\<forall>i \<in> set is. i < length data"
  shows "accept_entries p st epoch data is events wakeup =
    (let new = filter (accepted st epoch) (map (\<lambda>i. convertFromSensorEvent p (data ! i)) is) in
     Some (events @ new, wakeup \<or> (\<exists>e \<in> set new. isWakeUpSensor st (ev_handle e))))"
  using assms
proof (induction "is" arbitrary: events wakeup)
  case (Cons i "is")
  let ?e = "convertFromSensorEvent p (data ! i)"
  have "accept_entries p st epoch data (i # is) events wakeup =
      (if accepted st epoch ?e
       then accept_entries p st epoch data is (events @ [?e]) (wakeup \<or> isWakeUpSensor st (ev_handle ?e))
       else accept_entries p st epoch data is events wakeup)"
    using Cons.prems by (simp add: accepted_def Let_def split: option.split)
  then show ?case using Cons by (auto simp: Let_def)
qed simp

definition batch_events :: "'w platform \<Rightarrow> 'w sub_hal \<Rightarrow> 64 word \<Rightarrow> int \<Rightarrow> bytes list \<Rightarrow> Event list" where
  "batch_events p st epoch n data =
     filter (accepted st epoch) (map (convertFromSensorEvent p) (take (nat n) data))"

lemma poll_return_batch:
  assumes "0 < n" "n \<le> int (length data)" "n \<le> kPollMaxBufferSize" "mCallback st \<noteq> None"
  shows "poll_return p st (mEpoch st) failures n data = Some (0, None,
    (let new = batch_events p st (mEpoch st) n data in
     if new = [] then None else Some (\<exists>e \<in> set new. isWakeUpSensor st (ev_handle e), new)))"
proof -
  have "map (\<lambda>i. convertFromSensorEvent p (data ! i)) [0..<nat n] = map (convertFromSensorEvent p) (take (nat n) data)"
    using assms by (intro nth_equalityI) auto
  moreover have "\<forall>i \<in> set [0..<nat n]. i < length data" using assms by auto
  ultimately show ?thesis
    using assms by (simp add: poll_return_def accept_entries_eq batch_events_def Let_def del: upt_Suc)
qed

section \<open>The transition system\<close>

text \<open>The thread: not started; before a round, with its count of failures; or in \<open>poll\<close>, with the epoch it read.\<close>

datatype poll_thread = Unstarted | Before nat | Polling nat "64 word"

text \<open>
  \<open>g_inits\<close> counts the sessions begun; \<open>g_began\<close> is the session in which the current \<open>poll\<close> began; \<open>g_acts\<close> lists
  the successful activations with session, handle and time; \<open>g_posted\<close> lists the posts with the session in which
  their \<open>poll\<close> began, the session at the post, the wake-up flag and the events.
\<close>

record 'w session =
  hal :: "'w sub_hal"
  world :: 'w
  poller :: poll_thread
  g_inits :: nat
  g_began :: nat
  g_acts :: "(nat \<times> int \<times> int) list"
  g_posted :: "(nat \<times> nat \<times> bool \<times> Event list) list"

definition session0 :: "'w sub_hal \<Rightarrow> 'w \<Rightarrow> 'w session" where
  "session0 st w = \<lparr>hal = st, world = w, poller = Unstarted, g_inits = 0, g_began = 0, g_acts = [], g_posted = []\<rparr>"

fun new_acts :: "nat \<Rightarrow> sub_call \<Rightarrow> Result \<Rightarrow> 'w sub_hal \<Rightarrow> (nat \<times> int \<times> int) list" where
  "new_acts i (Activate h True) OK st = (case map_of (mActiveSince st) h of None \<Rightarrow> [] | Some t \<Rightarrow> [(i, h, t)])"
| "new_acts i c r st = []"

fun begins_session :: "sub_call \<Rightarrow> 'w sub_hal \<Rightarrow> bool" where
  "begins_session (Initialize (Some c)) st = isReady st"
| "begins_session c st = False"

definition client_step :: "'w platform \<Rightarrow> sub_call \<Rightarrow> 'w session \<Rightarrow> 'w session option" where
  "client_step p c s = do {
     (r, st, w) \<leftarrow> run_sub p c (hal s) (world s);
     Some (s\<lparr>hal := st, world := w,
       poller := (if mPollThread st \<and> poller s = Unstarted then Before 0 else poller s),
       g_inits := (if begins_session c (hal s) then Suc (g_inits s) else g_inits s),
       g_acts := g_acts s @ new_acts (g_inits s) c r st\<rparr>)
   }"

text \<open>
  A step: a client's call, a change outside, the thread reading the epoch, and the return of \<open>poll\<close> with a count and
  the array it filled.
\<close>

datatype 'w session_act = Client sub_call | Outside 'w | Poll_Begin | Poll_End int "bytes list"

fun session_do :: "'w platform \<Rightarrow> 'w session_act \<Rightarrow> 'w session \<Rightarrow> 'w session option" where
  "session_do p (Client c) s = client_step p c s"
| "session_do p (Outside w) s = Some (s\<lparr>world := w\<rparr>)"
| "session_do p Poll_Begin s = (case poller s of
     Before f \<Rightarrow> Some (s\<lparr>poller := Polling f (mEpoch (hal s)), g_began := g_inits s\<rparr>) | _ \<Rightarrow> None)"
| "session_do p (Poll_End n data) s = (case poller s of
     Polling f e \<Rightarrow>
       if length data \<noteq> nat kPollMaxBufferSize then None
       else do {
         (f, delay, post) \<leftarrow> poll_return p (hal s) e f n data;
         Some (s\<lparr>poller := Before f, g_posted := g_posted s @
           (case post of None \<Rightarrow> [] | Some (wakeup, events) \<Rightarrow> [(g_began s, g_inits s, wakeup, events)])\<rparr>)
       }
   | _ \<Rightarrow> None)"

inductive session_reach :: "'w platform \<Rightarrow> 'w session \<Rightarrow> bool" for p where
  start: "SensorsSubHal p w = Some (st, w') \<Longrightarrow> session_reach p (session0 st w')"
| step: "session_reach p s \<Longrightarrow> session_do p a s = Some s' \<Longrightarrow> session_reach p s'"

fun session_run :: "'w platform \<Rightarrow> 'w session_act list \<Rightarrow> 'w session \<Rightarrow> 'w session option" where
  "session_run p [] s = Some s"
| "session_run p (a # as) s = do {s \<leftarrow> session_do p a s; session_run p as s}"

lemma session_run_reach: "session_reach p s \<Longrightarrow> session_run p as s = Some s' \<Longrightarrow> session_reach p s'"
  by (induction as arbitrary: s) (auto intro: session_reach.step split: Option.bind_splits)

section \<open>The invariant\<close>

text \<open>What an operation does to the session and to the active sensors.\<close>

definition sub_effect :: "sub_call \<Rightarrow> 'w sub_hal \<Rightarrow> Result \<Rightarrow> 'w sub_hal \<Rightarrow> bool" where
  "sub_effect c st r st' \<longleftrightarrow> sub_inv st' \<and> mSensors st' = mSensors st \<and>
     (if begins_session c st then mEpoch st' = mEpoch st + 1 \<and> (mCallback st' \<noteq> None \<longrightarrow> mActiveSince st' = [])
      else mEpoch st' = mEpoch st \<and> mCallback st' = mCallback st \<and>
        (\<forall>h t. map_of (mActiveSince st') h = Some t \<longrightarrow>
           map_of (mActiveSince st) h = Some t \<or> c = Activate h True \<and> r = OK))"

lemma sub_effect_same: "sub_inv st \<Longrightarrow> \<not> begins_session c st \<Longrightarrow> sub_effect c st r st"
  by (simp add: sub_effect_def)

lemma sub_effect_activate:
  assumes inv: "sub_inv st"
  shows "\<exists>r st' w'. run_sub p (Activate h on) st w = Some (r, st', w') \<and> sub_effect (Activate h on) st r st'"
proof -
  obtain r st' w' where run: "sub_activate p h on st w = Some (r, st', w')" and inv': "sub_inv st'"
    using sub_activate_ok [OF inv] by blast
  have "mSensors st' = mSensors st \<and> mEpoch st' = mEpoch st \<and> mCallback st' = mCallback st \<and>
      (mActiveSince st' = mActiveSince st \<or> mActiveSince st' = erase h (mActiveSince st) \<or>
       on \<and> r = OK \<and> (\<exists>t. mActiveSince st' = emplace h t (mActiveSince st)))"
    using run by (auto simp: sub_activate_def Let_def split: if_splits Option.bind_splits prod.splits)
  then have "sub_effect (Activate h on) st r st'"
    using inv' map_of_emplace [OF sub_invD(2) [OF inv]] by (auto simp: sub_effect_def map_of_erase split: if_splits)
  then show ?thesis using run by simp
qed

lemma sub_effect_initialize:
  assumes inv: "sub_inv st"
  shows "\<exists>r st' w'. run_sub p (Initialize cb) st w = Some (r, st', w') \<and> sub_effect (Initialize cb) st r st'"
proof (cases "isReady st \<and> cb \<noteq> None")
  case True
  then obtain c where c: "cb = Some c" and ready: "isReady st" by auto
  from sub_initialize_ok [OF inv ready, of c w] obtain r st' w' where
    run: "sub_initialize (Some c) st w = Some (r, st', w')" and *: "sub_inv st'" "mEpoch st' = mEpoch st + 1"
    "mSensors st' = mSensors st" "if r = OK then mCallback st' = Some c \<and> mPollThread st' \<and>
       mCurrentOperationMode st' = NORMAL \<and> mActiveSince st' = [] \<and> mDirectChannels st' = []
     else mCallback st' = None \<and> mPollThread st' = mPollThread st" by blast
  have "sub_effect (Initialize cb) st r st'" using * ready c by (auto simp: sub_effect_def split: if_splits)
  then show ?thesis using run c by simp
next
  case False
  then show ?thesis using sub_effect_same [OF inv] by (cases cb) (auto simp: sub_initialize_def)
qed

lemma run_sub_effect:
  assumes inv: "sub_inv st"
  shows "\<exists>r st' w'. run_sub p c st w = Some (r, st', w') \<and> sub_effect c st r st'"
proof (cases c)
  case (Set_Mode mode)
  from setOperationModeLocked_ok [OF inv] obtain r st' w' where run: "setOperationModeLocked mode st w = Some (r, st', w')"
    and *: "sub_inv st'" "st' = st \<or> st' = st\<lparr>mCurrentOperationMode := mode\<rparr>" by blast
  from *(2) have "sub_effect c st r st'" using *(1) by (auto simp: sub_effect_def Set_Mode)
  then show ?thesis using run by (simp add: Set_Mode)
next
  case (Register shm)
  from sub_registerDirectChannel_ok [OF inv] obtain r st' w' where
    run: "sub_registerDirectChannel p shm st w = Some (r, st', w')" and *: "sub_inv st'" by blast
  have "sub_effect c st (fst r) st'"
    using run * by (auto simp: sub_registerDirectChannel_def sub_effect_def Register Let_def
        split: if_splits option.splits Option.bind_splits prod.splits)
  then show ?thesis using run by (simp add: Register)
next
  case (Unregister channel)
  from sub_unregisterDirectChannel_ok [OF inv] obtain r st' w' where
    run: "sub_unregisterDirectChannel channel st w = Some (r, st', w')" and *: "sub_inv st'" by blast
  have "sub_effect c st r st'"
    using run * by (auto simp: sub_unregisterDirectChannel_def sub_effect_def Unregister Let_def
        split: if_splits option.splits Option.bind_splits prod.splits)
  then show ?thesis using run by (simp add: Unregister)
next
  case (Batch h period latency)
  then show ?thesis using sub_batch_ok [OF inv] sub_effect_same [OF inv] by fastforce
next
  case (Flush h)
  then show ?thesis using sub_flush_ok [OF inv] sub_effect_same [OF inv] by fastforce
next
  case (Inject e)
  then show ?thesis using sub_injectSensorData_ok [OF inv] sub_effect_same [OF inv] by fastforce
next
  case (Config h channel rate)
  then show ?thesis using sub_configDirectReport_ok [of p h channel rate st w] sub_effect_same [OF inv] by fastforce
next
  case (Activate h on)
  then show ?thesis using sub_effect_activate [OF inv] by simp
next
  case (Initialize cb)
  then show ?thesis using sub_effect_initialize [OF inv] by simp
qed

text \<open>
  A post is right: its \<open>poll\<close> began in the session of the post, the flag says whether a wake-up sensor is among its
  events, and each event is of a known sensor that this session activated, and not older than that unless metadata.
\<close>

definition post_ok :: "'w sub_hal \<Rightarrow> (nat \<times> int \<times> int) list \<Rightarrow> nat \<times> nat \<times> bool \<times> Event list \<Rightarrow> bool" where
  "post_ok st acts x \<longleftrightarrow> (case x of (began, cur, wakeup, events) \<Rightarrow>
     began = cur \<and> events \<noteq> [] \<and> (wakeup \<longleftrightarrow> (\<exists>e \<in> set events. isWakeUpSensor st (ev_handle e))) \<and>
     (\<forall>e \<in> set events. has (mSensors st) (ev_handle e) \<and>
        (\<exists>t. (cur, ev_handle e, t) \<in> set acts \<and> (ev_type e = META_DATA \<or> t \<le> ev_timestamp e))))"

definition session_inv :: "'w session \<Rightarrow> bool" where
  "session_inv s \<longleftrightarrow> sub_inv (hal s) \<and> mEpoch (hal s) = of_nat (g_inits s) \<and>
     (\<forall>f e. poller s = Polling f e \<longrightarrow> e = of_nat (g_began s) \<and> g_began s \<le> g_inits s) \<and>
     (mCallback (hal s) \<noteq> None \<longrightarrow>
        (\<forall>h t. map_of (mActiveSince (hal s)) h = Some t \<longrightarrow> (g_inits s, h, t) \<in> set (g_acts s))) \<and>
     (g_inits s < 2 ^ 64 \<longrightarrow> (\<forall>x \<in> set (g_posted s). post_ok (hal s) (g_acts s) x))"

lemma session_invD:
  assumes "session_inv s"
  shows "sub_inv (hal s)" "mEpoch (hal s) = of_nat (g_inits s)"
    "poller s = Polling f e \<Longrightarrow> e = of_nat (g_began s) \<and> g_began s \<le> g_inits s"
    "mCallback (hal s) \<noteq> None \<Longrightarrow> map_of (mActiveSince (hal s)) h = Some t \<Longrightarrow> (g_inits s, h, t) \<in> set (g_acts s)"
    "g_inits s < 2 ^ 64 \<Longrightarrow> x \<in> set (g_posted s) \<Longrightarrow> post_ok (hal s) (g_acts s) x"
  using assms by (simp_all add: session_inv_def)

lemma post_ok_mono:
  "post_ok st acts x \<Longrightarrow> mSensors st' = mSensors st \<Longrightarrow> set acts \<subseteq> set acts' \<Longrightarrow> post_ok st' acts' x"
  unfolding post_ok_def isWakeUpSensor_def by (cases x) (simp, blast)

lemma session_inv0: "sub_inv st \<Longrightarrow> unused st \<Longrightarrow> session_inv (session0 st w)"
  by (simp add: session_inv_def session0_def unused_def)

lemma session_inv_client:
  assumes inv: "session_inv s" and step: "client_step p c s = Some s'"
  shows "session_inv s'"
proof -
  have hal: "sub_inv (hal s)" using inv by (simp add: session_inv_def)
  obtain r st w where run: "run_sub p c (hal s) (world s) = Some (r, st, w)" and eff: "sub_effect c (hal s) r st"
    using run_sub_effect [OF hal] by blast
  define acts where "acts = g_acts s @ new_acts (g_inits s) c r st"
  define i where "i = (if begins_session c (hal s) then Suc (g_inits s) else g_inits s)"
  have s': "hal s' = st" "g_inits s' = i" "g_acts s' = acts" "g_posted s' = g_posted s" "g_began s' = g_began s"
    "poller s' = poller s \<or> poller s' = Before 0"
    using step run by (auto simp: client_step_def acts_def i_def)
  have epoch: "mEpoch st = of_nat i" using eff inv by (simp add: sub_effect_def session_inv_def i_def)
  have active: "(i, h, t) \<in> set acts" if cb: "mCallback st \<noteq> None" and t: "map_of (mActiveSince st) h = Some t" for h t
  proof (cases "begins_session c (hal s)")
    case True
    then show ?thesis using eff cb t by (simp add: sub_effect_def)
  next
    case False
    then have cb': "mCallback (hal s) \<noteq> None" and "map_of (mActiveSince (hal s)) h = Some t \<or> c = Activate h True \<and> r = OK"
      using eff cb t by (simp_all add: sub_effect_def)
    then show ?thesis
    proof (elim disjE)
      assume "map_of (mActiveSince (hal s)) h = Some t"
      then show ?thesis using session_invD(4) [OF inv cb'] False by (simp add: acts_def i_def)
    next
      assume "c = Activate h True \<and> r = OK"
      then show ?thesis using t by (simp add: acts_def i_def)
    qed
  qed
  have posted: "post_ok st acts x" if "i < 2 ^ 64" "x \<in> set (g_posted s)" for x
  proof (rule post_ok_mono)
    show "post_ok (hal s) (g_acts s) x" using session_invD(5) [OF inv] that by (simp add: i_def split: if_splits)
  qed (use eff in \<open>auto simp: sub_effect_def acts_def\<close>)
  have thread: "e = of_nat (g_began s) \<and> g_began s \<le> i" if "poller s' = Polling f e" for f e
    using that s'(6) session_invD(3) [OF inv, of f e] by (auto simp: i_def)
  show ?thesis
    using eff epoch active posted thread by (simp add: session_inv_def s' sub_effect_def)
qed

lemma session_inv_poll_end:
  assumes inv: "session_inv s" and poller: "poller s = Polling f e" and data: "length data = nat kPollMaxBufferSize"
    and ret: "poll_return p (hal s) e f n data = Some (f', delay, Some (wakeup, events))" and small: "g_inits s < 2 ^ 64"
  shows "post_ok (hal s) (g_acts s) (g_began s, g_inits s, wakeup, events)"
proof -
  have e: "e = of_nat (g_began s)" "g_began s \<le> g_inits s" and epoch: "mEpoch (hal s) = of_nat (g_inits s)"
    using inv poller by (simp_all add: session_inv_def)
  have n: "0 < n" "n \<le> kPollMaxBufferSize" and cb: "mCallback (hal s) \<noteq> None" and same: "e = mEpoch (hal s)"
    using ret by (auto simp: poll_return_def Let_def split: if_splits)
  have "g_began s = g_inits s"
    using same e epoch small by (simp add: of_nat_inverse word_of_nat_eq_iff take_bit_nat_eq_self)
  moreover have *: "events = batch_events p (hal s) (mEpoch (hal s)) n data" "events \<noteq> []"
    "wakeup \<longleftrightarrow> (\<exists>e \<in> set events. isWakeUpSensor (hal s) (ev_handle e))"
    using ret poll_return_batch [of n data "hal s" p f] n cb data same by (auto simp: Let_def split: if_splits)
  moreover have "has (mSensors (hal s)) (ev_handle v) \<and> (\<exists>t. (g_inits s, ev_handle v, t) \<in> set (g_acts s) \<and>
      (ev_type v = META_DATA \<or> t \<le> ev_timestamp v))" if "v \<in> set events" for v
  proof -
    have "accepted (hal s) (mEpoch (hal s)) v" using that *(1) by (simp add: batch_events_def)
    then obtain t where t: "map_of (mActiveSince (hal s)) (ev_handle v) = Some t" "has (mSensors (hal s)) (ev_handle v)"
      "ev_type v = META_DATA \<or> t \<le> ev_timestamp v"
      by (auto simp: accepted_def belongsToSession_def split: option.splits)
    then show ?thesis using session_invD(4) [OF inv cb t(1)] by blast
  qed
  ultimately show ?thesis by (simp add: post_ok_def)
qed

lemma session_inv_do:
  assumes inv: "session_inv s" and run: "session_do p a s = Some s'"
  shows "session_inv s'"
proof (cases a)
  case (Client c)
  then show ?thesis using session_inv_client [OF inv] run by simp
next
  case (Outside w)
  then show ?thesis using inv run by (auto simp: session_inv_def)
next
  case Poll_Begin
  then show ?thesis using inv run by (auto simp: session_inv_def split: poll_thread.splits)
next
  case (Poll_End n data)
  obtain f e f' delay post where *: "poller s = Polling f e" "length data = nat kPollMaxBufferSize"
    "poll_return p (hal s) e f n data = Some (f', delay, post)"
    "s' = s\<lparr>poller := Before f', g_posted := g_posted s @
       (case post of None \<Rightarrow> [] | Some (wakeup, events) \<Rightarrow> [(g_began s, g_inits s, wakeup, events)])\<rparr>"
    using run by (auto simp: Poll_End split: poll_thread.splits if_splits Option.bind_splits)
  have "\<forall>x \<in> set (g_posted s'). post_ok (hal s) (g_acts s) x" if "g_inits s < 2 ^ 64"
    using session_invD(5) [OF inv that] session_inv_poll_end [OF inv *(1,2) _ that] *(3,4)
    by (auto split: option.splits)
  then show ?thesis using inv *(4) by (simp add: session_inv_def)
qed

lemma session_inv_reach:
  assumes "lists_ok p" "session_reach p s"
  shows "session_inv s"
  using assms(2)
proof (induction rule: session_reach.induct)
  case (start w st w')
  then show ?case using SensorsSubHal_ok [OF assms(1), of w] session_inv0 by fastforce
next
  case (step s a s')
  then show ?case using session_inv_do by blast
qed



text \<open>A device with two sensors; the clock is the state outside, and an event is one byte: its time.\<close>

definition ex_device :: "int legacy_device" where
  "ex_device = \<lparr>ld_version = 0x01030001, ld_poll = True, ld_activate = Some (\<lambda>h on w. (0, w)),
     ld_batch = Some (\<lambda>h fl period latency w. (0, w)), ld_flush = Some (\<lambda>h w. (0, w)), ld_inject_sensor_data = None,
     ld_register_direct_channel = None, ld_config_direct_report = None\<rparr>"

definition ex_platform :: "int platform" where
  "ex_platform = \<lparr>
     hw_get_module = (\<lambda>w. ((0, Some \<lparr>lm_get_sensors_list = Some (\<lambda>w. ((3, Some ex_sensors), w)),
       lm_set_operation_mode = None\<rparr>), w)),
     sensors_open_1 = (\<lambda>w. ((0, Some ex_device), w)),
     convertFromSensor = (\<lambda>s. \<lparr>sensorHandle = s_handle s, flag_wake_up = s_wake_up s, flag_direct = False, info_other = []\<rparr>),
     convertFromSensorEvent = (\<lambda>b. \<lparr>ev_handle = 1, ev_type = TYPE_OTHER 1, ev_timestamp = int (length b), ev_payload = b\<rparr>),
     convertToSensorEvent = ev_payload, convertFromSharedMemInfo = Some, convertFromRateLevel = (\<lambda>r. 0),
     elapsedRealtimeNano = (\<lambda>w. (w, w + 1))\<rparr>"




text \<open>C40: In every state the sub-HAL can reach, no operation calls through a function pointer the legacy device does
  not have, and \<open>initialize\<close> with a callback begins a new session: it asks the device to stop every active sensor and
  then to close every direct channel, in the order of the maps, and keeps for the next attempt exactly the entries
  whose request the device refused, i.e. answered with a status that is not 0. Its result is that of the change to
  the normal mode if that fails, else the last refusal, else success. It succeeds only when no entry is left, the
  device is in its normal mode, and the new callback and the poll thread are in place; on a failure no callback is
  left.\<close>

theorem initialize_resets:
  assumes "lists_ok p" "session_reach p s"
  shows "(\<forall>c. run_sub p c (hal s) (world s) \<noteq> None) \<and>
    (isReady (hal s) \<longrightarrow> (\<exists>r st' w'. sub_initialize (Some c) (hal s) (world s) = Some (r, st', w') \<and>
       mEpoch st' = mEpoch (hal s) + 1 \<and> mSensors st' = mSensors (hal s) \<and>
       (let (stops, w1) = device_answers (device_stop (hal s)) (map fst (mActiveSince (hal s))) (world s);
            (closes, w2) = device_answers (device_close (hal s)) (map fst (mDirectChannels (hal s))) w1 in
        mActiveSince st' = map fst (filter (\<lambda>(e, status). status \<noteq> 0) (zip (mActiveSince (hal s)) stops)) \<and>
        mDirectChannels st' = map fst (filter (\<lambda>(e, status). status \<noteq> 0) (zip (mDirectChannels (hal s)) closes)) \<and>
        (\<exists>mode st2. setOperationModeLocked NORMAL (hal s) w2 = Some (mode, st2, w') \<and>
           r = (if mode \<noteq> OK then mode else last_failure OK (stops @ closes)))) \<and>
       (if r = OK then mCallback st' = Some c \<and> mPollThread st' \<and> mCurrentOperationMode st' = NORMAL \<and>
          mActiveSince st' = [] \<and> mDirectChannels st' = []
        else mCallback st' = None \<and> mPollThread st' = mPollThread (hal s))))"
proof -
  have inv: "sub_inv (hal s)" using session_invD(1) [OF session_inv_reach [OF assms]] .
  have "run_sub p d (hal s) (world s) \<noteq> None" for d using run_sub_effect [OF inv] by fastforce
  then show ?thesis using sub_initialize_ok [OF inv, of c "world s"] unfolding initialized_def refused_entries_def by blast
qed

text \<open>A device that refuses to stop sensor 2: the sensor stays on the list of active ones.\<close>

definition ex_sticky :: "int platform" where
  "ex_sticky = ex_platform\<lparr>sensors_open_1 := (\<lambda>w. ((0, Some (ex_device\<lparr>ld_activate :=
     Some (\<lambda>h on w. (if h = 2 \<and> \<not> on then - EPERM else 0, w))\<rparr>)), w))\<rparr>"

lemma ex_sticky_lists: "lists_ok ex_sticky"
  by (simp add: lists_ok_def ex_sticky_def ex_platform_def ex_sensors_def)

theorem initialize_resets_witness:
  "\<exists>s r st' w'. session_reach ex_sticky s \<and> mActiveSince (hal s) = [(1, 3), (2, 4)] \<and>
     sub_initialize (Some 0) (hal s) (world s) = Some (r, st', w') \<and> mEpoch st' = 2 \<and> mActiveSince st' = [(2, 4)] \<and>
     r = PERMISSION_DENIED \<and> mCallback st' = None"
proof -
  let ?acts = "[Client (Initialize (Some 0)), Outside 3, Client (Activate 1 True), Client (Activate 2 True)]"
  obtain st w where c: "SensorsSubHal ex_sticky 0 = Some (st, w)"
    using SensorsSubHal_ok [OF ex_sticky_lists] by blast
  have run: "map_option (\<lambda>s. (isReady (hal s), mEpoch (hal s), mActiveSince (hal s), mDirectChannels (hal s),
      device_answers (device_stop (hal s)) [1, 2] (world s), map_option fst (setOperationModeLocked NORMAL (hal s) 5)))
      (do {(st, w) \<leftarrow> SensorsSubHal ex_sticky 0; session_run ex_sticky ?acts (session0 st w)}) =
    Some (True, 1, [(1, 3), (2, 4)], [], ([0, - EPERM], 5), Some OK)"
    by code_simp
  then obtain s where s: "session_run ex_sticky ?acts (session0 st w) = Some s" and
    p: "isReady (hal s)" "mEpoch (hal s) = 1" "mActiveSince (hal s) = [(1, 3), (2, 4)]" "mDirectChannels (hal s) = []"
      "device_answers (device_stop (hal s)) [1, 2] (world s) = ([0, - EPERM], 5)"
      "map_option fst (setOperationModeLocked NORMAL (hal s) 5) = Some OK"
    using c by auto
  have reach: "session_reach ex_sticky s"
    using session_run_reach [OF session_reach.start [OF c] s] .
  from initialize_resets [OF ex_sticky_lists reach, of 0] p show ?thesis
    using reach by (intro exI [of _ s]) (auto simp: last_failure_def resultFromStatus_def)
qed

end
