(* ===== verification/Spec2Isabelle.thy ===== *)
theory Spec2Isabelle
  imports Wmt_Directory Wmt_Loader Wmt_Launcher Ril_Reissue Ril_Entry Sensors_Session
begin

text \<open>
  Verification of the native code of the XSH k50sv1 device tree.
\<close>

section \<open>The WMT services together\<close>

lemma accepted_chip_value: "parse_chip_id v = Some chip \<Longrightarrow> cached_value v"
  by (auto simp: parse_chip_id_def cached_value_def supported_chip_def launcher_supported_chip_def
      split: list.splits prod.splits if_splits)

text \<open>C26: The loader and the launcher agree on the chip: both use the same two properties, the launcher
  accepts every cached value the loader accepts, and every chip ID the loader publishes.\<close>

theorem loader_launcher_chip:
  "LAUNCHER_CHIP_PROPERTY = CHIP_PROPERTY \<and> DRIVER_READY = READY_PROPERTY
   \<and> (parse_chip_id v = Some chip \<longrightarrow> cached_value v)
   \<and> (supported_chip chip \<longrightarrow> cached_value (format_chip chip))"
proof -
  have "parse_chip_id (format_chip chip) = Some chip" if "supported_chip chip"
    using that parse_format [of chip] by (auto simp: supported_chip_def)
  then show ?thesis
    using accepted_chip_value
    by (auto simp: LAUNCHER_CHIP_PROPERTY_def CHIP_PROPERTY_def DRIVER_READY_def READY_PROPERTY_def)
qed

theorem loader_launcher_chip_witness:
  "supported_chip 0x6755 \<and> cached_value (format_chip 0x6755)"
  using loader_launcher_chip [of "[]" "0x6755"] by (simp add: supported_chip_def)

text \<open>C27: What the normal firmware search delivers is always sent: the launcher's reply to it is a patch
  list that passes every check of the protocol, with exactly the sequence numbers 1 to its count.\<close>

theorem found_firmware_is_sent:
  assumes "wmt_firmware_search (Some d) fw (Some out) (world0 rs) = Done (0, found) w"
    and "\<forall>r\<in>set rs. 0 < err r \<and> err r \<le> 4095" "d \<noteq> []"
    and "cmd_session c \<noteq> 0" "cmd_transaction c \<noteq> 0" "length buf = WMT_CMD2_WRITE_MAX"
  shows "\<exists>r data. found = Some r \<and> data = list_bytes c WMT_CMD2_PATCH_LIST (patch_records r)
    \<and> build_reply c True 0 r rom buf = Some (int (length data), 0, Some (data @ drop (length data) buf))
    \<and> unat ` rec_index ` set (patch_records r) = {1..length (patch_records r)}"
proof -
  have ok: "errno_ok (world0 rs)" using assms(2) by (simp add: errno_ok_def world0_def)
  obtain r where r: "found = Some r" "wf_firmware r" "wmt_patch_set_complete (Some (fr_patches r)) = 0"
    using wp_DoneD [OF firmware_search_wp [OF ok assms(3)] assms(1)] by auto
  have buf: "length buf = 2680" using assms(6) by (simp add: wmt_const_defs)
  note v = patch_records_valid [OF r(2,3)]
  show ?thesis
    using r(1) build_reply_patches [OF assms(4,5) buf r(2,3), of rom] list_bytes_length [OF v(2,1), of c]
      valid_patch_list_indices [OF v(1)]
    by (simp add: add.commute)
qed

theorem found_firmware_is_sent_witness:
  "\<exists>r w. wmt_firmware_search (Some (cstr ''/fw'')) 7 (Some zero_firmware_result)
      (world0 (dir_script [sample_entry, (ascii ''other'', [])])) = Done (0, Some r) w
    \<and> unat ` rec_index ` set (patch_records r) = {1..length (patch_records r)}"
proof -
  let ?rs = "dir_script [sample_entry, (ascii ''other'', [])]"
  obtain found w where run: "wmt_firmware_search (Some (cstr ''/fw'')) 7 (Some zero_firmware_result) (world0 ?rs) = Done (0, found) w"
    using sample_listing_complete firmware_search_listing [of 7 zero_firmware_result "[sample_entry, (ascii ''other'', [])]"]
    by auto
  have "err (ok_res n x k) = 1" for n x k by (simp add: ok_res_def)
  then have "\<forall>r\<in>set ?rs. 0 < err r \<and> err r \<le> 4095"
    unfolding dir_script_def entry_script_def header_reads_def by (auto split: if_splits)
  then show ?thesis
    using run found_firmware_is_sent [OF run, of "\<lparr>cmd_session = 1, cmd_transaction = 1, cmd_text = []\<rparr>" "replicate WMT_CMD2_WRITE_MAX 0" zero_rom_set]
    by (auto simp: cstr_def)
qed

end
